(* ===== verification/Prelude.thy ===== *)
theory Prelude imports Main "HOL-Library.Word" "HOL-Library.Multiset" begin

text \<open>
  What every component of the crawler model shares: the machine integers and strings of
  Rust, the fold that is \<open>Iterator::max_by\<close>, association lists as the hash maps the code
  iterates over, the metrics counters, and the named collections of proof rules.
\<close>

section \<open>Machine integers and strings\<close>

type_synonym byte = "8 word"
type_synonym u64 = "64 word"
type_synonym u32 = "32 word"
type_synonym u128 = "128 word"

text \<open>
  A Rust \<open>String\<close> is the list of its Unicode code points; \<open>lit\<close> turns an ASCII literal
  into one.
\<close>

type_synonym ustring = "nat list"

definition lit :: "string \<Rightarrow> ustring" where
  "lit s = map of_char s"

lemma lit_eq_iff [simp]: "lit s = lit t \<longleftrightarrow> s = t"
  by (simp add: lit_def inj_map_eq_map inj_on_def)

text \<open>\<open>u64::saturating_add\<close> and \<open>u32::saturating_add\<close>.\<close>

definition saturating_add :: "'w::len word \<Rightarrow> 'w word \<Rightarrow> 'w word" where
  "saturating_add a b = (if unat a + unat b < 2 ^ LENGTH('w) then a + b else - 1)"

lemma unat_saturating_add:
  "unat (saturating_add a b) = min (unat a + unat b) (2 ^ LENGTH('w) - 1)"
  for a b :: "'w::len word"
proof (cases "unat a + unat b < 2 ^ LENGTH('w)")
  case True
  then have "unat a + unat b \<le> 2 ^ LENGTH('w) - 1" by simp
  with True show ?thesis by (simp add: saturating_add_def unat_word_ariths min_absorb1)
next
  case False
  then have "2 ^ LENGTH('w) - 1 \<le> unat a + unat b" by simp
  with False show ?thesis
    by (simp add: saturating_add_def min_absorb2 unsigned_minus_1_eq_mask mask_eq_exp_minus_1)
qed

lemma saturating_add_ge: "a \<le> saturating_add a b"
  for a b :: "'w::len word"
proof -
  have "unat a < 2 ^ LENGTH('w)" by (rule unsigned_less)
  then have "unat a \<le> 2 ^ LENGTH('w) - 1" by linarith
  then show ?thesis by (simp add: word_le_nat_alt unat_saturating_add)
qed

text \<open>\<open>u32::saturating_sub\<close>.\<close>

definition saturating_sub :: "'w::len word \<Rightarrow> 'w word \<Rightarrow> 'w word" where
  "saturating_sub a b = (if a < b then 0 else a - b)"

lemma unat_saturating_sub: "unat (saturating_sub a b) = unat a - unat b"
  by (simp add: saturating_sub_def word_less_nat_alt unat_sub_if')

section \<open>Iterator::max_by\<close>

text \<open>
  \<open>max_by\<close> folds from the left and keeps the later element unless the comparison says the
  earlier one is greater: of several maximal elements it returns the last.
\<close>

datatype ordering = Less | Equal | Greater

definition cmp :: "'a::linorder \<Rightarrow> 'a \<Rightarrow> ordering" where
  "cmp a b = (if a < b then Less else if a = b then Equal else Greater)"

definition then_with :: "ordering \<Rightarrow> ordering \<Rightarrow> ordering" where
  "then_with o1 o2 = (if o1 = Equal then o2 else o1)"

fun max_by :: "('a \<Rightarrow> 'a \<Rightarrow> ordering) \<Rightarrow> 'a list \<Rightarrow> 'a option" where
  "max_by c [] = None"
| "max_by c (x # xs) = Some (foldl (\<lambda>a b. if c a b = Greater then a else b) x xs)"

lemma max_by_eq_None [simp]: "max_by c xs = None \<longleftrightarrow> xs = []"
  by (cases xs) auto

lemma foldl_max_in:
  "foldl (\<lambda>a b. if c a b = Greater then a else b) x xs \<in> set (x # xs)"
proof (induction xs arbitrary: x)
  case (Cons y ys)
  show ?case using Cons.IH [of x] Cons.IH [of y] by (auto split: if_splits)
qed simp

lemma max_by_in: "max_by c xs = Some m \<Longrightarrow> m \<in> set xs"
  by (cases xs) (use foldl_max_in [of c] in fastforce)+

text \<open>
  When the comparison comes from a total preorder \<open>le\<close> (\<open>c a b = Greater\<close> exactly when
  \<open>a\<close> is not below \<open>b\<close>), the result is above every element.
\<close>

lemma foldl_max_ge:
  assumes c: "\<And>a b. (c a b = Greater) = (\<not> le a b)"
    and total: "\<And>a b. le a b \<or> le b a" and tr: "\<And>a b d. le a b \<Longrightarrow> le b d \<Longrightarrow> le a d"
  shows "\<forall>y \<in> set (x # xs). le y (foldl (\<lambda>a b. if c a b = Greater then a else b) x xs)"
proof (induction xs arbitrary: x)
  case Nil
  show ?case using total [of x x] by simp
next
  case (Cons z zs)
  let ?w = "if c x z = Greater then x else z"
  let ?m = "foldl (\<lambda>a b. if c a b = Greater then a else b) ?w zs"
  have w: "le x ?w" "le z ?w"
    using c [of x z] total [of x z] total [of x x] total [of z z] by auto
  have m: "\<forall>y \<in> set (?w # zs). le y ?m"
    by (rule Cons.IH)
  then have "le x ?m" "le z ?m"
    using w tr by (meson list.set_intros(1))+
  with m show ?case by simp
qed

lemma max_by_ge:
  assumes "\<And>a b. (c a b = Greater) = (\<not> le a b)"
    and "\<And>a b. le a b \<or> le b a" and "\<And>a b d. le a b \<Longrightarrow> le b d \<Longrightarrow> le a d"
    and "max_by c xs = Some m" and "y \<in> set xs"
  shows "le y m"
proof (cases xs)
  case Nil
  with assms(5) show ?thesis by simp
next
  case (Cons x zs)
  have "\<forall>y \<in> set (x # zs). le y (foldl (\<lambda>a b. if c a b = Greater then a else b) x zs)"
    by (rule foldl_max_ge) (fact assms(1-3))+
  with Cons assms(4,5) show ?thesis by auto
qed

section \<open>Association lists as the code's hash maps\<close>

text \<open>
  \<open>entry(k).or_default().push(v)\<close> on a \<open>HashMap<K, Vec<V>>\<close>: the bucket of \<open>k\<close> grows at
  its end, a new bucket opens behind the others.
\<close>

fun push_group :: "'k \<Rightarrow> 'v \<Rightarrow> ('k \<times> 'v list) list \<Rightarrow> ('k \<times> 'v list) list" where
  "push_group k v [] = [(k, [v])]"
| "push_group k v ((k', vs) # gs) =
     (if k' = k then (k', vs @ [v]) # gs else (k', vs) # push_group k v gs)"

definition group_of :: "('k \<times> 'v list) list \<Rightarrow> 'k \<Rightarrow> 'v list" where
  "group_of gs k = (case map_of gs k of None \<Rightarrow> [] | Some vs \<Rightarrow> vs)"

lemma group_of_simps [simp]:
  "group_of [] k = []"
  "group_of ((k', vs) # gs) k = (if k' = k then vs else group_of gs k)"
  by (simp_all add: group_of_def)

lemma map_fst_push_group:
  "map fst (push_group k v gs) = (if k \<in> fst ` set gs then map fst gs else map fst gs @ [k])"
proof (induction gs)
  case (Cons g gs)
  then show ?case by (cases g) auto
qed simp

lemma fst_push_group [simp]: "fst ` set (push_group k v gs) = insert k (fst ` set gs)"
proof -
  have "set (map fst (push_group k v gs)) = insert k (fst ` set gs)"
    by (auto simp: map_fst_push_group)
  then show ?thesis by simp
qed

lemma distinct_push_group: "distinct (map fst gs) \<Longrightarrow> distinct (map fst (push_group k v gs))"
  by (simp add: map_fst_push_group)

lemma group_of_push [simp]:
  "group_of (push_group k v gs) k' = group_of gs k' @ (if k' = k then [v] else [])"
proof (induction gs)
  case (Cons g gs)
  then show ?case by (cases g) auto
qed simp

text \<open>
  Where a partial map over a keyed list keeps the keys, distinct keys stay distinct.
\<close>

lemma set_map_filter_iff: "v \<in> set (List.map_filter f gs) \<longleftrightarrow> (\<exists>g \<in> set gs. f g = Some v)"
  by (induction gs) (auto simp: map_filter_simps split: option.splits)

lemma distinct_map_filter_key:
  assumes "distinct (map fst gs)" and "\<And>g v. g \<in> set gs \<Longrightarrow> f g = Some v \<Longrightarrow> key v = fst g"
  shows "distinct (map key (List.map_filter f gs))"
  using assms
proof (induction gs)
  case (Cons g gs)
  have IH: "distinct (map key (List.map_filter f gs))" using Cons by simp
  show ?case
  proof (cases "f g")
    case None
    with IH show ?thesis by (simp add: map_filter_simps)
  next
    case (Some v)
    have k: "key v' \<noteq> key v" if v': "v' \<in> set (List.map_filter f gs)" for v'
    proof -
      obtain g' where g': "g' \<in> set gs" "f g' = Some v'"
        using v' unfolding set_map_filter_iff by blast
      then have "key v' = fst g'" using Cons.prems(2) [of g' v'] by simp
      moreover have "key v = fst g" using Cons.prems(2) [of g v] Some by simp
      moreover have "fst g \<notin> fst ` set gs" using Cons.prems(1) by simp
      then have "fst g' \<noteq> fst g" using g'(1) by (metis imageI)
      ultimately show ?thesis by simp
    qed
    have "key v \<notin> key ` set (List.map_filter f gs)"
    proof
      assume "key v \<in> key ` set (List.map_filter f gs)"
      then obtain v' where "v' \<in> set (List.map_filter f gs)" "key v = key v'" by blast
      with k [of v'] show False by simp
    qed
    with IH Some show ?thesis by (simp add: map_filter_simps)
  qed
qed (simp add: map_filter_simps)

section \<open>Metrics\<close>

text \<open>
  The process-wide counters of the \<open>metrics\<close> crate: a counter is its name and its \<open>relay\<close>
  label (empty when the code gives none).
\<close>

type_synonym metrics = "string \<times> ustring \<Rightarrow> nat"

definition count_by :: "string \<Rightarrow> nat \<Rightarrow> metrics \<Rightarrow> metrics" where
  "count_by name n m = m((name, []) := m (name, []) + n)"

definition count_relay :: "string \<Rightarrow> ustring \<Rightarrow> metrics \<Rightarrow> metrics" where
  "count_relay name relay m = m((name, relay) := Suc (m (name, relay)))"

abbreviation counter :: "metrics \<Rightarrow> string \<Rightarrow> nat" where
  "counter m name \<equiv> m (name, [])"

lemma counter_count_by [simp]:
  "count_by name n m (name', l) = (if name' = name \<and> l = [] then m (name', l) + n else m (name', l))"
  by (simp add: count_by_def)

lemma counter_count_relay [simp]:
  "count_relay name r m (name', l) =
     (if name' = name \<and> l = r then Suc (m (name', l)) else m (name', l))"
  by (simp add: count_relay_def)

end
