(* ===== verification/Float64.thy ===== *)
theory Float64 imports Prelude Complex_Main begin

text \<open>
  The \<open>f64\<close> arithmetic of the health scores: every operation is the real one followed by
  the rounding of the machine, a parameter \<open>rnd\<close>. What the code relies on of it is the
  documented IEEE 754 behaviour of round-to-nearest: monotone, exact on the integers up to
  \<open>2^53\<close>, at most half a unit in the last place off below one, and a value less than half a
  unit above one rounds to one.
\<close>

definition ieee :: "(real \<Rightarrow> real) \<Rightarrow> bool" where
  "ieee rnd \<longleftrightarrow>
     (\<forall>x y. x \<le> y \<longrightarrow> rnd x \<le> rnd y) \<and>
     (\<forall>n :: nat. n \<le> 2 ^ 53 \<longrightarrow> rnd (of_nat n) = of_nat n) \<and>
     (\<forall>x. 0 \<le> x \<and> x \<le> 1 \<longrightarrow> \<bar>rnd x - x\<bar> \<le> 1 / 2 ^ 54) \<and>
     (\<forall>x. x \<le> 1 + 1 / 2 ^ 53 \<longrightarrow> rnd x \<le> 1)"

lemma ieeeD:
  assumes "ieee rnd"
  shows ieee_mono: "x \<le> y \<Longrightarrow> rnd x \<le> rnd y"
    and ieee_nat: "n \<le> 2 ^ 53 \<Longrightarrow> rnd (of_nat n) = of_nat n"
    and ieee_err: "0 \<le> x \<Longrightarrow> x \<le> 1 \<Longrightarrow> \<bar>rnd x - x\<bar> \<le> 1 / 2 ^ 54"
    and ieee_one: "x \<le> 1 + 1 / 2 ^ 53 \<Longrightarrow> rnd x \<le> 1"
  using assms by (auto simp: ieee_def)

lemma ieee_0: "ieee rnd \<Longrightarrow> rnd 0 = 0"
  using ieee_nat [of rnd 0] by simp

lemma ieee_1: "ieee rnd \<Longrightarrow> rnd 1 = 1"
  using ieee_nat [of rnd 1] by simp

lemma ieee_nonneg: "ieee rnd \<Longrightarrow> 0 \<le> x \<Longrightarrow> 0 \<le> rnd x"
  using ieee_mono [of rnd 0 x] ieee_0 [of rnd] by simp

lemma ieee_le_1: "ieee rnd \<Longrightarrow> x \<le> 1 \<Longrightarrow> rnd x \<le> 1"
  using ieee_mono [of rnd x 1] ieee_1 [of rnd] by simp

lemma ieee_ge_1: "ieee rnd \<Longrightarrow> 1 \<le> x \<Longrightarrow> 1 \<le> rnd x"
  using ieee_mono [of rnd 1 x] ieee_1 [of rnd] by simp

text \<open>\<open>f64::round\<close>, half away from zero, and \<open>as usize\<close>, which saturates.\<close>

definition round_away :: "real \<Rightarrow> int" where
  "round_away x = (if x < 0 then - \<lfloor>- x + 1 / 2\<rfloor> else \<lfloor>x + 1 / 2\<rfloor>)"

definition as_usize :: "int \<Rightarrow> nat" where
  "as_usize i = nat (min (max i 0) (2 ^ 64 - 1))"

lemma round_away_le_nat:
  assumes "x \<le> of_nat n"
  shows "round_away x \<le> int n"
proof (cases "x < 0")
  case True
  then have "0 \<le> \<lfloor>- x + 1 / 2\<rfloor>" by (simp add: zero_le_floor)
  with True have "round_away x \<le> 0" unfolding round_away_def by simp
  then show ?thesis by simp
next
  case False
  have "x + 1 / 2 < of_int (int n + 1)" using assms by simp
  then have "\<lfloor>x + 1 / 2\<rfloor> < int n + 1" by (simp only: floor_less_iff)
  with False show ?thesis by (simp add: round_away_def)
qed

lemma as_usize_le: "i \<le> int n \<Longrightarrow> as_usize i \<le> n"
  by (simp add: as_usize_def)

lemma as_usize_mono: "i \<le> j \<Longrightarrow> as_usize i \<le> as_usize j"
  by (simp add: as_usize_def nat_mono)

lemma round_away_mono:
  assumes "x \<le> y" "0 \<le> x"
  shows "round_away x \<le> round_away y"
  using assms by (simp add: round_away_def floor_mono)

text \<open>A rounding with this behaviour, for evaluating the model.\<close>

definition demo_rnd :: "real \<Rightarrow> real" where
  "demo_rnd x = (if 1 < x \<and> x \<le> 1 + 1 / 2 ^ 53 then 1 else x)"

lemma ieee_demo: "ieee demo_rnd"
proof -
  have "demo_rnd (of_nat n) = of_nat n" for n :: nat
  proof (rule ccontr)
    assume "demo_rnd (of_nat n) \<noteq> of_nat n"
    then have a: "1 < real n" "real n \<le> 1 + 1 / 2 ^ 53" by (auto simp: demo_rnd_def split: if_splits)
    then have "2 \<le> n" by simp
    then have "(2 :: real) \<le> real n" by simp
    moreover have "(1 :: real) / 2 ^ 53 < 1" by simp
    ultimately show False using a by linarith
  qed
  then show ?thesis by (auto simp: ieee_def demo_rnd_def)
qed

end
