(* ===== verification/Health.thy ===== *)
theory Health imports Float64 begin

text \<open>
  \<open>src/relay/health.rs\<close>, the registry: a smoothed health score per relay, the number of
  requests in use, and the time of the last attempt. \<open>per_relay\<close> is the contract that an
  operation on one relay touches no other relay's state, a locale, interpreted on every
  operation of the registry.
\<close>

section \<open>The registry\<close>

definition DEFAULT_HEALTH_ALPHA :: real where "DEFAULT_HEALTH_ALPHA = 3 / 10"
definition DEFAULT_RELAY_HEALTH_THRESHOLD :: real where "DEFAULT_RELAY_HEALTH_THRESHOLD = 1 / 4"
definition DEFAULT_PER_RELAY_CONCURRENCY :: nat where "DEFAULT_PER_RELAY_CONCURRENCY = 4"
definition DEFAULT_NIP65_MAX_WRITE_RELAYS :: nat where "DEFAULT_NIP65_MAX_WRITE_RELAYS = 3"
definition DEFAULT_NIP65_FALLBACK_ENABLED :: bool where "DEFAULT_NIP65_FALLBACK_ENABLED = True"
definition LATENCY_SCALE_SECS :: real where "LATENCY_SCALE_SECS = 3"

text \<open>Durations and instants are nanoseconds.\<close>

type_synonym duration = nat

definition PROBE_INTERVAL :: duration where "PROBE_INTERVAL = 60 * 10 ^ 9"

record health =
  h_alpha :: real
  h_scores :: "ustring \<Rightarrow> real option"
  h_in_use :: "ustring \<Rightarrow> u32 option"
  h_last_probe :: "ustring \<Rightarrow> nat option"

definition health_new :: "real \<Rightarrow> health" where
  "health_new a = \<lparr>h_alpha = a, h_scores = (\<lambda>_. None), h_in_use = (\<lambda>_. None),
     h_last_probe = (\<lambda>_. None)\<rparr>"

definition score :: "health \<Rightarrow> ustring \<Rightarrow> real" where
  "score H relay = (case h_scores H relay of Some s \<Rightarrow> s | None \<Rightarrow> 1)"

definition health_update :: "(real \<Rightarrow> real) \<Rightarrow> ustring \<Rightarrow> real \<Rightarrow> health \<Rightarrow> health" where
  "health_update rnd relay sample H =
     (let prev = score H relay;
          next = rnd (rnd (h_alpha H * sample) + rnd (rnd (1 - h_alpha H) * prev))
      in H\<lparr>h_scores := (h_scores H)(relay \<mapsto> next)\<rparr>)"

text \<open>\<open>Duration::as_secs_f64\<close>.\<close>

definition as_secs_f64 :: "(real \<Rightarrow> real) \<Rightarrow> duration \<Rightarrow> real" where
  "as_secs_f64 rnd d =
     rnd (rnd (of_nat (d div 10 ^ 9)) + rnd (rnd (of_nat (d mod 10 ^ 9)) / 10 ^ 9))"

definition latency_sample :: "(real \<Rightarrow> real) \<Rightarrow> duration \<Rightarrow> real" where
  "latency_sample rnd latency =
     rnd (1 / rnd (1 + rnd (as_secs_f64 rnd latency / LATENCY_SCALE_SECS)))"

definition record_success :: "(real \<Rightarrow> real) \<Rightarrow> ustring \<Rightarrow> duration \<Rightarrow> health \<Rightarrow> health" where
  "record_success rnd relay latency H = health_update rnd relay (latency_sample rnd latency) H"

definition record_timeout :: "(real \<Rightarrow> real) \<Rightarrow> ustring \<Rightarrow> health \<Rightarrow> health" where
  "record_timeout rnd relay H = health_update rnd relay 0 H"

definition record_connect_failure :: "(real \<Rightarrow> real) \<Rightarrow> ustring \<Rightarrow> health \<Rightarrow> health" where
  "record_connect_failure rnd relay H = health_update rnd relay 0 H"

definition record_rate_limited :: "(real \<Rightarrow> real) \<Rightarrow> ustring \<Rightarrow> health \<Rightarrow> health" where
  "record_rate_limited rnd relay H = health_update rnd relay (rnd (2 / 10)) H"

definition permits :: "(real \<Rightarrow> real) \<Rightarrow> health \<Rightarrow> ustring \<Rightarrow> nat \<Rightarrow> nat" where
  "permits rnd H relay per_relay_concurrency =
     max (as_usize (round_away (rnd (rnd (of_nat per_relay_concurrency) * score H relay)))) 1"

definition in_use :: "health \<Rightarrow> ustring \<Rightarrow> u32" where
  "in_use H relay = (case h_in_use H relay of Some n \<Rightarrow> n | None \<Rightarrow> 0)"

definition incr_in_use :: "ustring \<Rightarrow> health \<Rightarrow> health" where
  "incr_in_use relay H =
     H\<lparr>h_in_use := (h_in_use H)(relay \<mapsto> saturating_add (in_use H relay) 1)\<rparr>"

definition decr_in_use :: "ustring \<Rightarrow> health \<Rightarrow> health" where
  "decr_in_use relay H =
     (case h_in_use H relay of
        None \<Rightarrow> H
      | Some n \<Rightarrow> H\<lparr>h_in_use := (h_in_use H)(relay \<mapsto> saturating_sub n 1)\<rparr>)"

text \<open>\<open>Instant::elapsed\<close> is zero for an instant in the future.\<close>

definition probe_due :: "nat option \<Rightarrow> nat \<Rightarrow> bool" where
  "probe_due prev now = (case prev of None \<Rightarrow> True | Some t \<Rightarrow> now - t \<ge> PROBE_INTERVAL)"

definition route_allowed :: "health \<Rightarrow> ustring \<Rightarrow> real \<Rightarrow> nat \<Rightarrow> bool" where
  "route_allowed H relay threshold now =
     (if score H relay \<ge> threshold then True else probe_due (h_last_probe H relay) now)"

definition mark_attempt :: "ustring \<Rightarrow> nat \<Rightarrow> health \<Rightarrow> health" where
  "mark_attempt relay now H = H\<lparr>h_last_probe := (h_last_probe H)(relay \<mapsto> now)\<rparr>"

definition try_mark_attempt :: "ustring \<Rightarrow> real \<Rightarrow> nat \<Rightarrow> health \<Rightarrow> bool \<times> health" where
  "try_mark_attempt relay threshold now H =
     (if score H relay \<ge> threshold then (True, mark_attempt relay now H)
      else let due = probe_due (h_last_probe H relay) now
           in (due, if due then mark_attempt relay now H else H))"

section \<open>Isolation of relays\<close>

text \<open>
  A registry keyed by relay: \<open>view\<close> is all it knows of one relay. An operation on a relay is
  isolated when it leaves every other relay's view alone; a whole run of operations on other
  relays then does too.
\<close>

locale per_relay =
  fixes view :: "'s \<Rightarrow> 'k \<Rightarrow> 'v"
    and step :: "'a \<Rightarrow> 'k \<Rightarrow> 's \<Rightarrow> 's"
  assumes isolated: "k' \<noteq> k \<Longrightarrow> view (step a k s) k' = view s k'"
    and own: "view s k = view s' k \<Longrightarrow> view (step a k s) k = view (step a k s') k"
begin

fun run :: "('a \<times> 'k) list \<Rightarrow> 's \<Rightarrow> 's" where
  "run [] s = s"
| "run ((a, k) # xs) s = run xs (step a k s)"

lemma run_isolated: "k \<notin> snd ` set xs \<Longrightarrow> view (run xs s) k = view s k"
proof (induction xs arbitrary: s)
  case (Cons x xs)
  obtain a k' where x: "x = (a, k')" by (cases x)
  with Cons.prems have "k \<noteq> k'" by auto
  with Cons x show ?case by (simp add: isolated)
qed simp

text \<open>What a run leaves of a relay, it leaves by the operations on that relay alone.\<close>

lemma run_filter:
  "view s k = view s' k \<Longrightarrow> view (run xs s) k = view (run (filter (\<lambda>x. snd x = k) xs) s') k"
proof (induction xs arbitrary: s s')
  case (Cons x xs)
  obtain a k' where x: "x = (a, k')" by (cases x)
  show ?case
  proof (cases "k' = k")
    case True
    then show ?thesis
      using Cons.IH [of "step a k s" "step a k s'"] own [OF Cons.prems] by (simp add: x)
  next
    case False
    then have "view (step a k' s) k = view s' k" using Cons.prems isolated [of k k'] by simp
    with Cons.IH False show ?thesis by (simp add: x)
  qed
qed simp

lemma run_invariant:
  assumes "\<And>a s. I (view s k) \<Longrightarrow> I (view (step a k s) k)"
  shows "I (view s k) \<Longrightarrow> I (view (run xs s) k)"
proof (induction xs arbitrary: s)
  case (Cons x xs)
  obtain a k' where x: "x = (a, k')" by (cases x)
  have "I (view (step a k' s) k)"
    using Cons.prems assms isolated by (cases "k' = k") auto
  with Cons.IH show ?case by (simp add: x)
qed simp

end

datatype health_op =
    Success duration
  | Timeout
  | Connect_Failure
  | Rate_Limited
  | Incr
  | Decr
  | Attempt real nat

fun health_step :: "(real \<Rightarrow> real) \<Rightarrow> health_op \<Rightarrow> ustring \<Rightarrow> health \<Rightarrow> health" where
  "health_step rnd (Success latency) relay H = record_success rnd relay latency H"
| "health_step rnd Timeout relay H = record_timeout rnd relay H"
| "health_step rnd Connect_Failure relay H = record_connect_failure rnd relay H"
| "health_step rnd Rate_Limited relay H = record_rate_limited rnd relay H"
| "health_step rnd Incr relay H = incr_in_use relay H"
| "health_step rnd Decr relay H = decr_in_use relay H"
| "health_step rnd (Attempt threshold now) relay H = snd (try_mark_attempt relay threshold now H)"

definition health_view :: "health \<Rightarrow> ustring \<Rightarrow> real \<times> real \<times> u32 \<times> nat option" where
  "health_view H relay = (h_alpha H, score H relay, in_use H relay, h_last_probe H relay)"

definition ewma :: "(real \<Rightarrow> real) \<Rightarrow> real \<Rightarrow> real \<Rightarrow> real \<Rightarrow> real" where
  "ewma rnd alpha sample prev = rnd (rnd (alpha * sample) + rnd (rnd (1 - alpha) * prev))"

lemma view_update:
  "score (health_update rnd relay sample H) r
     = (if r = relay then ewma rnd (h_alpha H) sample (score H relay) else score H r)"
  "in_use (health_update rnd relay sample H) r = in_use H r"
  "h_last_probe (health_update rnd relay sample H) = h_last_probe H"
  "h_alpha (health_update rnd relay sample H) = h_alpha H"
  by (simp_all add: health_update_def score_def in_use_def ewma_def Let_def)

lemma view_incr:
  "score (incr_in_use relay H) r = score H r"
  "in_use (incr_in_use relay H) r = (if r = relay then saturating_add (in_use H r) 1 else in_use H r)"
  "h_last_probe (incr_in_use relay H) = h_last_probe H" "h_alpha (incr_in_use relay H) = h_alpha H"
  by (simp_all add: incr_in_use_def score_def in_use_def)

lemma view_decr:
  "score (decr_in_use relay H) r = score H r"
  "in_use (decr_in_use relay H) r = (if r = relay then saturating_sub (in_use H r) 1 else in_use H r)"
  "h_last_probe (decr_in_use relay H) = h_last_probe H" "h_alpha (decr_in_use relay H) = h_alpha H"
  by (auto simp: decr_in_use_def score_def in_use_def saturating_sub_def split: option.split)

lemma view_mark:
  "score (mark_attempt relay now H) r = score H r"
  "in_use (mark_attempt relay now H) r = in_use H r"
  "h_last_probe (mark_attempt relay now H) = (h_last_probe H)(relay \<mapsto> now)"
  "h_alpha (mark_attempt relay now H) = h_alpha H"
  by (simp_all add: mark_attempt_def score_def in_use_def)

lemmas health_views = view_update view_incr view_decr view_mark record_success_def
  record_timeout_def record_connect_failure_def record_rate_limited_def try_mark_attempt_def
  health_view_def Let_def

interpretation health: per_relay health_view "health_step rnd" for rnd
proof
  fix k' k :: ustring and a H H'
  show "health_view (health_step rnd a k H) k' = health_view H k'" if "k' \<noteq> k"
    using that by (cases a) (auto simp: health_views)
  assume "health_view H k = health_view H' k"
  then show "health_view (health_step rnd a k H) k = health_view (health_step rnd a k H') k"
    by (cases a) (auto simp: health_views)
qed

section \<open>The score\<close>

text \<open>
  The smoothed score of values in \<open>[0, 1]\<close> stays there, in the machine's arithmetic: the two
  products round to at most \<open>alpha\<close> and the rounded \<open>1 - alpha\<close>, whose sum is off one by half
  a unit at most.
\<close>

lemma ewma_bounds:
  assumes r: "ieee rnd" and a: "0 < alpha" "alpha \<le> 1" "rnd alpha = alpha"
    and s: "0 \<le> sample" "sample \<le> 1" and p: "0 \<le> prev" "prev \<le> 1"
  shows "0 \<le> ewma rnd alpha sample prev \<and> ewma rnd alpha sample prev \<le> 1"
proof
  have b: "0 \<le> rnd (1 - alpha)" "rnd (1 - alpha) \<le> 1 - alpha + 1 / 2 ^ 54"
    using ieee_nonneg [OF r, of "1 - alpha"] ieee_err [OF r, of "1 - alpha"] a by linarith+
  have "alpha * sample \<le> alpha" using a s by (simp add: mult_left_le)
  then have 1: "rnd (alpha * sample) \<le> alpha" using ieee_mono [OF r] a(3) by metis
  have "rnd (1 - alpha) * prev \<le> rnd (1 - alpha)" using b p by (simp add: mult_left_le)
  moreover have "rnd (rnd (1 - alpha) * prev) \<le> rnd (1 - alpha) * prev + 1 / 2 ^ 54"
  proof -
    have "0 \<le> rnd (1 - alpha) * prev" using b p by simp
    moreover have "rnd (1 - alpha) \<le> 1" using ieee_le_1 [OF r] a by simp
    then have "rnd (1 - alpha) * prev \<le> 1" using b p by (simp add: mult_le_one)
    ultimately show ?thesis using ieee_err [OF r, of "rnd (1 - alpha) * prev"] by linarith
  qed
  ultimately have 2: "rnd (rnd (1 - alpha) * prev) \<le> 1 - alpha + 1 / 2 ^ 54 + 1 / 2 ^ 54"
    using b by linarith
  have "(1 :: real) / 2 ^ 54 + 1 / 2 ^ 54 = 1 / 2 ^ 53" by simp
  then have "rnd (alpha * sample) + rnd (rnd (1 - alpha) * prev) \<le> 1 + 1 / 2 ^ 53"
    using 1 2 by linarith
  then show "ewma rnd alpha sample prev \<le> 1" unfolding ewma_def by (rule ieee_one [OF r])
  have "0 \<le> rnd (alpha * sample)" "0 \<le> rnd (rnd (1 - alpha) * prev)"
    using ieee_nonneg [OF r] a s b p by simp_all
  then show "0 \<le> ewma rnd alpha sample prev"
    unfolding ewma_def by (intro ieee_nonneg [OF r]) simp
qed

lemma latency_sample_bounds:
  assumes r: "ieee rnd"
  shows "0 \<le> latency_sample rnd d" "latency_sample rnd d \<le> 1"
proof -
  have "0 \<le> as_secs_f64 rnd d" unfolding as_secs_f64_def
    by (intro ieee_nonneg [OF r] add_nonneg_nonneg divide_nonneg_nonneg) simp_all
  then have "0 \<le> rnd (as_secs_f64 rnd d / LATENCY_SCALE_SECS)"
    by (intro ieee_nonneg [OF r]) (simp add: LATENCY_SCALE_SECS_def)
  then have "1 \<le> rnd (1 + rnd (as_secs_f64 rnd d / LATENCY_SCALE_SECS))"
    by (intro ieee_ge_1 [OF r]) simp
  then have "0 \<le> 1 / rnd (1 + rnd (as_secs_f64 rnd d / LATENCY_SCALE_SECS))"
    "1 / rnd (1 + rnd (as_secs_f64 rnd d / LATENCY_SCALE_SECS)) \<le> 1" by simp_all
  then show "0 \<le> latency_sample rnd d" "latency_sample rnd d \<le> 1"
    unfolding latency_sample_def using ieee_nonneg [OF r] ieee_le_1 [OF r] by blast+
qed

definition score_in_range :: "(real \<Rightarrow> real) \<Rightarrow> real \<times> real \<times> u32 \<times> nat option \<Rightarrow> bool" where
  "score_in_range rnd = (\<lambda>(alpha, s, _). 0 < alpha \<and> alpha \<le> 1 \<and> rnd alpha = alpha \<and> 0 \<le> s \<and> s \<le> 1)"

lemma score_in_range_step:
  assumes "ieee rnd" and "score_in_range rnd (health_view H k)"
  shows "score_in_range rnd (health_view (health_step rnd a k H) k)"
proof -
  have h: "0 < h_alpha H" "h_alpha H \<le> 1" "rnd (h_alpha H) = h_alpha H" "0 \<le> score H k" "score H k \<le> 1"
    using assms(2) by (simp_all add: score_in_range_def health_view_def)
  have rl: "0 \<le> rnd (2 / 10)" "rnd (2 / 10) \<le> 1"
    using ieee_nonneg [OF assms(1), of "2 / 10"] ieee_le_1 [OF assms(1), of "2 / 10"] by simp_all
  note e = ewma_bounds [OF assms(1) h(1-3) _ _ h(4,5)]
  show ?thesis
    using h e [OF latency_sample_bounds [OF assms(1)]] e [of 0] e [OF rl]
    by (cases a) (auto simp: health_views score_in_range_def)
qed

lemma score_after_run:
  assumes "ieee rnd" and "0 < alpha" "alpha \<le> 1" "rnd alpha = alpha"
  shows "0 \<le> score (health.run rnd xs (health_new alpha)) k
    \<and> score (health.run rnd xs (health_new alpha)) k \<le> 1"
proof -
  have "score_in_range rnd (health_view (health_new alpha) k)"
    using assms by (simp add: score_in_range_def health_view_def health_new_def score_def)
  from health.run_invariant [where I = "score_in_range rnd", OF score_in_range_step [OF assms(1)] this]
  have "score_in_range rnd (health_view (health.run rnd xs (health_new alpha)) k)" .
  then show ?thesis by (simp add: score_in_range_def health_view_def)
qed

lemma permits_bounds:
  assumes "ieee rnd" and "cap \<le> 2 ^ 53" and "0 \<le> score H k" "score H k \<le> 1"
  shows "1 \<le> permits rnd H k cap \<and> permits rnd H k cap \<le> max 1 cap"
proof -
  have c: "rnd (of_nat cap) = of_nat cap" by (rule ieee_nat [OF assms(1,2)])
  have "rnd (of_nat cap * score H k) \<le> rnd (of_nat cap)"
    using assms(3,4) by (intro ieee_mono [OF assms(1)]) (simp add: mult_left_le)
  then have "rnd (rnd (of_nat cap) * score H k) \<le> of_nat cap" by (simp add: c)
  then have "round_away (rnd (rnd (of_nat cap) * score H k)) \<le> int cap"
    by (rule round_away_le_nat)
  then show ?thesis using as_usize_le by (auto simp: permits_def)
qed

section \<open>Properties\<close>

text \<open>
  C36. Whatever is reported about relays, in whatever order, every relay's score stays
  between 0 and 1 in the machine's arithmetic, and its share of concurrent requests between
  1 and the configured ceiling: a degraded relay is throttled, never shut out.
\<close>

theorem health_bounds:
  assumes "ieee rnd" and "0 < alpha" "alpha \<le> 1" "rnd alpha = alpha" and "cap \<le> 2 ^ 53"
    and "H = health.run rnd ops (health_new alpha)"
  shows "0 \<le> score H k \<and> score H k \<le> 1
    \<and> 1 \<le> permits rnd H k cap \<and> permits rnd H k cap \<le> max 1 cap"
  using score_after_run [OF assms(1-4), of ops k] permits_bounds [OF assms(1,5), of H k]
  unfolding assms(6) by blast

theorem health_bounds_witness:
  "let H = health.run demo_rnd [(Timeout, [1]), (Success 5, [2]), (Timeout, [1])] (health_new (3 / 10))
   in score H [1] \<le> 1 \<and> 1 \<le> permits demo_rnd H [1] 4"
  using health_bounds [OF ieee_demo, of "3 / 10" 4 _ "[(Timeout, [1]), (Success 5, [2]), (Timeout, [1])]"]
  by (simp add: demo_rnd_def Let_def)

text \<open>
  Relays are judged apart: all the registry knows of a relay after any interleaving of
  reports depends only on the reports about that relay, in their order.
\<close>

theorem health_isolation:
  "health_view (health.run rnd ops (health_new alpha)) k
    = health_view (health.run rnd (filter (\<lambda>x. snd x = k) ops) (health_new alpha)) k"
  by (rule health.run_filter) (rule refl)

text \<open>\<open>n\<close> callers that decide on one relay, one after the other, at the given times.\<close>

fun contend :: "ustring \<Rightarrow> real \<Rightarrow> nat list \<Rightarrow> health \<Rightarrow> bool list \<times> health" where
  "contend relay threshold [] H = ([], H)"
| "contend relay threshold (t # ts) H =
     (let (b, H1) = try_mark_attempt relay threshold t H;
          (bs, H2) = contend relay threshold ts H1
      in (b # bs, H2))"

lemma contend_lost:
  assumes "score H k < threshold" and "h_last_probe H k = Some t0"
    and "\<forall>t \<in> set ts. t < t0 + PROBE_INTERVAL"
  shows "contend k threshold ts H = (replicate (length ts) False, H)"
  using assms(3)
proof (induction ts)
  case (Cons t ts)
  have "\<not> probe_due (h_last_probe H k) t"
    using Cons.prems assms(2) by (auto simp: probe_due_def PROBE_INTERVAL_def)
  then have "try_mark_attempt k threshold t H = (False, H)"
    using assms(1) by (simp add: try_mark_attempt_def Let_def)
  with Cons show ?case by simp
qed simp

text \<open>
  C37. One probe per interval: of any number of callers that decide on a degraded relay
  within one probe interval, the first may contact it, if a probe is due, and all the others
  are turned away; above the threshold every caller may.
\<close>

theorem single_probe:
  assumes "\<forall>t' \<in> set ts. t' < t + PROBE_INTERVAL"
  shows "fst (contend k threshold (t # ts) H)
    = (if threshold \<le> score H k then replicate (Suc (length ts)) True
       else if probe_due (h_last_probe H k) t then True # replicate (length ts) False
       else False # fst (contend k threshold ts H))"
proof -
  have up: "fst (contend k threshold us H') = replicate (length us) True"
    if "threshold \<le> score H' k" for us H'
    using that
  proof (induction us arbitrary: H')
    case (Cons u us)
    then have "threshold \<le> score (mark_attempt k u H') k" by (simp add: view_mark)
    with Cons show ?case by (simp add: try_mark_attempt_def case_prod_beta)
  qed simp
  consider "threshold \<le> score H k" | "score H k < threshold" "probe_due (h_last_probe H k) t"
    | "score H k < threshold" "\<not> probe_due (h_last_probe H k) t" by linarith
  then show ?thesis
  proof cases
    case 1
    then show ?thesis using up [OF 1, of "t # ts"] by simp
  next
    case 2
    have "contend k threshold ts (mark_attempt k t H)
        = (replicate (length ts) False, mark_attempt k t H)"
      using 2 assms by (intro contend_lost [of _ _ _ t]) (auto simp: view_mark)
    with 2 show ?thesis by (simp add: try_mark_attempt_def)
  next
    case 3
    then show ?thesis by (simp add: try_mark_attempt_def case_prod_beta)
  qed
qed

theorem single_probe_witness:
  "fst (contend [1] (1 / 4) [100, 101, 102]
      (health.run demo_rnd [(Timeout, [1])] (health_new 1)))
    = [True, False, False]"
proof -
  let ?H = "health.run demo_rnd [(Timeout, [1])] (health_new 1)"
  have "\<forall>t' \<in> set [101, 102 :: nat]. t' < 100 + PROBE_INTERVAL" by (simp add: PROBE_INTERVAL_def)
  note single_probe [OF this, of "[1]" "1 / 4" ?H]
  moreover have "score ?H [1] < 1 / 4"
    by (simp add: health_views ewma_def demo_rnd_def health_new_def)
  moreover have "probe_due (h_last_probe ?H [1]) 100"
    by (simp add: health_views health_new_def probe_due_def)
  ultimately show ?thesis by simp
qed

end
