(* ===== verification/Rate_Limit.thy ===== *)
theory Rate_Limit imports Health begin

text \<open>
  \<open>src/relay/rate_limit.rs\<close>: the classification of relay notices, the backoff schedule on
  128-bit nanoseconds, and the registry of limiters and failure counts. Of the GCRA limiter
  (a third-party crate) the registry's part is modelled: which relays have one. The random
  jitter is a parameter that picks a number up to its bound.
\<close>

section \<open>Notices\<close>

datatype notice_kind = RateLimited | Blocked | Other

text \<open>\<open>str::trim\<close>: the code points with the \<open>White_Space\<close> property.\<close>

definition white_space :: "nat \<Rightarrow> bool" where
  "white_space c \<longleftrightarrow> 9 \<le> c \<and> c \<le> 13 \<or> c = 32 \<or> c = 133 \<or> c = 160 \<or> c = 5760
     \<or> 8192 \<le> c \<and> c \<le> 8202 \<or> c = 8232 \<or> c = 8233 \<or> c = 8239 \<or> c = 8287 \<or> c = 12288"

definition trim :: "ustring \<Rightarrow> ustring" where
  "trim s = rev (dropWhile white_space (rev (dropWhile white_space s)))"

definition classify_notice :: "ustring \<Rightarrow> notice_kind" where
  "classify_notice message =
     (let prefix = trim (takeWhile (\<lambda>c. c \<noteq> of_char (CHR '':'')) message)
      in if prefix = lit ''rate-limited'' then RateLimited
         else if prefix = lit ''blocked'' \<or> prefix = lit ''restricted'' then Blocked
         else Other)"

section \<open>The backoff schedule\<close>

definition DEFAULT_REQS_PER_SECOND :: u32 where "DEFAULT_REQS_PER_SECOND = 4"
definition DEFAULT_BACKOFF_BASE :: duration where "DEFAULT_BACKOFF_BASE = 10 ^ 9"
definition DEFAULT_BACKOFF_CAP :: duration where "DEFAULT_BACKOFF_CAP = 300 * 10 ^ 9"

text \<open>\<open>u128::checked_shl\<close> fails for shifts of the whole width only; bits shifted out are lost.\<close>

definition checked_shl :: "u128 \<Rightarrow> u32 \<Rightarrow> u128 option" where
  "checked_shl x n = (if unat n < 128 then Some (push_bit (unat n) x) else None)"

definition backoff_delay_unjittered :: "u32 \<Rightarrow> duration \<Rightarrow> duration \<Rightarrow> duration" where
  "backoff_delay_unjittered failures base cap =
     (let cap_nanos = (of_nat cap :: u128)
      in if failures \<ge> 64 then cap
         else let base_nanos = (of_nat base :: u128);
                  shifted = (case checked_shl base_nanos failures of Some x \<Rightarrow> x | None \<Rightarrow> - 1);
                  scaled = min shifted cap_nanos
              in min (unat (ucast (min scaled (2 ^ 64 - 1)) :: u64)) cap)"

text \<open>\<open>jitter s\<close> is the random number drawn from \<open>0..=s\<close>.\<close>

definition backoff_delay :: "(nat \<Rightarrow> nat) \<Rightarrow> u32 \<Rightarrow> duration \<Rightarrow> duration \<Rightarrow> duration" where
  "backoff_delay jitter failures base cap =
     (let capped = backoff_delay_unjittered failures base cap;
          half = capped div 2;
          span = capped - half;
          j = (if span = 0 then 0 else jitter (unat (of_nat span :: u64)))
      in half + j)"

section \<open>The registry\<close>

record limiter_registry =
  reqs_per_second :: u32
  rl_base :: duration
  rl_cap :: duration
  rl_limiters :: "ustring list"
  rl_failures :: "ustring \<Rightarrow> u32 option"

definition with_params :: "u32 \<Rightarrow> duration \<Rightarrow> duration \<Rightarrow> limiter_registry" where
  "with_params rps base cap = \<lparr>reqs_per_second = rps, rl_base = base, rl_cap = cap,
     rl_limiters = [], rl_failures = (\<lambda>_. None)\<rparr>"

definition limiter_new :: limiter_registry where
  "limiter_new = with_params DEFAULT_REQS_PER_SECOND DEFAULT_BACKOFF_BASE DEFAULT_BACKOFF_CAP"

text \<open>Get or create the relay's limiter; then the caller waits for its token.\<close>

definition acquire :: "ustring \<Rightarrow> limiter_registry \<Rightarrow> limiter_registry" where
  "acquire relay R =
     (if relay \<in> set (rl_limiters R) then R else R\<lparr>rl_limiters := rl_limiters R @ [relay]\<rparr>)"

definition failure_count :: "limiter_registry \<Rightarrow> ustring \<Rightarrow> u32" where
  "failure_count R relay = (case rl_failures R relay of Some n \<Rightarrow> n | None \<Rightarrow> 0)"

definition record_notice ::
  "(nat \<Rightarrow> nat) \<Rightarrow> ustring \<Rightarrow> ustring \<Rightarrow> limiter_registry \<Rightarrow> metrics
   \<Rightarrow> duration option \<times> limiter_registry \<times> metrics" where
  "record_notice jitter relay message R m =
     (case classify_notice message of
        RateLimited \<Rightarrow>
          (let failures = saturating_add (failure_count R relay) 1
           in (Some (backoff_delay jitter (failures - 1) (rl_base R) (rl_cap R)),
               R\<lparr>rl_failures := (rl_failures R)(relay \<mapsto> failures)\<rparr>,
               count_relay ''relay_rate_limited'' relay m))
      | Blocked \<Rightarrow> (None, R, count_relay ''relay_blocked'' relay m)
      | Other \<Rightarrow> (None, R, m))"

text \<open>\<open>backoff\<close>: the time slept is the delay, if any.\<close>

definition backoff ::
  "(nat \<Rightarrow> nat) \<Rightarrow> ustring \<Rightarrow> ustring \<Rightarrow> limiter_registry \<Rightarrow> metrics
   \<Rightarrow> duration \<times> limiter_registry \<times> metrics" where
  "backoff jitter relay message R m =
     (case record_notice jitter relay message R m of
        (Some d, R', m') \<Rightarrow> (d, R', m') | (None, R', m') \<Rightarrow> (0, R', m'))"

definition limiter_reset :: "ustring \<Rightarrow> limiter_registry \<Rightarrow> limiter_registry" where
  "limiter_reset relay R = R\<lparr>rl_failures := (rl_failures R)(relay := None)\<rparr>"

definition active_relay_count :: "limiter_registry \<Rightarrow> nat" where
  "active_relay_count R = length (rl_limiters R)"

definition has_limiter :: "limiter_registry \<Rightarrow> ustring \<Rightarrow> bool" where
  "has_limiter R relay \<longleftrightarrow> relay \<in> set (rl_limiters R)"

section \<open>What the schedule computes\<close>

lemma unat_min: "unat (min a b) = min (unat a) (unat b)" for a b :: "'a::len word"
  by (simp add: min_def word_le_nat_alt)

lemma unat_push_bit_u128:
  assumes "n * 2 ^ k < 2 ^ 128"
  shows "unat (push_bit k (of_nat n :: u128)) = n * 2 ^ k"
proof -
  have "push_bit k (of_nat n :: u128) = of_nat (n * 2 ^ k)" by (simp add: push_bit_eq_mult)
  then have "unat (push_bit k (of_nat n :: u128)) = unat (of_nat (n * 2 ^ k) :: u128)" by simp
  also have "\<dots> = n * 2 ^ k"
    unfolding unat_of_nat using assms by (simp add: take_bit_nat_eq_self)
  finally show ?thesis .
qed

lemma backoff_delay_unjittered_eq:
  assumes "0 < base" "base < 2 ^ 64" "cap < 2 ^ 64"
  shows "backoff_delay_unjittered failures base cap = min (base * 2 ^ unat failures) cap"
proof (cases "failures \<ge> 64")
  case True
  then have "64 \<le> unat failures" by (simp add: word_le_nat_alt)
  then have "(2 :: nat) ^ 64 \<le> 2 ^ unat failures" by (rule power_increasing) simp
  also have "\<dots> \<le> base * 2 ^ unat failures" using assms(1) by simp
  finally have "cap \<le> base * 2 ^ unat failures" using assms(3) by linarith
  with True show ?thesis by (simp add: backoff_delay_unjittered_def)
next
  case False
  then have f: "unat failures < 64" by (simp add: word_le_nat_alt not_le)
  then have "(2 :: nat) ^ unat failures \<le> 2 ^ 63" by (intro power_increasing) auto
  then have "base * 2 ^ unat failures \<le> base * 2 ^ 63" by simp
  also have "\<dots> < 2 ^ 64 * 2 ^ 63" using assms(2) by simp
  also have "\<dots> < (2 :: nat) ^ 128" by simp
  finally have lt: "base * 2 ^ unat failures < 2 ^ 128" .
  have c: "unat (of_nat cap :: u128) = cap"
    using assms(3) by (simp add: unat_of_nat)
  let ?s = "min (push_bit (unat failures) (of_nat base)) (of_nat cap) :: u128"
  have s: "unat ?s = min (base * 2 ^ unat failures) cap"
    by (simp only: unat_min unat_push_bit_u128 [OF lt] c)
  have u: "unat (2 ^ 64 - 1 :: u128) = 2 ^ 64 - 1" by simp
  have "unat (min ?s (2 ^ 64 - 1)) = min (unat ?s) (2 ^ 64 - 1)"
    by (simp only: unat_min [of ?s] u)
  then have m: "unat (min ?s (2 ^ 64 - 1)) = min (base * 2 ^ unat failures) cap"
    using assms(3) unfolding s by linarith
  then have "unat (ucast (min ?s (2 ^ 64 - 1)) :: u64) = min (base * 2 ^ unat failures) cap"
    using assms(3) by (simp add: unsigned_ucast_eq take_bit_nat_eq_self)
  with False f show ?thesis
    by (simp add: backoff_delay_unjittered_def checked_shl_def Let_def)
qed

section \<open>Isolation\<close>

datatype limiter_op = Notice ustring | Reset | Acquire

fun limiter_step :: "limiter_op \<Rightarrow> ustring \<Rightarrow> limiter_registry \<Rightarrow> limiter_registry" where
  "limiter_step (Notice message) relay R = fst (snd (record_notice (\<lambda>s. s) relay message R (\<lambda>_. 0)))"
| "limiter_step Reset relay R = limiter_reset relay R"
| "limiter_step Acquire relay R = acquire relay R"

definition limiter_view :: "limiter_registry \<Rightarrow> ustring \<Rightarrow> u32 \<times> bool" where
  "limiter_view R relay = (failure_count R relay, has_limiter R relay)"

lemma failure_count_notice:
  "failure_count (fst (snd (record_notice jitter relay message R m))) r
     = (if r = relay \<and> classify_notice message = RateLimited
        then saturating_add (failure_count R r) 1 else failure_count R r)"
  by (auto simp: record_notice_def failure_count_def Let_def split: notice_kind.split)

lemma registry_notice [simp]:
  "rl_limiters (fst (snd (record_notice jitter relay message R m))) = rl_limiters R"
  "rl_base (fst (snd (record_notice jitter relay message R m))) = rl_base R"
  "rl_cap (fst (snd (record_notice jitter relay message R m))) = rl_cap R"
  by (simp_all add: record_notice_def Let_def split: notice_kind.split)

interpretation limiter: per_relay limiter_view limiter_step
proof
  fix k k' :: ustring and a R R'
  show "limiter_view (limiter_step a k R) k' = limiter_view R k'" if "k' \<noteq> k"
    using that
    by (cases a) (auto simp: limiter_view_def failure_count_notice has_limiter_def acquire_def
        limiter_reset_def failure_count_def [of "_\<lparr>rl_failures := _\<rparr>"] failure_count_def [of R]
        failure_count_def [of "_\<lparr>rl_limiters := _\<rparr>"])
  assume "limiter_view R k = limiter_view R' k"
  then show "limiter_view (limiter_step a k R) k = limiter_view (limiter_step a k R') k"
    by (cases a) (auto simp: limiter_view_def failure_count_notice has_limiter_def acquire_def
        limiter_reset_def failure_count_def [of "_\<lparr>rl_failures := _\<rparr>"]
        failure_count_def [of "_\<lparr>rl_limiters := _\<rparr>"] failure_count_def [of R, symmetric]
        failure_count_def [of R', symmetric])
qed

section \<open>Properties\<close>

text \<open>
  The delay before jitter is exactly the smaller of the cap and the base doubled per
  failure, for every 32-bit failure count and every base and cap up to 584 years: the 128-bit
  shift never loses a bit there, so the schedule grows with the failures and ends at the cap.
\<close>

theorem backoff_schedule:
  assumes "0 < base" and "base < 2 ^ 64" and "cap < 2 ^ 64"
  shows "backoff_delay_unjittered failures base cap = min (base * 2 ^ unat failures) cap
    \<and> (failures \<le> failures' \<longrightarrow>
        backoff_delay_unjittered failures base cap \<le> backoff_delay_unjittered failures' base cap)"
proof -
  have "min (base * 2 ^ unat failures) cap \<le> min (base * 2 ^ unat failures') cap"
    if "failures \<le> failures'"
  proof -
    have "(2 :: nat) ^ unat failures \<le> 2 ^ unat failures'"
      using that by (intro power_increasing) (simp_all add: word_le_nat_alt)
    then show ?thesis by (meson min.mono mult_le_mono2 order_refl)
  qed
  then show ?thesis using backoff_delay_unjittered_eq [OF assms] by simp
qed

theorem backoff_schedule_witness:
  "backoff_delay_unjittered 3 DEFAULT_BACKOFF_BASE DEFAULT_BACKOFF_CAP = 8000000000
    \<and> backoff_delay_unjittered 40 DEFAULT_BACKOFF_BASE DEFAULT_BACKOFF_CAP = 300000000000"
  using backoff_schedule [of DEFAULT_BACKOFF_BASE DEFAULT_BACKOFF_CAP]
  by (simp add: DEFAULT_BACKOFF_BASE_def DEFAULT_BACKOFF_CAP_def)

lemma unat_of_nat_u64: "n < 2 ^ 64 \<Longrightarrow> unat (of_nat n :: u64) = n"
  unfolding unat_of_nat by (simp add: take_bit_nat_eq_self)

lemma jitter_range:
  assumes "0 < base" "base < 2 ^ 64" "cap < 2 ^ 64" and "\<And>s. jitter s \<le> s"
  shows "min (base * 2 ^ unat f) cap div 2 \<le> backoff_delay jitter f base cap
    \<and> backoff_delay jitter f base cap \<le> min (base * 2 ^ unat f) cap"
proof -
  define c where "c = min (base * 2 ^ unat f) cap"
  have u: "backoff_delay_unjittered f base cap = c"
    unfolding c_def by (rule backoff_delay_unjittered_eq [OF assms(1-3)])
  have "c - c div 2 < 2 ^ 64" using assms(3) unfolding c_def by linarith
  then have "unat (of_nat (c - c div 2) :: u64) = c - c div 2" by (rule unat_of_nat_u64)
  moreover obtain j where j: "j = jitter (c - c div 2)" "j \<le> c - c div 2" using assms(4) by blast
  ultimately have "backoff_delay jitter f base cap = c div 2 + (if c - c div 2 = 0 then 0 else j)"
    unfolding backoff_delay_def u Let_def by (simp only:)
  moreover have "c div 2 + j \<le> c" using j(2) by linarith
  ultimately show ?thesis unfolding c_def [symmetric] by auto
qed

text \<open>
  Jitter moves the delay within its upper half: the result is between half of the delay
  before jitter and all of it.
\<close>

theorem backoff_jitter:
  assumes "0 < base" and "base < 2 ^ 64" and "cap < 2 ^ 64" and "\<And>s. jitter s \<le> s"
  shows "backoff_delay_unjittered f base cap div 2 \<le> backoff_delay jitter f base cap
    \<and> backoff_delay jitter f base cap \<le> backoff_delay_unjittered f base cap"
  using jitter_range [OF assms] backoff_delay_unjittered_eq [OF assms(1-3)] by simp

theorem backoff_jitter_witness:
  "2000000000 \<le> backoff_delay (\<lambda>s. s div 3) 2 DEFAULT_BACKOFF_BASE DEFAULT_BACKOFF_CAP
    \<and> backoff_delay (\<lambda>s. s div 3) 2 DEFAULT_BACKOFF_BASE DEFAULT_BACKOFF_CAP \<le> 4000000000"
proof -
  have "backoff_delay_unjittered 2 DEFAULT_BACKOFF_BASE DEFAULT_BACKOFF_CAP = 4000000000"
    using backoff_delay_unjittered_eq [of DEFAULT_BACKOFF_BASE DEFAULT_BACKOFF_CAP 2]
    by (simp add: DEFAULT_BACKOFF_BASE_def DEFAULT_BACKOFF_CAP_def)
  then show ?thesis
    using backoff_jitter [of DEFAULT_BACKOFF_BASE DEFAULT_BACKOFF_CAP "\<lambda>s. s div 3" 2]
    by (simp add: DEFAULT_BACKOFF_BASE_def DEFAULT_BACKOFF_CAP_def)
qed

text \<open>
  The guard at 64 failures does not cover every base: from \<open>2^65\<close> nanoseconds on, a valid
  duration, the shift loses the set bit and the schedule returns no delay at all just below
  the guard.
\<close>

theorem backoff_truncates:
  "backoff_delay_unjittered 63 (2 ^ 65) (2 ^ 65) = 0
    \<and> backoff_delay_unjittered 64 (2 ^ 65) (2 ^ 65) = 2 ^ 65"
proof -
  have "push_bit 63 (2 ^ 65 :: u128) = 0"
    by (simp add: push_bit_eq_mult flip: power_add)
  then show ?thesis by (simp add: backoff_delay_unjittered_def checked_shl_def)
qed

fun notices ::
  "(nat \<Rightarrow> nat) \<Rightarrow> ustring \<Rightarrow> ustring \<Rightarrow> nat \<Rightarrow> limiter_registry \<Rightarrow> metrics
   \<Rightarrow> duration option \<times> limiter_registry \<times> metrics" where
  "notices jitter relay message 0 R m = (None, R, m)"
| "notices jitter relay message (Suc k) R m =
     (case notices jitter relay message k R m of
        (_, R', m') \<Rightarrow> record_notice jitter relay message R' m')"

lemma notices_state:
  assumes "classify_notice message = RateLimited" and "failure_count R relay = 0"
    and "notices jitter relay message k R m = (d, R', m')"
  shows "unat (failure_count R' relay) = min k (2 ^ 32 - 1)
    \<and> rl_base R' = rl_base R \<and> rl_cap R' = rl_cap R
    \<and> m' (''relay_rate_limited'', relay) = m (''relay_rate_limited'', relay) + k"
  using assms(3)
proof (induction k arbitrary: d R' m')
  case 0
  then show ?case using assms(2) by simp
next
  case (Suc k)
  obtain d1 R1 m1 where k: "notices jitter relay message k R m = (d1, R1, m1)"
    by (cases "notices jitter relay message k R m")
  then have r: "record_notice jitter relay message R1 m1 = (d, R', m')" using Suc.prems by simp
  have "R' = fst (snd (record_notice jitter relay message R1 m1))" using r by simp
  then have "failure_count R' relay = saturating_add (failure_count R1 relay) 1"
    "rl_base R' = rl_base R1" "rl_cap R' = rl_cap R1"
    using failure_count_notice [of jitter relay message R1 m1 relay] assms(1) by simp_all
  moreover have "m' (''relay_rate_limited'', relay) = Suc (m1 (''relay_rate_limited'', relay))"
    using r assms(1) by (auto simp: record_notice_def Let_def)
  ultimately show ?case using Suc.IH [OF k] by (simp add: unat_saturating_add)
qed

lemma two64_le:
  assumes "64 \<le> n" "0 < (b :: nat)"
  shows "2 ^ 64 \<le> b * 2 ^ n"
proof -
  have "(2 :: nat) ^ 64 \<le> 2 ^ n" using assms(1) by (rule power_increasing) simp
  also have "\<dots> \<le> b * 2 ^ n" using assms(2) by simp
  finally show ?thesis .
qed

lemma notices_delay:
  assumes "classify_notice message = RateLimited"
  shows "\<exists>d R' m'. notices jitter relay message (Suc k) R m = (Some d, R', m')"
  using assms by (simp add: record_notice_def Let_def split: prod.split)

text \<open>
  A relay that keeps answering ``rate-limited'' is backed off exponentially: the delay for
  the \<open>k\<close>-th notice in a row is within the upper half of the base doubled \<open>k - 1\<close> times, up
  to the cap, however many notices there are; each is counted, and after a reset the schedule
  starts over from the base.
\<close>

theorem notice_escalation:
  assumes "classify_notice message = RateLimited" and "failure_count R relay = 0"
    and "0 < rl_base R" "rl_base R < 2 ^ 64" "rl_cap R < 2 ^ 64" and "\<And>s. jitter s \<le> s"
    and "notices jitter relay message (Suc k) R m = (Some d, R', m')"
  shows "min (rl_base R * 2 ^ k) (rl_cap R) div 2 \<le> d \<and> d \<le> min (rl_base R * 2 ^ k) (rl_cap R)
    \<and> m' (''relay_rate_limited'', relay) = m (''relay_rate_limited'', relay) + Suc k
    \<and> failure_count (limiter_reset relay R') relay = 0"
proof -
  obtain d1 R1 m1 where k: "notices jitter relay message k R m = (d1, R1, m1)"
    by (cases "notices jitter relay message k R m")
  note st = notices_state [OF assms(1,2) k]
  have r: "record_notice jitter relay message R1 m1 = (Some d, R', m')" using assms(7) k by simp
  let ?f = "saturating_add (failure_count R1 relay) 1 - 1"
  have d: "d = backoff_delay jitter ?f (rl_base R) (rl_cap R)"
    using r assms(1) st by (auto simp: record_notice_def Let_def)
  have sa: "unat (saturating_add (failure_count R1 relay) 1) = min (Suc k) (2 ^ 32 - 1)"
    using st by (simp add: unat_saturating_add)
  then have "saturating_add (failure_count R1 relay) 1 \<noteq> 0" by auto
  then have f: "unat ?f = min k (2 ^ 32 - 2)" using sa by (simp add: unat_minus_one)
  have "min (rl_base R * 2 ^ unat ?f) (rl_cap R) = min (rl_base R * 2 ^ k) (rl_cap R)"
  proof (cases "k \<le> 2 ^ 32 - 2")
    case True
    with f show ?thesis by simp
  next
    case False
    then have "64 \<le> unat ?f" "64 \<le> k" using f by auto
    then have "2 ^ 64 \<le> rl_base R * 2 ^ unat ?f" "2 ^ 64 \<le> rl_base R * 2 ^ k"
      using two64_le assms(3) by blast+
    then have "rl_cap R \<le> rl_base R * 2 ^ unat ?f" "rl_cap R \<le> rl_base R * 2 ^ k"
      using assms(5) by linarith+
    then show ?thesis by simp
  qed
  moreover have "m' (''relay_rate_limited'', relay) = m (''relay_rate_limited'', relay) + Suc k"
    using notices_state [OF assms(1,2,7)] by simp
  moreover have "failure_count (limiter_reset relay R') relay = 0"
    by (simp add: failure_count_def limiter_reset_def)
  ultimately show ?thesis
    using jitter_range [OF assms(3-6), of ?f] unfolding d by simp
qed

theorem notice_escalation_witness:
  "\<exists>d R' m'. notices (\<lambda>s. s) [1] (lit ''rate-limited: slow down'') 3 limiter_new (\<lambda>_. 0) = (Some d, R', m')
    \<and> 2000000000 \<le> d \<and> d \<le> 4000000000"
proof -
  let ?R = limiter_new and ?msg = "lit ''rate-limited: slow down''"
  have c: "classify_notice ?msg = RateLimited"
    by (simp add: classify_notice_def trim_def white_space_def lit_def)
  have p: "failure_count ?R [1] = 0" "rl_base ?R = 1000000000" "rl_cap ?R = 300000000000"
    by (simp_all add: limiter_new_def with_params_def failure_count_def DEFAULT_BACKOFF_BASE_def
        DEFAULT_BACKOFF_CAP_def)
  obtain d R' m' where n: "notices (\<lambda>s. s) [1] ?msg (Suc 2) ?R (\<lambda>_. 0) = (Some d, R', m')"
    using notices_delay [OF c] by blast
  show ?thesis
  proof (intro exI conjI)
    have "notices (\<lambda>s. s) [1] ?msg 3 ?R (\<lambda>_. 0) = notices (\<lambda>s. s) [1] ?msg (Suc 2) ?R (\<lambda>_. 0)"
      by (simp only: eval_nat_numeral)
    then show "notices (\<lambda>s. s) [1] ?msg 3 ?R (\<lambda>_. 0) = (Some d, R', m')" using n by simp
    have "min (rl_base ?R * 2 ^ 2) (rl_cap ?R) = 4000000000" by (simp add: p)
    then show "2000000000 \<le> d" "d \<le> 4000000000"
      using notice_escalation [OF c p(1) _ _ _ _ n] by (simp_all add: p)
  qed
qed

end
