(* ===== verification/Admission.thy ===== *)
theory Admission imports Rate_Limit begin

text \<open>
  \<open>admit_per_relay\<close> of \<open>src/relay/health.rs\<close>, the gate every fetch of one relay passes, as a
  step relation over any number of concurrent tasks: each waits until the in-use count is
  below the health-scaled permits, then takes a permit of the fixed-size semaphore, counts
  itself in, fetches, and the drop guard counts it out. Between any two steps other tasks
  report health and other relays are served.

  The caller brings the semaphore. The closures of \<open>src/daemon/mod.rs\<close> have two maps of them, one
  for the curated relays and one for write relays, and a url may have one in each; the in-use
  count is the url's and is shared.
\<close>

section \<open>Steps\<close>

datatype phase = Waiting | Admitted | Fetching | Finished

datatype closure = Fan_Out | Write_Relay_Fetch | Relay_List_Fetch

datatype semaphore = Curated_Sem | Fallback_Sem

text \<open>Which of the relay's semaphores a closure takes; \<open>curated\<close> says that \<open>per_relay_sems\<close> has the url.\<close>

fun sem_of :: "bool \<Rightarrow> closure \<Rightarrow> semaphore" where
  "sem_of curated Fan_Out = Curated_Sem"
| "sem_of curated Write_Relay_Fetch = Fallback_Sem"
| "sem_of curated Relay_List_Fetch = (if curated then Curated_Sem else Fallback_Sem)"

record admission =
  adm_tasks :: "(closure \<times> phase) list"
  adm_sem :: "semaphore \<Rightarrow> nat"
  adm_health :: health

definition gate_open :: "(real \<Rightarrow> real) \<Rightarrow> health \<Rightarrow> ustring \<Rightarrow> nat \<Rightarrow> bool" where
  "gate_open rnd H relay cap \<longleftrightarrow> in_use H relay < (of_nat (permits rnd H relay cap) :: u32)"

text \<open>
  What the rest of the program may do to the registry meanwhile: report on any relay, and count
  in and out at others. All that counts at this one is a task of the list.
\<close>

definition foreign :: "ustring \<Rightarrow> health_op \<Rightarrow> ustring \<Rightarrow> bool" where
  "foreign relay a k \<longleftrightarrow> k \<noteq> relay \<or> a \<notin> {Incr, Decr}"

inductive admit_step ::
  "(real \<Rightarrow> real) \<Rightarrow> ustring \<Rightarrow> bool \<Rightarrow> nat \<Rightarrow> admission \<Rightarrow> admission \<Rightarrow> bool"
  for rnd relay curated cap where
  pass_gate: "\<lbrakk>i < length (adm_tasks s); adm_tasks s ! i = (c, Waiting);
      gate_open rnd (adm_health s) relay cap\<rbrakk> \<Longrightarrow>
    admit_step rnd relay curated cap s (s\<lparr>adm_tasks := (adm_tasks s)[i := (c, Admitted)]\<rparr>)"
| take_permit: "\<lbrakk>i < length (adm_tasks s); adm_tasks s ! i = (c, Admitted); g = sem_of curated c;
      0 < adm_sem s g\<rbrakk> \<Longrightarrow>
    admit_step rnd relay curated cap s (s\<lparr>adm_tasks := (adm_tasks s)[i := (c, Fetching)],
      adm_sem := (adm_sem s)(g := adm_sem s g - 1), adm_health := incr_in_use relay (adm_health s)\<rparr>)"
| finish: "\<lbrakk>i < length (adm_tasks s); adm_tasks s ! i = (c, Fetching); g = sem_of curated c\<rbrakk> \<Longrightarrow>
    admit_step rnd relay curated cap s (s\<lparr>adm_tasks := (adm_tasks s)[i := (c, Finished)],
      adm_sem := (adm_sem s)(g := adm_sem s g + 1), adm_health := decr_in_use relay (adm_health s)\<rparr>)"
| report: "foreign relay a k \<Longrightarrow>
    admit_step rnd relay curated cap s (s\<lparr>adm_health := health_step rnd a k (adm_health s)\<rparr>)"

inductive_cases admit_stepE: "admit_step rnd relay curated cap s s'"

definition admit_start :: "closure list \<Rightarrow> nat \<Rightarrow> real \<Rightarrow> admission" where
  "admit_start cs cap alpha =
     \<lparr>adm_tasks = map (\<lambda>c. (c, Waiting)) cs, adm_sem = (\<lambda>_. cap), adm_health = health_new alpha\<rparr>"

abbreviation admit_reach ::
  "(real \<Rightarrow> real) \<Rightarrow> ustring \<Rightarrow> bool \<Rightarrow> nat \<Rightarrow> closure list \<Rightarrow> real \<Rightarrow> admission \<Rightarrow> bool" where
  "admit_reach rnd relay curated cap cs alpha s \<equiv>
     (admit_step rnd relay curated cap)\<^sup>*\<^sup>* (admit_start cs cap alpha) s"

definition fetching :: "admission \<Rightarrow> nat" where
  "fetching s = length (filter (\<lambda>t. snd t = Fetching) (adm_tasks s))"

text \<open>The fetches in flight with a permit of \<open>g\<close>.\<close>

definition fetching_by :: "bool \<Rightarrow> semaphore \<Rightarrow> admission \<Rightarrow> nat" where
  "fetching_by curated g s =
     length (filter (\<lambda>t. snd t = Fetching \<and> sem_of curated (fst t) = g) (adm_tasks s))"

section \<open>The invariant\<close>

text \<open>
  The in-use count is the number of fetches in flight, and with the free permits they make
  up the semaphores.
\<close>

definition admit_inv :: "(real \<Rightarrow> real) \<Rightarrow> ustring \<Rightarrow> bool \<Rightarrow> nat \<Rightarrow> admission \<Rightarrow> bool" where
  "admit_inv rnd relay curated cap s \<longleftrightarrow>
     unat (in_use (adm_health s) relay) = fetching s
     \<and> (\<forall>g. adm_sem s g + fetching_by curated g s = cap)
     \<and> score_in_range rnd (health_view (adm_health s) relay)"

lemma length_filter_update:
  "i < length xs \<Longrightarrow> length (filter Q (xs[i := x])) + (if Q (xs ! i) then 1 else 0)
    = length (filter Q xs) + (if Q x then 1 else 0)"
proof (induction xs arbitrary: i)
  case (Cons y ys)
  then show ?case by (cases i) fastforce+
qed simp

text \<open>A task that enters its fetch, one that leaves it, and one that does neither.\<close>

lemma fetching_enters:
  assumes "i < length (adm_tasks s)" "adm_tasks s ! i = (c, Admitted)"
    and "adm_tasks s' = (adm_tasks s)[i := (c, Fetching)]"
  shows "fetching s' = Suc (fetching s)"
    "fetching_by cu g s' = fetching_by cu g s + (if sem_of cu c = g then 1 else 0)"
  using length_filter_update [OF assms(1), of "\<lambda>t. snd t = Fetching" "(c, Fetching)"]
    length_filter_update [OF assms(1), of "\<lambda>t. snd t = Fetching \<and> sem_of cu (fst t) = g" "(c, Fetching)"] assms(2,3)
  by (simp_all add: fetching_def fetching_by_def)

lemma fetching_leaves:
  assumes "i < length (adm_tasks s)" "adm_tasks s ! i = (c, Fetching)"
    and "adm_tasks s' = (adm_tasks s)[i := (c, Finished)]"
  shows "Suc (fetching s') = fetching s"
    "fetching_by cu g s' + (if sem_of cu c = g then 1 else 0) = fetching_by cu g s"
  using length_filter_update [OF assms(1), of "\<lambda>t. snd t = Fetching" "(c, Finished)"]
    length_filter_update [OF assms(1), of "\<lambda>t. snd t = Fetching \<and> sem_of cu (fst t) = g" "(c, Finished)"] assms(2,3)
  by (simp_all add: fetching_def fetching_by_def)

lemma fetching_passes:
  assumes "i < length (adm_tasks s)" "adm_tasks s ! i = (c, Waiting)"
    and "adm_tasks s' = (adm_tasks s)[i := (c, Admitted)]"
  shows "fetching s' = fetching s" "fetching_by cu g s' = fetching_by cu g s"
  using length_filter_update [OF assms(1), of "\<lambda>t. snd t = Fetching" "(c, Admitted)"]
    length_filter_update [OF assms(1), of "\<lambda>t. snd t = Fetching \<and> sem_of cu (fst t) = g" "(c, Admitted)"] assms(2,3)
  by (simp_all add: fetching_def fetching_by_def)

lemma fetching_split: "fetching s = fetching_by cu Curated_Sem s + fetching_by cu Fallback_Sem s"
proof -
  have "length (filter (\<lambda>t. snd t = Fetching) ts)
      = length (filter (\<lambda>t. snd t = Fetching \<and> sem_of cu (fst t) = Curated_Sem) ts)
        + length (filter (\<lambda>t. snd t = Fetching \<and> sem_of cu (fst t) = Fallback_Sem) ts)" for ts
    by (induction ts) (auto, (metis semaphore.exhaust)+)
  then show ?thesis by (simp add: fetching_def fetching_by_def)
qed

lemma in_use_foreign:
  "foreign relay a k \<Longrightarrow> in_use (health_step rnd a k H) relay = in_use H relay"
  by (cases a) (auto simp: foreign_def health_views)

lemma score_in_range_foreign:
  assumes "ieee rnd" and "score_in_range rnd (health_view H relay)"
  shows "score_in_range rnd (health_view (health_step rnd a k H) relay)"
  using assms score_in_range_step health.isolated [of relay k rnd a H] by (cases "k = relay") auto

lemma admit_inv_start:
  assumes "0 < alpha" "alpha \<le> 1" "rnd alpha = alpha"
  shows "admit_inv rnd relay curated cap (admit_start cs cap alpha)"
proof -
  have "filter (\<lambda>t. snd t = Fetching) (map (\<lambda>c. (c, Waiting)) cs) = []"
    "filter (\<lambda>t. snd t = Fetching \<and> sem_of curated (fst t) = g) (map (\<lambda>c. (c, Waiting)) cs) = []" for g
    by (induction cs) simp_all
  then show ?thesis using assms
    by (simp add: admit_inv_def admit_start_def fetching_def fetching_by_def health_new_def in_use_def
        score_in_range_def health_view_def score_def)
qed

text \<open>Each semaphore has \<open>cap\<close> permits, so a relay with both can be fetched from \<open>2 * cap\<close> times.\<close>

lemma admit_inv_fetching: "admit_inv rnd relay curated cap s \<Longrightarrow> fetching s \<le> 2 * cap"
  unfolding admit_inv_def fetching_split [of s curated] by (metis add_mono le_add2 mult_2)

lemma admit_inv_step:
  assumes r: "ieee rnd" and c: "cap < 2 ^ 31" and inv: "admit_inv rnd relay curated cap s"
    and st: "admit_step rnd relay curated cap s s'"
  shows "admit_inv rnd relay curated cap s'"
  using st
proof cases
  case (pass_gate i k)
  then show ?thesis using inv fetching_passes [OF pass_gate(2,3), of s'] by (simp add: admit_inv_def)
next
  case (take_permit i k g)
  have f: "fetching s' = Suc (fetching s)"
      "\<And>h. fetching_by curated h s' = fetching_by curated h s + (if g = h then 1 else 0)"
    using fetching_enters [OF take_permit(2,3), of s'] take_permit(1,4) by simp_all
  have "adm_sem s' h = adm_sem s h - (if g = h then 1 else 0)" for h using take_permit(1) by simp
  moreover have "adm_sem s h + fetching_by curated h s = cap" for h using inv by (simp add: admit_inv_def)
  ultimately have "adm_sem s' h + fetching_by curated h s' = cap" for h
    using take_permit(5) f(2) [of h] by (cases "g = h") (fastforce, fastforce)
  moreover from this have "fetching s' \<le> 2 * cap"
    unfolding fetching_split [of s' curated] by (metis add_mono le_add2 mult_2)
  then have "unat (in_use (adm_health s) relay) + 1 < 2 ^ 32" using inv c f(1) by (simp add: admit_inv_def)
  then have "unat (saturating_add (in_use (adm_health s) relay) 1)
      = unat (in_use (adm_health s) relay) + 1" by (simp add: unat_saturating_add)
  ultimately show ?thesis using take_permit(1) inv f(1)
    by (simp add: admit_inv_def view_incr health_view_def score_in_range_def)
next
  case (finish i k g)
  have f: "Suc (fetching s') = fetching s"
      "\<And>h. fetching_by curated h s' + (if g = h then 1 else 0) = fetching_by curated h s"
    using fetching_leaves [OF finish(2,3), of s'] finish(1,4) by simp_all
  have "adm_sem s' h = adm_sem s h + (if g = h then 1 else 0)" for h using finish(1) by simp
  moreover have "adm_sem s h + fetching_by curated h s = cap" for h using inv by (simp add: admit_inv_def)
  ultimately have "adm_sem s' h + fetching_by curated h s' = cap" for h using f(2) [of h] by (metis add.assoc add.commute)
  moreover have "unat (in_use (adm_health s') relay) = fetching s'"
    using inv finish(1) f(1)
    by (simp add: admit_inv_def view_decr unat_saturating_sub)
  ultimately show ?thesis using finish(1) inv
    by (simp add: admit_inv_def view_decr health_view_def score_in_range_def)
next
  case (report a k)
  then show ?thesis using inv score_in_range_foreign [OF r] in_use_foreign
    by (auto simp: admit_inv_def fetching_def fetching_by_def)
qed

lemma admit_reach_inv:
  assumes "ieee rnd" and "0 < alpha" "alpha \<le> 1" "rnd alpha = alpha" and "cap < 2 ^ 31"
    and "admit_reach rnd relay curated cap cs alpha s"
  shows "admit_inv rnd relay curated cap s"
  using assms(6)
proof (induction rule: rtranclp_induct)
  case base
  show ?case by (rule admit_inv_start) (fact assms(2-4))+
next
  case (step s s')
  show ?case by (rule admit_inv_step [OF assms(1,5) step(3,2)])
qed

text \<open>The tasks stay the ones that came.\<close>

lemma admit_step_closures:
  "admit_step rnd relay curated cap s s' \<Longrightarrow> map fst (adm_tasks s') = map fst (adm_tasks s)"
  by (induction rule: admit_step.induct) (auto simp: map_update intro!: list_update_same_conv [THEN iffD2])

lemma admit_reach_closures:
  "admit_reach rnd relay curated cap cs alpha s \<Longrightarrow> map fst (adm_tasks s) = cs"
  by (induction rule: rtranclp_induct) (simp_all add: admit_start_def o_def admit_step_closures)

section \<open>Progress\<close>

text \<open>How many steps of their own the tasks still have to take.\<close>

fun phase_left :: "phase \<Rightarrow> nat" where
  "phase_left Waiting = 3" | "phase_left Admitted = 2" | "phase_left Fetching = 1"
| "phase_left Finished = 0"

definition work_left :: "admission \<Rightarrow> nat" where
  "work_left s = sum_list (map (\<lambda>t. phase_left (snd t)) (adm_tasks s))"

lemma work_left_update:
  "i < length ts \<Longrightarrow> sum_list (map (\<lambda>t. phase_left (snd t)) (ts[i := t])) + phase_left (snd (ts ! i))
    = sum_list (map (\<lambda>t. phase_left (snd t)) ts) + phase_left (snd t)"
proof (induction ts arbitrary: i)
  case (Cons q ts)
  then show ?case by (cases i) fastforce+
qed simp

text \<open>Some task can always go on: whoever waits, waits for one that can finish.\<close>

lemma admit_progress:
  assumes r: "ieee rnd" and c: "0 < cap" "cap < 2 ^ 31" and inv: "admit_inv rnd relay curated cap s"
    and left: "work_left s \<noteq> 0"
  shows "\<exists>s'. admit_step rnd relay curated cap s s' \<and> work_left s' < work_left s"
proof -
  obtain i where i: "i < length (adm_tasks s)" "phase_left (snd (adm_tasks s ! i)) \<noteq> 0"
    using left by (auto simp: work_left_def sum_list_eq_0_iff in_set_conv_nth)
  obtain k p where kp: "adm_tasks s ! i = (k, p)" by fastforce
  show ?thesis
  proof (cases "\<exists>j < length (adm_tasks s). snd (adm_tasks s ! j) = Fetching")
    case True
    then obtain j q where j: "j < length (adm_tasks s)" "adm_tasks s ! j = (q, Fetching)" by (metis prod.collapse)
    then show ?thesis
      using admit_step.finish [OF j refl] work_left_update [OF j(1), of "(q, Finished)"]
      by (fastforce simp: work_left_def)
  next
    case False
    then have f0: "fetching s = 0"
      unfolding fetching_def length_0_conv filter_empty_conv by (metis in_set_conv_nth)
    then have sem: "0 < adm_sem s g" and use0: "in_use (adm_health s) relay = 0" for g
      using inv c fetching_split [of s curated] by (cases g; auto simp: admit_inv_def unat_eq_zero)+
    have sc: "0 \<le> score (adm_health s) relay" "score (adm_health s) relay \<le> 1"
      using inv by (auto simp: admit_inv_def score_in_range_def health_view_def)
    have "permits rnd (adm_health s) relay cap \<in> {1..max 1 cap}"
      using permits_bounds [OF r _ sc, of cap] c by simp
    then have "0 < permits rnd (adm_health s) relay cap" "permits rnd (adm_health s) relay cap < 2 ^ 32"
      using c by auto
    then have gate: "gate_open rnd (adm_health s) relay cap"
      by (simp add: gate_open_def use0 word_less_nat_alt unat_of_nat take_bit_nat_eq_self)
    have "p \<noteq> Fetching" "p \<noteq> Finished" using False i kp by auto
    then consider "p = Waiting" | "p = Admitted" by (cases p) auto
    then show ?thesis
    proof cases
      case 1
      then show ?thesis
        using admit_step.pass_gate [OF i(1) kp [unfolded 1] gate] work_left_update [OF i(1), of "(k, Admitted)"] kp
        by (fastforce simp: work_left_def)
    next
      case 2
      then show ?thesis
        using admit_step.take_permit [OF i(1) kp [unfolded 2] refl sem] work_left_update [OF i(1), of "(k, Fetching)"] kp
        by (fastforce simp: work_left_def)
    qed
  qed
qed

section \<open>Properties\<close>

text \<open>
  C38. The ceiling holds per semaphore: in every interleaving, with health reports and other
  relays' traffic in between, the registry's in-use count is exactly the number of fetches in
  flight to the relay, of all closures together; no semaphore has more than the configured
  concurrency of them and no permit leaks. So the relay has at most that many, unless it is a
  curated one that is also asked as somebody's write relay: such a relay has two semaphores,
  and at most twice as many.
\<close>

theorem admission_ceiling:
  assumes "ieee rnd" and "0 < alpha" "alpha \<le> 1" "rnd alpha = alpha" and "cap < 2 ^ 31"
    and "admit_reach rnd relay curated cap cs alpha s"
  shows "unat (in_use (adm_health s) relay) = length (filter (\<lambda>t. snd t = Fetching) (adm_tasks s))
    \<and> (\<forall>g. adm_sem s g + length (filter (\<lambda>t. snd t = Fetching \<and> sem_of curated (fst t) = g) (adm_tasks s)) = cap)
    \<and> unat (in_use (adm_health s) relay) \<le> 2 * cap
    \<and> (curated \<and> Write_Relay_Fetch \<notin> set cs \<longrightarrow> unat (in_use (adm_health s) relay) \<le> cap)
    \<and> (\<not> curated \<and> Fan_Out \<notin> set cs \<longrightarrow> unat (in_use (adm_health s) relay) \<le> cap)"
proof -
  note inv = admit_reach_inv [OF assms]
  have one: "fetching s \<le> cap" if g: "\<And>c. c \<in> set cs \<Longrightarrow> sem_of curated c = g" for g
  proof -
    have "\<forall>t \<in> set (adm_tasks s). sem_of curated (fst t) = g"
      using g admit_reach_closures [OF assms(6)] by force
    then have "fetching_by curated g s = fetching s"
      unfolding fetching_def fetching_by_def by (metis (mono_tags, lifting) filter_cong)
    then show ?thesis using inv unfolding admit_inv_def by (metis le_add2)
  qed
  have "sem_of curated c = Curated_Sem" if "curated" "c \<noteq> Write_Relay_Fetch" for c
    using that by (cases c) simp_all
  then have "fetching s \<le> cap" if "curated \<and> Write_Relay_Fetch \<notin> set cs"
    using that one [of Curated_Sem] by metis
  moreover have "sem_of curated c = Fallback_Sem" if "\<not> curated" "c \<noteq> Fan_Out" for c
    using that by (cases c) simp_all
  then have "fetching s \<le> cap" if "\<not> curated \<and> Fan_Out \<notin> set cs"
    using that one [of Fallback_Sem] by metis
  ultimately show ?thesis using inv admit_inv_fetching [OF inv] by (simp add: admit_inv_def fetching_def fetching_by_def)
qed

text \<open>A relay of capacity 2 that two tasks of the fan-out want: one fetches, one has passed the gate.\<close>

abbreviation demo_at_gate :: "(closure \<times> phase) list \<Rightarrow> (semaphore \<Rightarrow> nat) \<Rightarrow> health \<Rightarrow> admission" where
  "demo_at_gate ts sems H \<equiv> \<lparr>adm_tasks = ts, adm_sem = sems, adm_health = H\<rparr>"

lemma demo_permits:
  "score H [2] = 0 \<Longrightarrow> permits demo_rnd H [2] cap = 1"
  "score H [2] = 1 \<Longrightarrow> permits demo_rnd H [2] 1 = 1"
  "score H [2] = 1 \<Longrightarrow> permits demo_rnd H [2] 2 = 2"
  by (simp_all add: permits_def demo_rnd_def round_away_def as_usize_def)

lemma demo_gate:
  assumes "in_use H [2] = 0" and "permits demo_rnd H [2] cap \<in> {1, 2}"
  shows "gate_open demo_rnd H [2] cap"
  using assms by (auto simp: gate_open_def)

lemma demo_fresh: "in_use (health_new 1) [2] = 0" "score (health_new 1) [2] = 1"
  by (simp_all add: health_new_def in_use_def score_def)

lemma demo_start: "admit_start [c, c'] cap 1 = demo_at_gate [(c, Waiting), (c', Waiting)] (\<lambda>_. cap) (health_new 1)"
  by (simp add: admit_start_def)

text \<open>Two tasks that see the gate open pass it one after the other.\<close>

lemma demo_both_pass:
  assumes "gate_open demo_rnd H [2] cap"
  shows "(admit_step demo_rnd [2] curated cap)\<^sup>*\<^sup>* (demo_at_gate [(c, Waiting), (c', Waiting)] sems H)
    (demo_at_gate [(c, Admitted), (c', Admitted)] sems H)"
proof -
  have "admit_step demo_rnd [2] curated cap (demo_at_gate [(c, Waiting), (c', Waiting)] sems H)
      (demo_at_gate [(c, Admitted), (c', Waiting)] sems H)"
    using admit_step.pass_gate [of 0 "demo_at_gate [(c, Waiting), (c', Waiting)] sems H" c demo_rnd "[2]" cap curated] assms
    by simp
  moreover have "admit_step demo_rnd [2] curated cap (demo_at_gate [(c, Admitted), (c', Waiting)] sems H)
      (demo_at_gate [(c, Admitted), (c', Admitted)] sems H)"
    using admit_step.pass_gate [of 1 "demo_at_gate [(c, Admitted), (c', Waiting)] sems H" c' demo_rnd "[2]" cap curated] assms
    by simp
  ultimately show ?thesis by (meson rtranclp.rtrancl_into_rtrancl rtranclp.rtrancl_refl)
qed

lemma demo_enters:
  assumes "0 < sems (sem_of curated c)"
  shows "admit_step demo_rnd [2] curated cap (demo_at_gate [(c, Admitted), t] sems H)
    (demo_at_gate [(c, Fetching), t] (sems(sem_of curated c := sems (sem_of curated c) - 1)) (incr_in_use [2] H))"
    "admit_step demo_rnd [2] curated cap (demo_at_gate [t, (c, Admitted)] sems H)
    (demo_at_gate [t, (c, Fetching)] (sems(sem_of curated c := sems (sem_of curated c) - 1)) (incr_in_use [2] H))"
  using admit_step.take_permit [of 0 "demo_at_gate [(c, Admitted), t] sems H" c _ curated demo_rnd "[2]" cap]
    admit_step.take_permit [of 1 "demo_at_gate [t, (c, Admitted)] sems H" c _ curated demo_rnd "[2]" cap] assms
  by simp_all

lemma demo_reach:
  "admit_reach demo_rnd [2] True 2 [Fan_Out, Fan_Out] 1
    (demo_at_gate [(Fan_Out, Fetching), (Fan_Out, Admitted)] ((\<lambda>_. 2)(Curated_Sem := 1)) (incr_in_use [2] (health_new 1)))"
  unfolding demo_start
  using demo_both_pass [OF demo_gate, of "health_new 1" 2 True Fan_Out Fan_Out "\<lambda>_. 2"] demo_fresh demo_permits(3)
    demo_enters(1) [of "\<lambda>_. 2" True Fan_Out 2 "(Fan_Out, Admitted)" "health_new 1"]
  by (auto intro: rtranclp.rtrancl_into_rtrancl)

theorem admission_ceiling_witness:
  "\<exists>s. admit_reach demo_rnd [2] True 2 [Fan_Out, Fan_Out] 1 s \<and> unat (in_use (adm_health s) [2]) = 1"
proof -
  have a: "demo_rnd 1 = 1" by (simp add: demo_rnd_def)
  show ?thesis
    using admission_ceiling [OF ieee_demo _ _ a _ demo_reach] demo_reach by fastforce
qed

text \<open>From every state with the invariant, the tasks can drain.\<close>

lemma admission_drain:
  assumes "ieee rnd" and "0 < cap" "cap < 2 ^ 31" and "admit_inv rnd relay curated cap s"
  shows "\<exists>s'. (admit_step rnd relay curated cap)\<^sup>*\<^sup>* s s' \<and> work_left s' = 0"
  using assms(4)
proof (induction "work_left s" arbitrary: s rule: less_induct)
  case less
  show ?case
  proof (cases "work_left s = 0")
    case False
    then obtain s1 where s1: "admit_step rnd relay curated cap s s1" "work_left s1 < work_left s"
      using admit_progress [OF assms(1-3) less.prems] by blast
    have "admit_inv rnd relay curated cap s1"
      by (rule admit_inv_step [OF assms(1,3) less.prems s1(1)])
    then show ?thesis using less.hyps [OF s1(2)] s1(1) by (meson converse_rtranclp_into_rtranclp)
  qed blast
qed

text \<open>
  The gate never wedges: from every reachable state in which some task is not done,
  however degraded the relay, the tasks alone can all still run to completion; a waiting task
  is never held up by one that cannot finish.
\<close>

theorem admission_no_deadlock:
  assumes "ieee rnd" and "0 < alpha" "alpha \<le> 1" "rnd alpha = alpha" and "0 < cap" "cap < 2 ^ 31"
    and "admit_reach rnd relay curated cap cs alpha s"
  shows "\<exists>s'. (admit_step rnd relay curated cap)\<^sup>*\<^sup>* s s' \<and> (\<forall>t \<in> set (adm_tasks s'). snd t = Finished)"
proof -
  have "admit_inv rnd relay curated cap s" by (rule admit_reach_inv [OF assms(1-4,6,7)])
  then obtain s' where s': "(admit_step rnd relay curated cap)\<^sup>*\<^sup>* s s'" "work_left s' = 0"
    using admission_drain [OF assms(1,5,6)] by blast
  have "snd t = Finished" if "t \<in> set (adm_tasks s')" for t
  proof -
    have "phase_left (snd t) = 0" using that s'(2) by (auto simp: work_left_def sum_list_eq_0_iff)
    then show ?thesis by (cases "snd t") simp_all
  qed
  with s'(1) show ?thesis by blast
qed

theorem admission_no_deadlock_witness:
  "\<exists>s s'. admit_reach demo_rnd [2] True 2 [Fan_Out, Fan_Out] 1 s \<and> (admit_step demo_rnd [2] True 2)\<^sup>*\<^sup>* s s'
    \<and> (\<forall>t \<in> set (adm_tasks s'). snd t = Finished)"
proof -
  have a: "demo_rnd 1 = 1" by (simp add: demo_rnd_def)
  show ?thesis using admission_no_deadlock [OF ieee_demo _ _ a _ _ demo_reach] demo_reach by auto
qed

text \<open>
  The health-scaled limit is not a limit: the gate reads the in-use count before the task
  counts itself in, so two tasks can both pass it with room for one. A relay whose score has
  dropped to 0, and whose permits are 1, can be fetched from twice at the same time, even
  though both tasks pass the gate after the drop.
\<close>

theorem admission_overshoot:
  "\<exists>s s'. admit_reach demo_rnd [2] True 2 [Fan_Out, Fan_Out] 1 s \<and> (\<forall>t \<in> set (adm_tasks s). snd t = Waiting)
    \<and> permits demo_rnd (adm_health s) [2] 2 = 1
    \<and> (admit_step demo_rnd [2] True 2)\<^sup>*\<^sup>* s s' \<and> fetching s' = 2"
proof -
  let ?H = "record_timeout demo_rnd [2] (health_new 1)"
  let ?w = "[(Fan_Out, Waiting), (Fan_Out, Waiting)]" and ?sem = "\<lambda>_ :: semaphore. 2 :: nat"
  let ?s' = "demo_at_gate [(Fan_Out, Fetching), (Fan_Out, Fetching)] (?sem(Curated_Sem := 0)) (incr_in_use [2] (incr_in_use [2] ?H))"
  have sc: "score ?H [2] = 0" "in_use ?H [2] = 0"
    using demo_fresh(1) by (simp_all add: health_views ewma_def demo_rnd_def) (simp add: health_new_def)
  have p: "permits demo_rnd ?H [2] 2 = 1" by (rule demo_permits(1) [OF sc(1)])
  have r: "admit_step demo_rnd [2] True 2 (admit_start [Fan_Out, Fan_Out] 2 1) (demo_at_gate ?w ?sem ?H)"
    using admit_step.report [of "[2]" Timeout "[2]" demo_rnd True 2 "admit_start [Fan_Out, Fan_Out] 2 1"]
    by (simp add: foreign_def demo_start)
  have "(admit_step demo_rnd [2] True 2)\<^sup>*\<^sup>* (demo_at_gate ?w ?sem ?H) ?s'"
    using demo_both_pass [OF demo_gate, of ?H 2 True Fan_Out Fan_Out ?sem] sc p
      demo_enters(1) [of ?sem True Fan_Out 2 "(Fan_Out, Admitted)" ?H]
      demo_enters(2) [of "?sem(Curated_Sem := 1)" True Fan_Out 2 "(Fan_Out, Fetching)" "incr_in_use [2] ?H"]
    by (auto intro: rtranclp.rtrancl_into_rtrancl)
  then show ?thesis using r p by (intro exI [of _ "demo_at_gate ?w ?sem ?H"] exI [of _ ?s']) (auto simp: fetching_def)
qed

text \<open>
  Nor is the configured concurrency one for a curated relay that some author names as a write
  relay: the fallback takes its permit from the other map. With a concurrency of one, the
  fan-out and a fallback fetch from the same relay at the same time, and the in-use count of
  the relay, which the gauge exports, is two.
\<close>

theorem admission_two_semaphores:
  "\<exists>s. admit_reach demo_rnd [2] True 1 [Fan_Out, Write_Relay_Fetch] 1 s \<and> fetching s = 2
    \<and> in_use (adm_health s) [2] = 2"
proof -
  let ?sem = "\<lambda>_ :: semaphore. 1 :: nat" and ?H = "health_new 1"
  let ?s = "demo_at_gate [(Fan_Out, Fetching), (Write_Relay_Fetch, Fetching)] (\<lambda>_. 0) (incr_in_use [2] (incr_in_use [2] ?H))"
  have z: "?sem(Curated_Sem := 0, Fallback_Sem := 0) = (\<lambda>_. 0)"
  proof
    show "(?sem(Curated_Sem := 0, Fallback_Sem := 0)) g = 0" for g by (cases g) simp_all
  qed
  have "admit_reach demo_rnd [2] True 1 [Fan_Out, Write_Relay_Fetch] 1 ?s"
    unfolding demo_start
    using demo_both_pass [OF demo_gate, of ?H 1 True Fan_Out Write_Relay_Fetch ?sem] demo_fresh demo_permits(2)
      demo_enters(1) [of ?sem True Fan_Out 1 "(Write_Relay_Fetch, Admitted)" ?H]
      demo_enters(2) [of "?sem(Curated_Sem := 0)" True Write_Relay_Fetch 1 "(Fan_Out, Fetching)" "incr_in_use [2] ?H"] z
    by (auto intro: rtranclp.rtrancl_into_rtrancl)
  then show ?thesis using demo_fresh(1)
    by (intro exI [of _ ?s]) (simp add: fetching_def health_views saturating_add_def)
qed

end
