(* ===== verification/Errors.thy ===== *)
theory Errors imports Prelude begin

text \<open>
  The typed errors of \<open>src/error.rs\<close>, one datatype per module boundary, and the result
  type: a fallible operation returns \<open>Inl\<close> its error or \<open>Inr\<close> its value. The payload of
  \<open>RelayError::Client\<close> is the SDK's opaque error, kept as its message; of \<open>sqlx::Error\<close>
  the variants the crate builds or can receive are told apart.
\<close>

datatype sqlx_error =
    Sqlx_Io
  | Sqlx_RowNotFound
  | Sqlx_Protocol ustring
  | Sqlx_Database string

datatype store_error =
    Sqlx sqlx_error
  | Migrate ustring
  | InvalidPubkey nat

datatype relay_error =
    Client ustring
  | RelayNotFound ustring
  | Nip11Fetch ustring ustring
  | FetchTimeout ustring

datatype ingest_error =
    InvalidSignature
  | UnsolicitedEvent "16 word" "16 word"
  | FutureDated
  | OversizedFollowList nat

text \<open>\<open>format!("{n}")\<close> on an unsigned integer: its decimal digits.\<close>

fun dec :: "nat \<Rightarrow> ustring" where
  "dec n = (if n < 10 then [48 + n] else dec (n div 10) @ [48 + n mod 10])"

declare dec.simps [simp del]

lemma dec_nonempty [simp]: "dec n \<noteq> []"
  by (subst dec.simps) simp

end
