(* ===== verification/Nostr.thy ===== *)
theory Nostr imports Errors begin

text \<open>
  The nostr data the crawler handles and the interface of the code it calls but does not
  own. Keys and event ids are the 32 bytes of the wire format, read as a big-endian
  number, so that \<open>EventId\<close>'s byte order is the order of the words. Signature checks, tag
  parsing, byte conversions (nostr-sdk), calendar conversion (chrono), and the iteration order of the
  code's \<open>HashMap\<close> of authors are the fields of one record, an argument of the definitions
  that use them.
\<close>

section \<open>Events\<close>

type_synonym pubkey = "256 word"
type_synonym event_id = "256 word"
type_synonym timestamp = u64
type_synonym kind = "16 word"

text \<open>Instants of the database, in microseconds since the Unix epoch.\<close>

type_synonym datetime = int

definition ContactList :: kind where "ContactList = 3"
definition RelayList :: kind where "RelayList = 10002"

record event =
  ev_id :: event_id
  ev_pubkey :: pubkey
  ev_created_at :: timestamp
  ev_kind :: kind
  ev_tags :: "ustring list list"
  ev_content :: ustring
  ev_sig :: "byte list"

datatype relay_metadata = Read | Write

section \<open>What the crawler takes from outside\<close>

record env =
  sdk_verify :: "event \<Rightarrow> bool"                                \<comment> \<open>\<open>Event::verify().is_ok()\<close>\<close>
  sdk_public_keys :: "event \<Rightarrow> pubkey list"                    \<comment> \<open>\<open>event.tags.public_keys()\<close>\<close>
  sdk_relay_list :: "event \<Rightarrow> (ustring \<times> relay_metadata option) list"  \<comment> \<open>\<open>nip65::extract_relay_list\<close>\<close>
  sdk_url_str :: "ustring \<Rightarrow> ustring"                          \<comment> \<open>\<open>as_str_without_trailing_slash\<close>\<close>
  sdk_from_slice :: "byte list \<Rightarrow> pubkey option"               \<comment> \<open>\<open>PublicKey::from_slice(..).ok()\<close>\<close>
  sdk_to_bytes :: "pubkey \<Rightarrow> byte list"                        \<comment> \<open>\<open>PublicKey::to_bytes\<close>\<close>
  sdk_id_bytes :: "event_id \<Rightarrow> byte list"                      \<comment> \<open>\<open>EventId::as_bytes\<close>\<close>
  chrono_utc :: "int \<Rightarrow> datetime option"                       \<comment> \<open>\<open>Utc.timestamp_opt(secs, 0).single()\<close>\<close>
  group_order :: "(pubkey \<times> event list) list \<Rightarrow> (pubkey \<times> event list) list"

text \<open>
  The documented behaviour the crawler relies on: a key is 32 bytes and the two byte
  conversions are inverse to each other; event ids are told apart by their bytes; chrono
  converts every instant within 260000 years of the epoch; an iteration order is a
  permutation.
\<close>

definition keys_ok :: "env \<Rightarrow> bool" where
  "keys_ok E \<longleftrightarrow>
     inj (sdk_id_bytes E) \<and>
     (\<forall>pk. length (sdk_to_bytes E pk) = 32) \<and>
     (\<forall>pk. sdk_from_slice E (sdk_to_bytes E pk) = Some pk) \<and>
     (\<forall>bs pk. sdk_from_slice E bs = Some pk \<longrightarrow> sdk_to_bytes E pk = bs)"

definition chrono_ok :: "env \<Rightarrow> bool" where
  "chrono_ok E \<longleftrightarrow> (\<forall>s. \<bar>s\<bar> \<le> 8200000000000 \<longrightarrow> chrono_utc E s = Some (s * 1000000))"

definition orders_ok :: "env \<Rightarrow> bool" where
  "orders_ok E \<longleftrightarrow> (\<forall>gs. mset (group_order E gs) = mset gs)"

lemma keys_okD:
  assumes "keys_ok E"
  shows to_bytes_length [simp]: "length (sdk_to_bytes E pk) = 32"
    and from_to_bytes [simp]: "sdk_from_slice E (sdk_to_bytes E pk) = Some pk"
    and to_from_bytes: "sdk_from_slice E bs = Some pk \<Longrightarrow> sdk_to_bytes E pk = bs"
    and id_bytes_eq [simp]: "sdk_id_bytes E i = sdk_id_bytes E j \<longleftrightarrow> i = j"
  using assms by (auto simp: keys_ok_def inj_eq)

lemma inj_to_bytes: "keys_ok E \<Longrightarrow> sdk_to_bytes E a = sdk_to_bytes E b \<longleftrightarrow> a = b"
  by (metis from_to_bytes option.inject)

lemma orders_okD:
  assumes "orders_ok E"
  shows mset_group_order [simp]: "mset (group_order E gs) = mset gs"
  using assms by (auto simp: orders_ok_def)

lemma set_orders:
  assumes "orders_ok E"
  shows "set (group_order E gs) = set gs"
  using orders_okD [OF assms] by (metis set_mset_mset)

section \<open>A concrete environment\<close>

text \<open>
  An environment that has all this behaviour, for evaluating the model: big-endian keys,
  events that verify when their signature is not empty, kind-3 tags whose first element is
  ``p'' and whose second is the key's number, and the given order everywhere.
\<close>

fun be_bytes :: "nat \<Rightarrow> nat \<Rightarrow> byte list" where
  "be_bytes 0 n = []"
| "be_bytes (Suc k) n = be_bytes k (n div 256) @ [word_of_nat (n mod 256)]"

definition be_nat :: "byte list \<Rightarrow> nat" where
  "be_nat bs = foldl (\<lambda>acc b. acc * 256 + unat b) 0 bs"

lemma length_be_bytes [simp]: "length (be_bytes k n) = k"
  by (induction k arbitrary: n) auto

lemma be_nat_snoc [simp]: "be_nat (bs @ [b]) = be_nat bs * 256 + unat b"
  by (simp add: be_nat_def)

lemma be_nat_Nil [simp]: "be_nat [] = 0"
  by (simp add: be_nat_def)

lemma unat_byte_lt: "unat (b :: byte) < 256"
  using unsigned_less [of b] by simp

lemma be_nat_bytes: "be_nat (be_bytes k n) = n mod 256 ^ k"
proof (induction k arbitrary: n)
  case (Suc k)
  have "be_nat (be_bytes (Suc k) n) = (n div 256) mod 256 ^ k * 256 + n mod 256"
    using Suc [of "n div 256"] by (simp add: unat_of_nat)
  also have "\<dots> = n mod 256 ^ Suc k"
    by (simp add: mod_mult2_eq)
  finally show ?case .
qed simp

lemma be_bytes_nat: "be_bytes (length bs) (be_nat bs) = bs"
proof (induction bs rule: rev_induct)
  case (snoc b bs)
  have "(be_nat bs * 256 + unat b) div 256 = be_nat bs"
    using unat_byte_lt [of b] by simp
  moreover have "(be_nat bs * 256 + unat b) mod 256 = unat b"
    using unat_byte_lt [of b] by simp
  ultimately show ?case using snoc by simp
qed simp

lemma be_nat_less: "be_nat bs < 256 ^ length bs"
proof -
  have "be_nat bs = be_nat bs mod 256 ^ length bs"
    using be_nat_bytes [of "length bs" "be_nat bs"] by (simp add: be_bytes_nat)
  then show ?thesis by (metis mod_less_divisor zero_less_numeral zero_less_power)
qed

definition demo_env :: env where
  "demo_env = \<lparr>
     sdk_verify = (\<lambda>ev. ev_sig ev \<noteq> []),
     sdk_public_keys = (\<lambda>ev. map (\<lambda>t. word_of_nat (hd (t ! 1)))
        (filter (\<lambda>t. length t > 1 \<and> t ! 0 = [112] \<and> t ! 1 \<noteq> []) (ev_tags ev))),
     sdk_relay_list = (\<lambda>ev. map (\<lambda>t. (t ! 1, None))
        (filter (\<lambda>t. length t > 1 \<and> t ! 0 = [114]) (ev_tags ev))),
     sdk_url_str = (\<lambda>u. u),
     sdk_from_slice = (\<lambda>bs. if length bs = 32 then Some (word_of_nat (be_nat bs)) else None),
     sdk_to_bytes = (\<lambda>pk. be_bytes 32 (unat pk)),
     sdk_id_bytes = (\<lambda>i. be_bytes 32 (unat i)),
     chrono_utc = (\<lambda>s. if \<bar>s\<bar> \<le> 8200000000000 then Some (s * 1000000) else None),
     group_order = (\<lambda>gs. gs)\<rparr>"

lemma demo_keys_ok: "keys_ok demo_env"
proof -
  have [simp]: "be_nat (be_bytes 32 (unat pk)) = unat pk" for pk :: pubkey
  proof -
    have "unat pk < 2 ^ LENGTH(256)" by (rule unsigned_less)
    then show ?thesis by (simp add: be_nat_bytes)
  qed
  have "be_bytes 32 (unat (word_of_nat (be_nat bs) :: pubkey)) = bs" if "length bs = 32" for bs
    using that be_nat_less [of bs] be_bytes_nat [of bs]
    by (simp add: unat_of_nat)
  moreover have "inj (\<lambda>i :: event_id. be_bytes 32 (unat i))"
    by (rule inj_on_inverseI [where g = "\<lambda>bs. word_of_nat (be_nat bs)"]) simp
  ultimately show ?thesis by (simp add: keys_ok_def demo_env_def)
qed

lemma demo_chrono_ok: "chrono_ok demo_env"
  by (simp add: chrono_ok_def demo_env_def)

lemma demo_orders_ok: "orders_ok demo_env"
  by (simp add: orders_ok_def demo_env_def)

lemmas demo_ok = demo_keys_ok demo_chrono_ok demo_orders_ok

end
