(* ===== verification/Verify.thy ===== *)
theory Verify imports Nostr begin

text \<open>
  \<open>src/ingest/verify.rs\<close>: the gate every raw relay event passes first. \<open>accept\<close> returns
  the verdict and the counters; \<open>acceptable\<close> is the verdict alone, as a specification.
\<close>

definition accept :: "env \<Rightarrow> event \<Rightarrow> kind \<Rightarrow> pubkey set \<Rightarrow> metrics \<Rightarrow> bool \<times> metrics" where
  "accept E ev want_kind requested m =
     (if \<not> sdk_verify E ev then (False, count_by ''ingest_invalid_signature'' 1 m)
      else if ev_kind ev \<noteq> want_kind \<or> ev_pubkey ev \<notin> requested
           then (False, count_by ''ingest_unsolicited'' 1 m)
      else (True, m))"

definition acceptable :: "env \<Rightarrow> kind \<Rightarrow> pubkey set \<Rightarrow> event \<Rightarrow> bool" where
  "acceptable E want_kind requested ev \<longleftrightarrow>
     sdk_verify E ev \<and> ev_kind ev = want_kind \<and> ev_pubkey ev \<in> requested"

lemma fst_accept [simp]: "fst (accept E ev k req m) = acceptable E k req ev"
  by (simp add: accept_def acceptable_def)

lemma accept_True: "accept E ev k req m = (True, m') \<longleftrightarrow> acceptable E k req ev \<and> m' = m"
  by (auto simp: accept_def acceptable_def)

lemma accept_False: "accept E ev k req m = (False, m') \<Longrightarrow> \<not> acceptable E k req ev"
  by (auto simp: accept_def acceptable_def split: if_splits)

text \<open>A rejection is counted once, in the counter of its cause, and touches no other.\<close>

lemma accept_counters:
  "snd (accept E ev k req m) (n, l) = m (n, l)
     + (if n = ''ingest_invalid_signature'' \<and> l = [] \<and> \<not> sdk_verify E ev then 1 else 0)
     + (if n = ''ingest_unsolicited'' \<and> l = [] \<and> sdk_verify E ev \<and> \<not> acceptable E k req ev
        then 1 else 0)"
  by (auto simp: accept_def acceptable_def)

end
