(* ===== verification/Replaceable.thy ===== *)
theory Replaceable imports Verify begin

text \<open>
  \<open>src/ingest/replaceable.rs\<close>: the winner among an author's events. \<open>newest_wins\<close> is the
  contract of a replaceable-event resolver, a locale; \<open>pick_winner\<close> is the code's, and the
  interpretation shows it meets the contract.
\<close>

section \<open>The resolver of the code\<close>

definition winner_cmp :: "event \<Rightarrow> event \<Rightarrow> ordering" where
  "winner_cmp a b = then_with (cmp (ev_created_at a) (ev_created_at b)) (cmp (ev_id b) (ev_id a))"

definition pick_winner ::
  "event list \<Rightarrow> timestamp \<Rightarrow> u64 \<Rightarrow> metrics \<Rightarrow> event option \<times> metrics" where
  "pick_winner events now clamp m =
     (let cutoff = saturating_add now clamp;
          kept = filter (\<lambda>ev. \<not> ev_created_at ev > cutoff) events;
          dropped = length (filter (\<lambda>ev. ev_created_at ev > cutoff) events)
      in (max_by winner_cmp kept, count_by ''ingest_future_dated'' dropped m))"

section \<open>What a resolver promises\<close>

text \<open>
  \<open>elig\<close> says which events may win at all, \<open>le\<close> is the preference. The resolver returns
  nothing exactly when no event is eligible, and otherwise an eligible event of the list
  that every eligible event is below.
\<close>

locale newest_wins =
  fixes elig :: "'e \<Rightarrow> bool"
    and le :: "'e \<Rightarrow> 'e \<Rightarrow> bool"
    and pick :: "'e list \<Rightarrow> 'e option"
  assumes pick_None: "pick es = None \<longleftrightarrow> (\<forall>e \<in> set es. \<not> elig e)"
    and pick_in: "pick es = Some w \<Longrightarrow> w \<in> set es"
    and pick_elig: "pick es = Some w \<Longrightarrow> elig w"
    and pick_max: "pick es = Some w \<Longrightarrow> e \<in> set es \<Longrightarrow> elig e \<Longrightarrow> le e w"
begin

lemma pick_Some_iff:
  "(\<exists>w. pick es = Some w) \<longleftrightarrow> (\<exists>e \<in> set es. elig e)"
  using pick_None [of es] by (cases "pick es") auto

text \<open>
  Where the preference tells the listed events apart, the winner depends on the set of
  events alone: neither their order nor repetitions matter.
\<close>

lemma pick_cong_set:
  assumes "set es = set es'"
    and anti: "\<And>a b. a \<in> set es \<Longrightarrow> b \<in> set es \<Longrightarrow> le a b \<Longrightarrow> le b a \<Longrightarrow> a = b"
  shows "pick es = pick es'"
proof (cases "pick es")
  case None
  then show ?thesis using pick_None assms(1) by metis
next
  case (Some w)
  then obtain w' where w': "pick es' = Some w'"
    using pick_None assms(1) by (metis option.exhaust pick_elig pick_in)
  have "w = w'"
  proof (rule anti)
    show "w \<in> set es" "w' \<in> set es" using Some w' pick_in assms(1) by auto
    show "le w w'" using Some w' pick_max pick_in pick_elig assms(1) by metis
    show "le w' w" using Some w' pick_max pick_in pick_elig assms(1) by metis
  qed
  with Some w' show ?thesis by simp
qed

text \<open>Ineligible events are no obstacle: dropping them changes nothing.\<close>

lemma pick_filter_elig:
  assumes anti: "\<And>a b. a \<in> set es \<Longrightarrow> b \<in> set es \<Longrightarrow> le a b \<Longrightarrow> le b a \<Longrightarrow> a = b"
  shows "pick (filter elig es) = pick es"
proof (cases "pick es")
  case None
  then show ?thesis using pick_None [of es] pick_None [of "filter elig es"] by simp
next
  case (Some w)
  then obtain w' where w': "pick (filter elig es) = Some w'"
    using pick_None [of "filter elig es"] pick_in [OF Some] pick_elig [OF Some]
    by (cases "pick (filter elig es)") auto
  have "w = w'"
  proof (rule anti)
    show "w \<in> set es" "w' \<in> set es" using Some w' pick_in by force+
    show "le w w'" using Some w' pick_max [OF w'] pick_in pick_elig by auto
    show "le w' w" using Some w' pick_max [OF Some] pick_in [OF w'] pick_elig by auto
  qed
  with Some w' show ?thesis by simp
qed

end

section \<open>The code meets the contract\<close>

definition in_clamp :: "timestamp \<Rightarrow> u64 \<Rightarrow> event \<Rightarrow> bool" where
  "in_clamp now clamp ev \<longleftrightarrow> ev_created_at ev \<le> saturating_add now clamp"

definition older_eq :: "event \<Rightarrow> event \<Rightarrow> bool" where
  "older_eq a b \<longleftrightarrow> ev_created_at a < ev_created_at b
     \<or> ev_created_at a = ev_created_at b \<and> ev_id b \<le> ev_id a"

lemma winner_cmp_Greater: "winner_cmp a b = Greater \<longleftrightarrow> \<not> older_eq a b"
  by (auto simp: winner_cmp_def older_eq_def cmp_def then_with_def)

lemma older_eq_total: "older_eq a b \<or> older_eq b a"
  by (auto simp: older_eq_def)

lemma older_eq_trans: "older_eq a b \<Longrightarrow> older_eq b d \<Longrightarrow> older_eq a d"
  by (auto simp: older_eq_def)

lemma older_eq_antisym: "older_eq a b \<Longrightarrow> older_eq b a \<Longrightarrow> ev_id a = ev_id b"
  by (auto simp: older_eq_def)

lemma fst_pick_winner:
  "fst (pick_winner es now clamp m) = max_by winner_cmp (filter (in_clamp now clamp) es)"
proof -
  have "(\<lambda>ev. \<not> ev_created_at ev > saturating_add now clamp) = in_clamp now clamp"
    by (auto simp: in_clamp_def fun_eq_iff)
  then show ?thesis by (simp add: pick_winner_def Let_def)
qed

lemma snd_pick_winner:
  "snd (pick_winner es now clamp m)
     = count_by ''ingest_future_dated'' (length (filter (\<lambda>ev. \<not> in_clamp now clamp ev) es)) m"
  by (simp add: pick_winner_def Let_def in_clamp_def not_le)

interpretation winner: newest_wins "in_clamp now clamp" older_eq
    "\<lambda>es. fst (pick_winner es now clamp m)" for now clamp m
proof (unfold_locales, unfold fst_pick_winner)
  fix es :: "event list" and w e
  show "max_by winner_cmp (filter (in_clamp now clamp) es) = None
      \<longleftrightarrow> (\<forall>e \<in> set es. \<not> in_clamp now clamp e)"
    by (simp add: filter_empty_conv)
  assume w: "max_by winner_cmp (filter (in_clamp now clamp) es) = Some w"
  then show "w \<in> set es" "in_clamp now clamp w"
    using max_by_in [OF w] by auto
  assume "e \<in> set es" "in_clamp now clamp e"
  then show "older_eq e w"
    by (intro max_by_ge [OF winner_cmp_Greater _ _ w] older_eq_total)
       (auto intro: older_eq_trans)
qed

end
