(* ===== verification/Follow_List.thy ===== *)
theory Follow_List imports Replaceable begin

text \<open>
  \<open>src/ingest/follow_list.rs\<close>: the followees of a winning kind-3 event. The loop keeps the
  set of keys already seen and the list built so far, as the code does.
\<close>

fun followee_loop :: "pubkey \<Rightarrow> pubkey list \<Rightarrow> pubkey set \<Rightarrow> pubkey list \<Rightarrow> pubkey list" where
  "followee_loop self [] seen acc = acc"
| "followee_loop self (pk # pks) seen acc =
     (if pk = self then followee_loop self pks seen acc
      else if pk \<in> seen then followee_loop self pks seen acc
      else followee_loop self pks (insert pk seen) (acc @ [pk]))"

definition followee_pubkeys ::
  "env \<Rightarrow> event \<Rightarrow> nat \<Rightarrow> metrics \<Rightarrow> pubkey list option \<times> metrics" where
  "followee_pubkeys E ev follow_cap m =
     (let followees = followee_loop (ev_pubkey ev) (sdk_public_keys E ev) {} []
      in if length followees > follow_cap
         then (None, count_by ''ingest_oversized_follow_list'' 1 m)
         else (Some followees, m))"

text \<open>What the loop computes: the keys of the event but its author, each once.\<close>

definition followees :: "env \<Rightarrow> event \<Rightarrow> pubkey set" where
  "followees E ev = set (sdk_public_keys E ev) - {ev_pubkey ev}"

lemma followee_loop_spec:
  assumes "set acc = seen" "distinct acc" "self \<notin> seen"
  shows "set (followee_loop self pks seen acc) = seen \<union> (set pks - {self})
    \<and> distinct (followee_loop self pks seen acc)"
  using assms
proof (induction self pks seen acc rule: followee_loop.induct)
  case (2 self pk pks seen acc)
  consider "pk = self" | "pk \<noteq> self" "pk \<in> seen" | "pk \<noteq> self" "pk \<notin> seen" by blast
  then show ?case by cases (use "2" in auto)
qed simp

lemma set_followee_loop [simp]:
  "set (followee_loop (ev_pubkey ev) (sdk_public_keys E ev) {} []) = followees E ev"
  and distinct_followee_loop [simp]:
  "distinct (followee_loop (ev_pubkey ev) (sdk_public_keys E ev) {} [])"
  using followee_loop_spec [of "[]" "{}" "ev_pubkey ev" "sdk_public_keys E ev"]
  by (auto simp: followees_def)

lemma length_followee_loop:
  "length (followee_loop (ev_pubkey ev) (sdk_public_keys E ev) {} []) = card (followees E ev)"
  using distinct_card [of "followee_loop (ev_pubkey ev) (sdk_public_keys E ev) {} []"] by simp

lemma followee_pubkeys_Some:
  "fst (followee_pubkeys E ev cap m) = Some fs \<longleftrightarrow>
     fs = followee_loop (ev_pubkey ev) (sdk_public_keys E ev) {} [] \<and> card (followees E ev) \<le> cap"
  by (auto simp: followee_pubkeys_def Let_def length_followee_loop)

lemma followee_pubkeys_None:
  "fst (followee_pubkeys E ev cap m) = None \<longleftrightarrow> cap < card (followees E ev)"
  by (auto simp: followee_pubkeys_def Let_def length_followee_loop)

lemma followee_pubkeys_m: "fst (followee_pubkeys E ev cap m) = fst (followee_pubkeys E ev cap m')"
  by (simp add: followee_pubkeys_def Let_def)

end
