(* ===== verification/Relay_List.thy ===== *)
theory Relay_List imports Follow_List begin

text \<open>
  \<open>src/ingest/relay_list.rs\<close> and the contract values of \<open>src/ingest/mod.rs\<close>: the marker
  mapping of a NIP-65 r-tag, the relay pairs of an event, and the resolution of a single
  author's relay list over the same gate as the follow lists. \<open>gate_dedup\<close> is that gate's
  verify-then-dedup loop, in the shape it has here: it returns the surviving candidates.
\<close>

section \<open>Contract values\<close>

record validated_follow_list =
  vfl_follower :: pubkey
  vfl_event_id :: event_id
  vfl_created_at :: datetime
  vfl_followees :: "pubkey list"

record validated_relay_list =
  vrl_pubkey :: pubkey
  vrl_event_id :: event_id
  vrl_created_at :: datetime
  vrl_relays :: "(ustring \<times> ustring) list"

text \<open>\<open>ts.as_secs() as i64\<close> reads the 64 bits as two's complement.\<close>

definition timestamp_to_datetime :: "env \<Rightarrow> timestamp \<Rightarrow> datetime" where
  "timestamp_to_datetime E ts =
     (case chrono_utc E (sint ts) of Some d \<Rightarrow> d | None \<Rightarrow> the (chrono_utc E 0))"

definition follow_list_from_event :: "env \<Rightarrow> event \<Rightarrow> pubkey list \<Rightarrow> validated_follow_list" where
  "follow_list_from_event E ev fs =
     \<lparr>vfl_follower = ev_pubkey ev, vfl_event_id = ev_id ev,
      vfl_created_at = timestamp_to_datetime E (ev_created_at ev), vfl_followees = fs\<rparr>"

section \<open>Relay pairs\<close>

fun marker_of :: "relay_metadata option \<Rightarrow> ustring" where
  "marker_of (Some Read) = lit ''read''"
| "marker_of (Some Write) = lit ''write''"
| "marker_of None = lit ''both''"

definition extract_relay_pairs :: "env \<Rightarrow> event \<Rightarrow> (ustring \<times> ustring) list" where
  "extract_relay_pairs E ev =
     map (\<lambda>(url, meta). (sdk_url_str E url, marker_of meta)) (sdk_relay_list E ev)"

definition relay_list_from_event :: "env \<Rightarrow> event \<Rightarrow> validated_relay_list" where
  "relay_list_from_event E ev =
     \<lparr>vrl_pubkey = ev_pubkey ev, vrl_event_id = ev_id ev,
      vrl_created_at = timestamp_to_datetime E (ev_created_at ev),
      vrl_relays = extract_relay_pairs E ev\<rparr>"

section \<open>One author's relay list\<close>

fun gate_dedup ::
  "env \<Rightarrow> kind \<Rightarrow> pubkey set \<Rightarrow> event list \<Rightarrow> event_id set \<Rightarrow> event list \<Rightarrow> metrics
   \<Rightarrow> event list \<times> metrics" where
  "gate_dedup E k req [] seen cands m = (cands, m)"
| "gate_dedup E k req (ev # evs) seen cands m =
     (case accept E ev k req m of
        (False, m1) \<Rightarrow> gate_dedup E k req evs seen cands m1
      | (True, m1) \<Rightarrow>
          if ev_id ev \<in> seen then gate_dedup E k req evs seen cands m1
          else gate_dedup E k req evs (insert (ev_id ev) seen) (cands @ [ev]) m1)"

definition resolve_relay_list ::
  "env \<Rightarrow> event list \<Rightarrow> pubkey \<Rightarrow> timestamp \<Rightarrow> u64 \<Rightarrow> metrics
   \<Rightarrow> validated_relay_list option \<times> metrics" where
  "resolve_relay_list E events author now clamp m =
     (let (cands, m1) = gate_dedup E RelayList {author} events {} [] m;
          (w, m2) = pick_winner cands now clamp m1
      in case w of None \<Rightarrow> (None, m2) | Some ev \<Rightarrow> (Some (relay_list_from_event E ev), m2))"

section \<open>What the gate lets through\<close>

text \<open>The accepted events, the first of each id: a specification of the loop.\<close>

fun first_by_id :: "event_id set \<Rightarrow> event list \<Rightarrow> event list" where
  "first_by_id seen [] = []"
| "first_by_id seen (ev # evs) =
     (if ev_id ev \<in> seen then first_by_id seen evs
      else ev # first_by_id (insert (ev_id ev) seen) evs)"

definition survivors :: "env \<Rightarrow> kind \<Rightarrow> pubkey set \<Rightarrow> event list \<Rightarrow> event list" where
  "survivors E k req events = first_by_id {} (filter (acceptable E k req) events)"

lemma fst_gate_dedup:
  "fst (gate_dedup E k req evs seen cands m)
     = cands @ first_by_id seen (filter (acceptable E k req) evs)"
proof (induction E k req evs seen cands m rule: gate_dedup.induct)
  case (2 E k req ev evs seen cands m)
  obtain b m1 where a: "accept E ev k req m = (b, m1)" by (cases "accept E ev k req m")
  then have b: "b = acceptable E k req ev" using fst_accept [of E ev k req m] by simp
  show ?case using "2" a b by (cases b) auto
qed simp

lemma set_first_by_id_subset: "set (first_by_id seen es) \<subseteq> set es"
  by (induction seen es rule: first_by_id.induct) auto

lemma first_by_id_ids: "ev_id ` set (first_by_id seen es) = ev_id ` set es - seen"
  by (induction seen es rule: first_by_id.induct) auto

lemma distinct_first_by_id: "distinct (map ev_id (first_by_id seen es))"
proof (induction seen es rule: first_by_id.induct)
  case (2 seen ev evs)
  then show ?case
    using first_by_id_ids [of "insert (ev_id ev) seen" evs] by auto
qed simp

text \<open>
  An event id is a hash of the event, so two verified events with one id are the same
  event. Where that holds, the survivors are all accepted events, each once.
\<close>

definition ids_unique :: "env \<Rightarrow> event list \<Rightarrow> bool" where
  "ids_unique E es \<longleftrightarrow> (\<forall>a \<in> set es. \<forall>b \<in> set es.
     sdk_verify E a \<and> sdk_verify E b \<and> ev_id a = ev_id b \<longrightarrow> a = b)"

lemma set_survivors_subset: "set (survivors E k req es) \<subseteq> {e \<in> set es. acceptable E k req e}"
  using set_first_by_id_subset [of "{}" "filter (acceptable E k req) es"]
  by (auto simp: survivors_def)

lemma set_survivors:
  assumes "ids_unique E es"
  shows "set (survivors E k req es) = {e \<in> set es. acceptable E k req e}"
proof (intro equalityI set_survivors_subset subsetI)
  fix e assume e: "e \<in> {e \<in> set es. acceptable E k req e}"
  then have "ev_id e \<in> ev_id ` set (survivors E k req es)"
    by (auto simp: survivors_def first_by_id_ids)
  then obtain e' where e': "e' \<in> set (survivors E k req es)" "ev_id e' = ev_id e" by auto
  then have "e' \<in> set es" "acceptable E k req e'"
    using set_survivors_subset [of E k req es] by auto
  with e e'(2) assms have "e' = e" by (auto simp: ids_unique_def acceptable_def)
  with e' show "e \<in> set (survivors E k req es)" by simp
qed

lemma survivors_filter: "survivors E k req (filter (acceptable E k req) es) = survivors E k req es"
  by (simp add: survivors_def)

lemma resolve_relay_list_eq:
  "fst (resolve_relay_list E es a now clamp m)
     = map_option (relay_list_from_event E)
         (max_by winner_cmp (filter (in_clamp now clamp) (survivors E RelayList {a} es)))"
proof -
  obtain cands m1 where g: "gate_dedup E RelayList {a} es {} [] m = (cands, m1)"
    by (cases "gate_dedup E RelayList {a} es {} [] m")
  then have c: "cands = survivors E RelayList {a} es"
    using fst_gate_dedup [of E RelayList "{a}" es "{}" "[]" m] by (simp add: survivors_def)
  obtain w m2 where p: "pick_winner cands now clamp m1 = (w, m2)"
    by (cases "pick_winner cands now clamp m1")
  then have "w = max_by winner_cmp (filter (in_clamp now clamp) cands)"
    using fst_pick_winner [of cands now clamp m1] by simp
  with c g p show ?thesis by (simp add: resolve_relay_list_def split: option.split)
qed

end
