(* ===== verification/Ingest.thy ===== *)
theory Ingest imports Relay_List begin

text \<open>
  \<open>ingest_events\<close> of \<open>src/ingest/mod.rs\<close>: the whole validation gate over a batch of raw
  events. \<open>ingest_gate\<close> is its first loop (verify, then dedup, then group by author),
  \<open>ingest_resolve\<close> its second (resolve, extract, emit), over the groups in the order the
  hash map yields them.
\<close>

section \<open>The gate\<close>

fun ingest_gate ::
  "env \<Rightarrow> kind \<Rightarrow> pubkey set \<Rightarrow> event list \<Rightarrow> event_id set \<Rightarrow> (pubkey \<times> event list) list
   \<Rightarrow> metrics \<Rightarrow> (pubkey \<times> event list) list \<times> metrics" where
  "ingest_gate E k req [] seen by_author m = (by_author, m)"
| "ingest_gate E k req (ev # evs) seen by_author m =
     (case accept E ev k req m of
        (False, m1) \<Rightarrow> ingest_gate E k req evs seen by_author m1
      | (True, m1) \<Rightarrow>
          if ev_id ev \<in> seen then ingest_gate E k req evs seen by_author m1
          else ingest_gate E k req evs (insert (ev_id ev) seen)
                 (push_group (ev_pubkey ev) ev by_author) m1)"

fun ingest_resolve ::
  "env \<Rightarrow> timestamp \<Rightarrow> u64 \<Rightarrow> nat \<Rightarrow> (pubkey \<times> event list) list \<Rightarrow> metrics
   \<Rightarrow> validated_follow_list list \<times> metrics" where
  "ingest_resolve E now clamp cap [] m = ([], m)"
| "ingest_resolve E now clamp cap ((_, grp) # gs) m =
     (case pick_winner grp now clamp m of
        (None, m1) \<Rightarrow> ingest_resolve E now clamp cap gs m1
      | (Some win, m1) \<Rightarrow>
          (case followee_pubkeys E win cap m1 of
             (None, m2) \<Rightarrow> ingest_resolve E now clamp cap gs m2
           | (Some fs, m2) \<Rightarrow>
               (let (out, m3) = ingest_resolve E now clamp cap gs m2
                in (follow_list_from_event E win fs # out, m3))))"

definition ingest_events ::
  "env \<Rightarrow> event list \<Rightarrow> kind \<Rightarrow> pubkey set \<Rightarrow> timestamp \<Rightarrow> u64 \<Rightarrow> nat \<Rightarrow> metrics
   \<Rightarrow> validated_follow_list list \<times> metrics" where
  "ingest_events E events want_kind requested now clamp cap m =
     (let (by_author, m1) = ingest_gate E want_kind requested events {} [] m
      in ingest_resolve E now clamp cap (group_order E by_author) m1)"

section \<open>What the two loops compute\<close>

lemma group_of_gate:
  "group_of (fst (ingest_gate E k req evs seen gs m)) a
     = group_of gs a @ filter (\<lambda>e. ev_pubkey e = a)
         (first_by_id seen (filter (acceptable E k req) evs))"
proof (induction E k req evs seen gs m rule: ingest_gate.induct)
  case (2 E k req ev evs seen gs m)
  obtain b m1 where a: "accept E ev k req m = (b, m1)" by (cases "accept E ev k req m")
  then have "b = acceptable E k req ev" using fst_accept [of E ev k req m] by simp
  then show ?case using "2" a by (cases b) auto
qed simp

lemma push_group_nonempty: "[] \<notin> snd ` set gs \<Longrightarrow> [] \<notin> snd ` set (push_group k v gs)"
  by (induction k v gs rule: push_group.induct) auto

lemma gate_distinct:
  "distinct (map fst gs) \<Longrightarrow> distinct (map fst (fst (ingest_gate E k req evs seen gs m)))"
proof (induction E k req evs seen gs m rule: ingest_gate.induct)
  case (2 E k req ev evs seen gs m)
  obtain b m1 where a: "accept E ev k req m = (b, m1)" by (cases "accept E ev k req m")
  show ?case using "2" a by (cases b) (simp_all add: distinct_push_group)
qed simp

lemma gate_nonempty:
  "[] \<notin> snd ` set gs \<Longrightarrow> [] \<notin> snd ` set (fst (ingest_gate E k req evs seen gs m))"
proof (induction E k req evs seen gs m rule: ingest_gate.induct)
  case (2 E k req ev evs seen gs m)
  obtain b m1 where a: "accept E ev k req m = (b, m1)" by (cases "accept E ev k req m")
  show ?case using "2" a by (cases b) (simp_all add: push_group_nonempty)
qed simp

lemma group_of_mem: "distinct (map fst gs) \<Longrightarrow> (a, es) \<in> set gs \<Longrightarrow> group_of gs a = es"
  by (simp add: group_of_def)

text \<open>The groups are the authors with a survivor, each with its survivors in order.\<close>

lemma gate_groups:
  "set (fst (ingest_gate E k req evs {} [] m))
     = {(a, es). es = filter (\<lambda>e. ev_pubkey e = a) (survivors E k req evs) \<and> es \<noteq> []}"
    (is "set ?gs = ?G")
proof -
  have d: "distinct (map fst ?gs)" by (rule gate_distinct) simp
  have ne: "[] \<notin> snd ` set ?gs" by (rule gate_nonempty) simp
  have g: "group_of ?gs a = filter (\<lambda>e. ev_pubkey e = a) (survivors E k req evs)" for a
    by (simp add: group_of_gate survivors_def)
  show ?thesis
  proof (intro equalityI subsetI)
    fix x assume "x \<in> set ?gs"
    then obtain a es where x: "x = (a, es)" "(a, es) \<in> set ?gs" by (metis surj_pair)
    then have "es = group_of ?gs a" "es \<noteq> []" using group_of_mem [OF d] ne by force+
    with x g show "x \<in> ?G" by simp
  next
    fix x assume "x \<in> ?G"
    then obtain a es where x: "x = (a, es)" "group_of ?gs a = es" "es \<noteq> []" using g by auto
    then have "map_of ?gs a = Some es" by (auto simp: group_of_def split: option.splits)
    with x show "x \<in> set ?gs" by (simp add: map_of_SomeD)
  qed
qed

text \<open>What one group yields, if anything.\<close>

definition resolve_group ::
  "env \<Rightarrow> timestamp \<Rightarrow> u64 \<Rightarrow> nat \<Rightarrow> event list \<Rightarrow> validated_follow_list option" where
  "resolve_group E now clamp cap es =
     (case max_by winner_cmp (filter (in_clamp now clamp) es) of
        None \<Rightarrow> None
      | Some w \<Rightarrow>
          if card (followees E w) \<le> cap
          then Some (follow_list_from_event E w
                 (followee_loop (ev_pubkey w) (sdk_public_keys E w) {} []))
          else None)"

lemma fst_ingest_resolve:
  "fst (ingest_resolve E now clamp cap gs m)
     = List.map_filter (resolve_group E now clamp cap \<circ> snd) gs"
proof (induction E now clamp cap gs m rule: ingest_resolve.induct)
  case (2 E now clamp cap a es gs m)
  obtain w m1 where w: "pick_winner es now clamp m = (w, m1)" by (cases "pick_winner es now clamp m")
  then have w': "w = max_by winner_cmp (filter (in_clamp now clamp) es)"
    using fst_pick_winner [of es now clamp m] by simp
  show ?case
  proof (cases w)
    case None
    then show ?thesis using "2" w w'
      by (simp add: resolve_group_def map_filter_simps)
  next
    case (Some win)
    obtain fs m2 where f: "followee_pubkeys E win cap m1 = (fs, m2)"
      by (cases "followee_pubkeys E win cap m1")
    show ?thesis
    proof (cases fs)
      case None
      with f have "cap < card (followees E win)"
        using followee_pubkeys_None [of E win cap m1] by simp
      with None Some f w w' "2" show ?thesis by (simp add: resolve_group_def map_filter_simps)
    next
      case (Some fl)
      with f have "fl = followee_loop (ev_pubkey win) (sdk_public_keys E win) {} []"
        "card (followees E win) \<le> cap"
        using followee_pubkeys_Some [of E win cap m1 fl] by auto
      moreover obtain out m3 where "ingest_resolve E now clamp cap gs m2 = (out, m3)"
        by (cases "ingest_resolve E now clamp cap gs m2")
      ultimately show ?thesis using Some \<open>w = Some win\<close> f w w' "2"
        by (simp add: resolve_group_def map_filter_simps)
    qed
  qed
qed (simp add: map_filter_simps)

lemma ordered_groups_distinct:
  assumes "orders_ok E"
  shows "distinct (map fst (group_order E (fst (ingest_gate E k req events {} [] m))))"
proof -
  have "distinct (map fst (fst (ingest_gate E k req events {} [] m)))"
    by (rule gate_distinct) simp
  moreover have "mset (map fst (group_order E gs)) = mset (map fst gs)" for gs
    using assms by simp
  ultimately show ?thesis by (metis mset_eq_imp_distinct_iff)
qed

text \<open>The output as a set: whatever some author's survivors resolve to.\<close>

lemma resolve_group_Nil [simp]: "resolve_group E now clamp cap [] = None"
  by (simp add: resolve_group_def)

lemma fst_ingest_events:
  "fst (ingest_events E events k req now clamp cap m)
     = List.map_filter (resolve_group E now clamp cap \<circ> snd)
         (group_order E (fst (ingest_gate E k req events {} [] m)))"
  by (simp add: ingest_events_def fst_ingest_resolve split: prod.split)

lemma set_ingest_events:
  assumes "orders_ok E"
  shows "v \<in> set (fst (ingest_events E events k req now clamp cap m)) \<longleftrightarrow>
    (\<exists>a. resolve_group E now clamp cap
       (filter (\<lambda>e. ev_pubkey e = a) (survivors E k req events)) = Some v)"
proof -
  have "v \<in> set (fst (ingest_events E events k req now clamp cap m)) \<longleftrightarrow>
    (\<exists>g \<in> set (fst (ingest_gate E k req events {} [] m)).
       resolve_group E now clamp cap (snd g) = Some v)"
    using set_orders(1) [OF assms] by (simp add: fst_ingest_events set_map_filter_iff)
  moreover have "es \<noteq> []" if "resolve_group E now clamp cap es = Some v" for es
    using that by (cases "es = []") simp_all
  ultimately show ?thesis by (simp add: gate_groups) blast
qed

lemma resolve_group_Some:
  "resolve_group E now clamp cap es = Some v \<longleftrightarrow>
     (\<exists>w. max_by winner_cmp (filter (in_clamp now clamp) es) = Some w
        \<and> card (followees E w) \<le> cap
        \<and> v = follow_list_from_event E w
            (followee_loop (ev_pubkey w) (sdk_public_keys E w) {} []))"
  by (auto simp: resolve_group_def split: option.splits)

lemma vfl_follower_of_group:
  assumes "resolve_group E now clamp cap (filter (\<lambda>e. ev_pubkey e = a) es) = Some v"
  shows "vfl_follower v = a"
  using assms max_by_in by (fastforce simp: resolve_group_Some follow_list_from_event_def)

text \<open>
  The winner of an author's survivors, told by the accepted events alone: newest within the
  clamp, lowest id among equals.
\<close>

definition newest_accepted ::
  "env \<Rightarrow> kind \<Rightarrow> pubkey set \<Rightarrow> timestamp \<Rightarrow> u64 \<Rightarrow> event list \<Rightarrow> event \<Rightarrow> bool" where
  "newest_accepted E k req now clamp events ev \<longleftrightarrow>
     ev \<in> set events \<and> acceptable E k req ev \<and> in_clamp now clamp ev \<and>
     (\<forall>ev' \<in> set events. acceptable E k req ev' \<and> in_clamp now clamp ev'
        \<and> ev_pubkey ev' = ev_pubkey ev \<longrightarrow> older_eq ev' ev)"

lemma survivor_winner:
  assumes "ids_unique E events"
  shows "max_by winner_cmp (filter (in_clamp now clamp)
      (filter (\<lambda>e. ev_pubkey e = a) (survivors E k req events))) = Some w
    \<longleftrightarrow> newest_accepted E k req now clamp events w \<and> ev_pubkey w = a" (is "?pick = _ \<longleftrightarrow> ?new")
proof -
  let ?es = "filter (\<lambda>e. ev_pubkey e = a) (survivors E k req events)"
  have es: "set ?es = {e \<in> set events. acceptable E k req e \<and> ev_pubkey e = a}"
    using set_survivors [OF assms, of k req] by auto
  note pick = fst_pick_winner [of ?es now clamp undefined]
  show ?thesis
  proof
    assume "?pick = Some w"
    then have p: "fst (pick_winner ?es now clamp undefined) = Some w" using pick by simp
    show ?new
      using winner.pick_in [OF p] winner.pick_elig [OF p] winner.pick_max [OF p]
      unfolding es newest_accepted_def by auto
  next
    assume new: ?new
    then have "w \<in> set ?es" "in_clamp now clamp w" unfolding es newest_accepted_def by auto
    then obtain w' where p: "fst (pick_winner ?es now clamp undefined) = Some w'"
      using winner.pick_Some_iff by metis
    have "older_eq w w'" using winner.pick_max [OF p] \<open>w \<in> set ?es\<close> \<open>in_clamp now clamp w\<close> .
    moreover have "older_eq w' w"
      using winner.pick_in [OF p] winner.pick_elig [OF p] new
      unfolding es newest_accepted_def by auto
    ultimately have "ev_id w = ev_id w'" by (rule older_eq_antisym)
    then have "w = w'"
      using winner.pick_in [OF p] \<open>w \<in> set ?es\<close> assms
      unfolding es ids_unique_def acceptable_def by auto
    with p pick show "?pick = Some w" by simp
  qed
qed

lemma emitted_iff:
  assumes "orders_ok E" and "ids_unique E events"
  shows "v \<in> set (fst (ingest_events E events k req now clamp cap m)) \<longleftrightarrow>
    (\<exists>ev. newest_accepted E k req now clamp events ev \<and>
       (\<exists>fs. fst (followee_pubkeys E ev cap m) = Some fs \<and> v = follow_list_from_event E ev fs))"
proof -
  have "v \<in> set (fst (ingest_events E events k req now clamp cap m)) \<longleftrightarrow>
    (\<exists>a w. (newest_accepted E k req now clamp events w \<and> ev_pubkey w = a)
        \<and> card (followees E w) \<le> cap
        \<and> v = follow_list_from_event E w
            (followee_loop (ev_pubkey w) (sdk_public_keys E w) {} []))"
    using assms(1) by (simp only: set_ingest_events resolve_group_Some survivor_winner [OF assms(2)])
  then show ?thesis by (auto simp: followee_pubkeys_Some)
qed

section \<open>Properties of the gate\<close>

text \<open>Two events of author 7, an older and a newer one, for the witnesses below.\<close>

definition demo_event :: "event_id \<Rightarrow> pubkey \<Rightarrow> timestamp \<Rightarrow> nat list \<Rightarrow> event" where
  "demo_event i pk ts fs =
     \<lparr>ev_id = i, ev_pubkey = pk, ev_created_at = ts, ev_kind = ContactList,
      ev_tags = map (\<lambda>f. [[112], [f]]) fs, ev_content = [], ev_sig = [1]\<rparr>"

abbreviation demo_old :: event where "demo_old \<equiv> demo_event 1 7 100 [8]"
abbreviation demo_new :: event where "demo_new \<equiv> demo_event 2 7 200 [8, 9, 8, 7]"

lemma demo_acceptable [simp]:
  "acceptable demo_env ContactList req (demo_event i pk ts fs) \<longleftrightarrow> pk \<in> req"
  by (simp add: acceptable_def demo_env_def demo_event_def)

lemma demo_ids_unique: "ids_unique demo_env [demo_old, demo_new]"
  by (simp add: ids_unique_def demo_event_def)

lemma demo_followees:
  "followees demo_env (demo_event i pk ts fs) = word_of_nat ` set fs - {pk}"
  by (force simp: followees_def demo_env_def demo_event_def filter_map o_def)

text \<open>
  C8. The gate emits exactly the newest-wins winners: a follow list comes out if and only if
  some input event verified, was solicited (kind and author), is not dated past the future
  clamp, is preferred (newest, lowest id on a tie) to every other such event of its author,
  and has at most \<open>follow_cap\<close> followees; the list carries that event's author, id, converted
  time and bounded followee list.
\<close>

theorem ingest_newest_wins:
  assumes "orders_ok E" and "ids_unique E events"
  shows "v \<in> set (fst (ingest_events E events k req now clamp cap m)) \<longleftrightarrow>
    (\<exists>ev. newest_accepted E k req now clamp events ev \<and>
       (\<exists>fs. fst (followee_pubkeys E ev cap m) = Some fs \<and> v = follow_list_from_event E ev fs))"
  using assms by (rule emitted_iff)

lemma demo_newest:
  "newest_accepted demo_env ContactList {7} 150 100 [demo_old, demo_new] demo_new"
  by (simp add: newest_accepted_def in_clamp_def older_eq_def saturating_add_def)
     (simp add: demo_event_def)

theorem ingest_newest_wins_witness:
  "follow_list_from_event demo_env demo_new [8, 9]
     \<in> set (fst (ingest_events demo_env [demo_old, demo_new] ContactList {7} 150 100 10 (\<lambda>_. 0)))"
proof -
  have "fst (followee_pubkeys demo_env demo_new 10 (\<lambda>_. 0)) = Some [8, 9]"
    by (simp add: followee_pubkeys_def demo_event_def demo_env_def Let_def)
  then show ?thesis
    using ingest_newest_wins [OF demo_orders_ok demo_ids_unique] demo_newest by blast
qed

lemma distinct_followers:
  assumes "orders_ok E"
  shows "distinct (map vfl_follower (fst (ingest_events E events k req now clamp cap m)))"
proof -
  let ?gs = "group_order E (fst (ingest_gate E k req events {} [] m))"
  have d: "distinct (map fst ?gs)" by (rule ordered_groups_distinct [OF assms])
  have r: "vfl_follower v = fst g"
    if "g \<in> set ?gs" "resolve_group E now clamp cap (snd g) = Some v" for g v
  proof -
    have "g \<in> set (fst (ingest_gate E k req events {} [] m))"
      using that(1) set_orders(1) [OF assms] by simp
    then have "snd g = filter (\<lambda>e. ev_pubkey e = fst g) (survivors E k req events)"
      unfolding gate_groups by auto
    with that(2) show ?thesis by (metis vfl_follower_of_group)
  qed
  show ?thesis unfolding fst_ingest_events
    by (rule distinct_map_filter_key [OF d]) (use r in auto)
qed

text \<open>At most one follow list per author leaves the gate.\<close>

theorem ingest_one_per_author:
  assumes "orders_ok E"
  shows "distinct (map vfl_follower (fst (ingest_events E events k req now clamp cap m)))"
  by (rule distinct_followers [OF assms])

theorem ingest_one_per_author_witness:
  "distinct (map vfl_follower
     (fst (ingest_events demo_env [demo_old, demo_new] ContactList {7} 150 100 10 (\<lambda>_. 0))))"
  by (rule ingest_one_per_author [OF demo_orders_ok])

text \<open>Rejected events leave no trace in the groups, whatever ids they claim.\<close>

lemma accept_cases:
  obtains (yes) "acceptable E k req ev" "accept E ev k req m = (True, m)"
  | (no) m1 where "\<not> acceptable E k req ev" "accept E ev k req m = (False, m1)"
proof (cases "acceptable E k req ev")
  case True
  then show thesis using yes by (simp add: accept_True)
next
  case False
  obtain b m1 where "accept E ev k req m = (b, m1)" by (cases "accept E ev k req m")
  with False show thesis using no [of m1] fst_accept [of E ev k req m] by simp
qed

lemma gate_filter:
  "fst (ingest_gate E k req (filter (acceptable E k req) evs) seen gs m)
     = fst (ingest_gate E k req evs seen gs m')"
proof (induction evs arbitrary: seen gs m m')
  case (Cons ev evs)
  show ?case
  proof (cases "acceptable E k req ev")
    case True
    then have "accept E ev k req m = (True, m)" "accept E ev k req m' = (True, m')"
      by (simp_all add: accept_True)
    with True Cons show ?thesis by simp
  next
    case False
    then show ?thesis using Cons by (cases rule: accept_cases [of E k req ev m']) simp_all
  qed
qed simp

text \<open>
  Events that fail the gate cannot influence its output: forged events (bad signature or
  id), events of unsolicited authors or kinds, wherever they stand in the stream and whatever
  ids they claim, leave the emitted lists exactly as they are without them. An id squatted by
  a forgery stays available to the genuine event.
\<close>

theorem ingest_ignores_rejected:
  "fst (ingest_events E (filter (acceptable E k req) events) k req now clamp cap m)
     = fst (ingest_events E events k req now clamp cap m')"
  using gate_filter [of E k req events "{}" "[]" m m'] by (simp add: fst_ingest_events)

text \<open>
  C30. Neither the order in which relays deliver events nor how often they repeat them
  matters: two streams with the same events emit the same follow lists.
\<close>

theorem ingest_order_independent:
  assumes "orders_ok E" and "ids_unique E events" and "set events' = set events"
  shows "set (fst (ingest_events E events' k req now clamp cap m))
    = set (fst (ingest_events E events k req now clamp cap m))"
proof -
  have "ids_unique E events'" using assms(2,3) by (simp add: ids_unique_def)
  moreover have "newest_accepted E k req now clamp events' = newest_accepted E k req now clamp events"
    using assms(3) by (auto simp: newest_accepted_def fun_eq_iff)
  ultimately show ?thesis
    using emitted_iff [OF assms(1,2)] emitted_iff [OF assms(1)]
    by (auto simp: set_eq_iff)
qed

theorem ingest_order_independent_witness:
  "set (fst (ingest_events demo_env [demo_new, demo_old, demo_new] ContactList {7} 150 100 10 (\<lambda>_. 0)))
    = set (fst (ingest_events demo_env [demo_old, demo_new] ContactList {7} 150 100 10 (\<lambda>_. 0)))"
  by (rule ingest_order_independent [OF demo_orders_ok demo_ids_unique]) auto

section \<open>Every event is accounted for\<close>

lemma gate_counters:
  "snd (ingest_gate E k req evs seen gs m) (n, l) = m (n, l)
     + (if n = ''ingest_invalid_signature'' \<and> l = [] then length (filter (\<lambda>e. \<not> sdk_verify E e) evs) else 0)
     + (if n = ''ingest_unsolicited'' \<and> l = []
        then length (filter (\<lambda>e. sdk_verify E e \<and> \<not> acceptable E k req e) evs) else 0)"
proof (induction evs arbitrary: seen gs m)
  case (Cons ev evs)
  show ?case
  proof (cases rule: accept_cases [of E k req ev m])
    case yes
    then have "sdk_verify E ev" by (simp add: acceptable_def)
    with yes Cons show ?thesis by (cases "ev_id ev \<in> seen") simp_all
  next
    case (no m1)
    then show ?thesis using Cons [of seen gs m1] accept_counters [of E ev k req m n l] by auto
  qed
qed simp

lemma mset_concat_push:
  "mset (concat (map snd (push_group k v gs))) = add_mset v (mset (concat (map snd gs)))"
  by (induction k v gs rule: push_group.induct) auto

lemma mset_gate_groups:
  "mset (concat (map snd (fst (ingest_gate E k req evs seen gs m))))
     = mset (concat (map snd gs)) + mset (first_by_id seen (filter (acceptable E k req) evs))"
proof (induction evs arbitrary: seen gs m)
  case (Cons ev evs)
  show ?case
    by (cases rule: accept_cases [of E k req ev m]) (use Cons in \<open>auto simp: mset_concat_push\<close>)
qed simp

lemma mset_concat_cong: "mset gs = mset hs \<Longrightarrow> mset (concat (map snd gs)) = mset (concat (map snd hs))"
proof (induction gs arbitrary: hs)
  case (Cons g gs)
  then obtain xs ys where hs: "hs = xs @ g # ys"
    by (metis list.set_intros(1) set_mset_mset split_list)
  with Cons.prems have "mset gs = mset (xs @ ys)" by simp
  from Cons.IH [OF this] hs show ?case by simp
qed simp

definition oversized_group :: "env \<Rightarrow> timestamp \<Rightarrow> u64 \<Rightarrow> nat \<Rightarrow> event list \<Rightarrow> bool" where
  "oversized_group E now clamp cap es =
     (case max_by winner_cmp (filter (in_clamp now clamp) es) of
        None \<Rightarrow> False | Some w \<Rightarrow> cap < card (followees E w))"

lemma snd_followee_pubkeys:
  "snd (followee_pubkeys E ev cap m)
     = (if cap < card (followees E ev) then count_by ''ingest_oversized_follow_list'' 1 m else m)"
  by (simp add: followee_pubkeys_def Let_def length_followee_loop)

lemma resolve_counters:
  "snd (ingest_resolve E now clamp cap gs m) (n, l) = m (n, l)
     + (if n = ''ingest_future_dated'' \<and> l = []
        then length (filter (\<lambda>e. \<not> in_clamp now clamp e) (concat (map snd gs))) else 0)
     + (if n = ''ingest_oversized_follow_list'' \<and> l = []
        then length (filter (\<lambda>g. oversized_group E now clamp cap (snd g)) gs) else 0)"
proof (induction gs arbitrary: m)
  case (Cons g gs)
  obtain a es where g: "g = (a, es)" by (cases g)
  obtain w m1 where w: "pick_winner es now clamp m = (w, m1)" by (cases "pick_winner es now clamp m")
  then have w': "w = max_by winner_cmp (filter (in_clamp now clamp) es)"
    and m1: "m1 = count_by ''ingest_future_dated'' (length (filter (\<lambda>e. \<not> in_clamp now clamp e) es)) m"
    using fst_pick_winner [of es now clamp m] snd_pick_winner [of es now clamp m] by simp_all
  show ?case
  proof (cases w)
    case None
    then have "\<not> oversized_group E now clamp cap es" using w' by (simp add: oversized_group_def)
    then show ?thesis using None g w m1 Cons [of m1] by simp
  next
    case (Some win)
    have ov: "oversized_group E now clamp cap es \<longleftrightarrow> cap < card (followees E win)"
      using Some w' [symmetric] by (simp add: oversized_group_def)
    obtain fs m2 where f: "followee_pubkeys E win cap m1 = (fs, m2)"
      by (cases "followee_pubkeys E win cap m1")
    then have m2: "m2 = (if cap < card (followees E win)
        then count_by ''ingest_oversized_follow_list'' 1 m1 else m1)"
      using snd_followee_pubkeys [of E win cap m1] by simp
    have "snd (ingest_resolve E now clamp cap (g # gs) m) = snd (ingest_resolve E now clamp cap gs m2)"
      using g w Some f by (simp split: option.split prod.split)
    then show ?thesis using Cons [of m2] g m2 m1 ov by simp
  qed
qed simp

text \<open>An author has a live event when some survivor of theirs is within the clamp.\<close>

definition live_authors ::
  "env \<Rightarrow> kind \<Rightarrow> pubkey set \<Rightarrow> timestamp \<Rightarrow> u64 \<Rightarrow> event list \<Rightarrow> pubkey set" where
  "live_authors E k req now clamp events =
     ev_pubkey ` set (filter (in_clamp now clamp) (survivors E k req events))"

lemma length_map_filter: "length (List.map_filter f xs) = length (filter (\<lambda>x. f x \<noteq> None) xs)"
  by (induction xs) (auto simp: map_filter_simps split: option.splits)

lemma length_filter_disjoint:
  "(\<And>x. \<not> (Q x \<and> R x)) \<Longrightarrow>
    length (filter (\<lambda>x. Q x \<or> R x) xs) = length (filter Q xs) + length (filter R xs)"
  by (induction xs) auto

lemma card_live_groups:
  assumes "distinct (map fst gs)"
    and "set gs = {(a, es). es = filter (\<lambda>e. ev_pubkey e = a) ss \<and> es \<noteq> []}"
  shows "length (filter (\<lambda>g. \<exists>e \<in> set (snd g). P e) gs) = card (ev_pubkey ` set (filter P ss))"
proof -
  let ?live = "filter (\<lambda>g. \<exists>e \<in> set (snd g). P e) gs"
  have "fst ` set ?live = ev_pubkey ` set (filter P ss)"
  proof (intro equalityI subsetI)
    fix a assume "a \<in> fst ` set ?live"
    then obtain es e where "(a, es) \<in> set gs" "e \<in> set es" "P e" by auto
    then show "a \<in> ev_pubkey ` set (filter P ss)" using assms(2) by auto
  next
    fix a assume "a \<in> ev_pubkey ` set (filter P ss)"
    then obtain e where e: "e \<in> set ss" "P e" "a = ev_pubkey e" by auto
    then have "(a, filter (\<lambda>e. ev_pubkey e = a) ss) \<in> set gs"
      using assms(2) by (auto simp: filter_empty_conv)
    moreover have "e \<in> set (filter (\<lambda>e. ev_pubkey e = a) ss)" using e by simp
    ultimately show "a \<in> fst ` set ?live" using e(2) by force
  qed
  moreover have "distinct (map fst ?live)" using assms(1) by (rule distinct_map_filter)
  then have "length ?live = card (fst ` set ?live)"
    using distinct_card [of "map fst ?live"] by simp
  ultimately show ?thesis by simp
qed

lemma live_group_cases:
  "(\<exists>e \<in> set es. in_clamp now clamp e) \<longleftrightarrow>
     resolve_group E now clamp cap es \<noteq> None \<or> oversized_group E now clamp cap es"
proof -
  have "(\<exists>e \<in> set es. in_clamp now clamp e) \<longleftrightarrow>
      max_by winner_cmp (filter (in_clamp now clamp) es) \<noteq> None"
    by (auto simp: filter_empty_conv)
  then show ?thesis
    by (auto simp: resolve_group_def oversized_group_def split: option.splits)
qed

lemma live_group_disjoint:
  "\<not> (resolve_group E now clamp cap es \<noteq> None \<and> oversized_group E now clamp cap es)"
  by (auto simp: resolve_group_def oversized_group_def split: option.splits)

text \<open>
  Nothing is dropped silently. The counters account for the batch: every event is counted
  as an invalid signature, counted as unsolicited, or accepted; every survivor of the dedup is
  counted as future-dated or within the clamp; and every author with a survivor within the
  clamp has either an emitted list or one count of an oversized one.
\<close>

theorem ingest_accounting:
  assumes "orders_ok E"
  shows "let (out, m') = ingest_events E events k req now clamp cap m;
             delta = (\<lambda>name. counter m' name - counter m name);
             ss = survivors E k req events
    in length events = delta ''ingest_invalid_signature'' + delta ''ingest_unsolicited''
         + length (filter (acceptable E k req) events)
     \<and> length ss = delta ''ingest_future_dated'' + length (filter (in_clamp now clamp) ss)
     \<and> card (live_authors E k req now clamp events)
         = length out + delta ''ingest_oversized_follow_list''"
proof -
  let ?g = "ingest_gate E k req events {} [] m"
  let ?gs = "group_order E (fst ?g)"
  let ?ss = "survivors E k req events"
  have ev: "length events = length (filter (\<lambda>e. \<not> sdk_verify E e) events)
      + length (filter (\<lambda>e. sdk_verify E e \<and> \<not> acceptable E k req e) events)
      + length (filter (acceptable E k req) events)"
    by (induction events) (auto simp: acceptable_def)
  have "mset (concat (map snd ?gs)) = mset (concat (map snd (fst ?g)))"
    by (rule mset_concat_cong) (simp add: assms)
  then have ss: "mset (concat (map snd ?gs)) = mset ?ss"
    using mset_gate_groups [of E k req events "{}" "[]" m] by (simp add: survivors_def)
  then have fut: "length (filter P (concat (map snd ?gs))) = length (filter P ?ss)" for P
    by (metis mset_filter size_mset)
  have clamp: "length ?ss = length (filter (\<lambda>e. \<not> in_clamp now clamp e) ?ss)
      + length (filter (in_clamp now clamp) ?ss)"
    using sum_length_filter_compl [of "in_clamp now clamp" ?ss] by simp
  have d: "distinct (map fst ?gs)" by (rule ordered_groups_distinct [OF assms])
  have sg: "set ?gs = {(a, es). es = filter (\<lambda>e. ev_pubkey e = a) ?ss \<and> es \<noteq> []}"
    using set_orders(1) [OF assms] by (simp add: gate_groups)
  have live: "card (live_authors E k req now clamp events)
      = length (List.map_filter (resolve_group E now clamp cap \<circ> snd) ?gs)
        + length (filter (\<lambda>g. oversized_group E now clamp cap (snd g)) ?gs)"
    using length_filter_disjoint [of "\<lambda>g. resolve_group E now clamp cap (snd g) \<noteq> None"
        "\<lambda>g. oversized_group E now clamp cap (snd g)" ?gs, OF live_group_disjoint]
      card_live_groups [OF d sg, of "in_clamp now clamp"]
    by (simp add: live_authors_def length_map_filter live_group_cases [of _ now clamp E cap])
  show ?thesis
    using ev fut clamp live
    by (simp add: ingest_events_def Let_def split_beta resolve_counters gate_counters
        fst_ingest_resolve)
qed

theorem ingest_accounting_witness:
  "let (out, m') = ingest_events demo_env [demo_old, demo_new] ContactList {7} 150 100 1 (\<lambda>_. 0);
       delta = (\<lambda>name. counter m' name - counter (\<lambda>_. 0) name);
       ss = survivors demo_env ContactList {7} [demo_old, demo_new]
    in length [demo_old, demo_new]
         = delta ''ingest_invalid_signature'' + delta ''ingest_unsolicited''
           + length (filter (acceptable demo_env ContactList {7}) [demo_old, demo_new])
     \<and> length ss = delta ''ingest_future_dated'' + length (filter (in_clamp 150 100) ss)
     \<and> card (live_authors demo_env ContactList {7} 150 100 [demo_old, demo_new])
         = length out + delta ''ingest_oversized_follow_list''"
  by (rule ingest_accounting [OF demo_orders_ok])

section \<open>Properties of the single steps\<close>

lemma in_clamp_nat: "in_clamp now clamp ev \<longleftrightarrow> unat (ev_created_at ev) \<le> unat now + unat clamp"
proof -
  have "unat (ev_created_at ev) < 2 ^ LENGTH(64)" by (rule unsigned_less)
  then have "unat (ev_created_at ev) \<le> 2 ^ LENGTH(64) - 1" by simp
  then show ?thesis by (simp add: in_clamp_def word_le_nat_alt unat_saturating_add)
qed

text \<open>
  The resolver, on unbounded numbers: the saturating cutoff is exactly the sum of the
  clock and the clamp, for every 64-bit clock and clamp. No event within it: no winner. A
  winner is an event of the list within the cutoff, no event within the cutoff is newer, and
  none of the same second has a lower id. Every event past the cutoff is counted.
\<close>

theorem pick_winner_spec:
  "(fst (pick_winner es now clamp m) = None
      \<longleftrightarrow> (\<forall>e \<in> set es. unat now + unat clamp < unat (ev_created_at e)))
   \<and> (\<forall>w. fst (pick_winner es now clamp m) = Some w \<longrightarrow>
        w \<in> set es \<and> unat (ev_created_at w) \<le> unat now + unat clamp
        \<and> (\<forall>e \<in> set es. unat (ev_created_at e) \<le> unat now + unat clamp \<longrightarrow>
             ev_created_at e < ev_created_at w
             \<or> ev_created_at e = ev_created_at w \<and> ev_id w \<le> ev_id e))
   \<and> counter (snd (pick_winner es now clamp m)) ''ingest_future_dated''
      = counter m ''ingest_future_dated''
        + length (filter (\<lambda>e. unat now + unat clamp < unat (ev_created_at e)) es)"
proof (intro conjI allI impI)
  note nat = in_clamp_nat [symmetric]
  show "fst (pick_winner es now clamp m) = None
      \<longleftrightarrow> (\<forall>e \<in> set es. unat now + unat clamp < unat (ev_created_at e))"
    using winner.pick_None [of es now clamp m] by (auto simp: in_clamp_nat not_le)
  fix w assume w: "fst (pick_winner es now clamp m) = Some w"
  show "w \<in> set es" "unat (ev_created_at w) \<le> unat now + unat clamp"
    using winner.pick_in [OF w] winner.pick_elig [OF w] by (simp_all add: in_clamp_nat)
  show "\<forall>e \<in> set es. unat (ev_created_at e) \<le> unat now + unat clamp \<longrightarrow>
      ev_created_at e < ev_created_at w \<or> ev_created_at e = ev_created_at w \<and> ev_id w \<le> ev_id e"
    using winner.pick_max [OF w] by (auto simp: in_clamp_nat older_eq_def)
next
  show "counter (snd (pick_winner es now clamp m)) ''ingest_future_dated''
      = counter m ''ingest_future_dated''
        + length (filter (\<lambda>e. unat now + unat clamp < unat (ev_created_at e)) es)"
    by (simp add: snd_pick_winner in_clamp_nat not_le)
qed

theorem pick_winner_spec_witness:
  "fst (pick_winner [demo_old, demo_new] 150 100 (\<lambda>_. 0)) \<noteq> None"
proof -
  have "unat (ev_created_at demo_old) \<le> unat (150 :: u64) + unat (100 :: u64)"
    by (simp add: demo_event_def)
  then show ?thesis
    using pick_winner_spec [of "[demo_old, demo_new]" 150 100 "\<lambda>_. 0"] by auto
qed

text \<open>
  A follow list is exactly the keys of the event's p-tags without its author, each once,
  and is never longer than the cap; one key too many rejects the whole list, which is counted
  and not truncated.
\<close>

theorem followee_pubkeys_spec:
  "case followee_pubkeys E ev cap m of
     (Some fs, m') \<Rightarrow> distinct fs \<and> set fs = set (sdk_public_keys E ev) - {ev_pubkey ev}
        \<and> length fs \<le> cap \<and> m' = m
   | (None, m') \<Rightarrow> cap < card (set (sdk_public_keys E ev) - {ev_pubkey ev})
        \<and> m' = count_by ''ingest_oversized_follow_list'' 1 m"
proof -
  let ?l = "followee_loop (ev_pubkey ev) (sdk_public_keys E ev) {} []"
  have "set ?l = set (sdk_public_keys E ev) - {ev_pubkey ev}"
    by (simp only: set_followee_loop followees_def)
  moreover have "length ?l = card (set (sdk_public_keys E ev) - {ev_pubkey ev})"
    by (simp only: length_followee_loop followees_def)
  ultimately show ?thesis by (simp add: followee_pubkeys_def Let_def)
qed

text \<open>
  C40. A relay list is resolved from the newest verified kind-10002 event of exactly the
  requested author within the clamp, by the same preference as the follow lists; without
  such an event there is none.
\<close>

theorem resolve_relay_list_newest:
  assumes "ids_unique E events"
  shows "fst (resolve_relay_list E events author now clamp m) = Some v \<longleftrightarrow>
    (\<exists>ev. newest_accepted E RelayList {author} now clamp events ev
       \<and> v = relay_list_from_event E ev)"
proof -
  have "ev_pubkey e = author" if "e \<in> set (survivors E RelayList {author} events)" for e
    using that set_survivors_subset [of E RelayList "{author}" events]
    by (auto simp: acceptable_def)
  then have all: "filter (\<lambda>e. ev_pubkey e = author) (survivors E RelayList {author} events)
      = survivors E RelayList {author} events"
    by simp
  have "ev_pubkey ev = author" if "newest_accepted E RelayList {author} now clamp events ev" for ev
    using that by (auto simp: newest_accepted_def acceptable_def)
  then show ?thesis
    using survivor_winner [OF assms, of now clamp author RelayList "{author}"]
    by (auto simp: resolve_relay_list_eq all)
qed

definition demo_relays :: event where
  "demo_relays = (demo_event 3 7 100 [])\<lparr>ev_kind := RelayList, ev_tags := [[[114], [1]]]\<rparr>"

theorem resolve_relay_list_newest_witness:
  "fst (resolve_relay_list demo_env [demo_relays] 7 150 100 (\<lambda>_. 0))
     = Some (relay_list_from_event demo_env demo_relays)"
proof -
  have "ids_unique demo_env [demo_relays]" by (simp add: ids_unique_def)
  moreover have "newest_accepted demo_env RelayList {7} 150 100 [demo_relays] demo_relays"
    by (simp add: newest_accepted_def acceptable_def in_clamp_nat older_eq_def demo_relays_def
        demo_event_def demo_env_def)
  ultimately show ?thesis using resolve_relay_list_newest by blast
qed

text \<open>
  The conversion of event times is exact, in microseconds, up to 260000 years after the
  epoch. Beyond that the 64 bits are read as signed: the largest timestamp is the second
  before the epoch, and not the epoch.
\<close>

theorem timestamp_conversion:
  assumes "chrono_ok E"
  shows "(unat ts \<le> 8200000000000 \<longrightarrow> timestamp_to_datetime E ts = int (unat ts) * 1000000)
    \<and> timestamp_to_datetime E (- 1) = - 1000000"
proof
  show "unat ts \<le> 8200000000000 \<longrightarrow> timestamp_to_datetime E ts = int (unat ts) * 1000000"
  proof
    assume b: "unat ts \<le> 8200000000000"
    have "uint ts = int (unat ts)" by simp
    then have u: "0 \<le> uint ts" "uint ts \<le> 8200000000000" using b by linarith+
    have lo: "- (2 ^ (LENGTH(64) - 1)) \<le> uint ts" using u(1) by (rule order_trans [rotated]) simp
    have hi: "uint ts < 2 ^ (LENGTH(64) - 1)" using u(2) by simp
    have "sint ts = uint ts"
      using signed_take_bit_int_eq_self [OF lo hi] by (simp add: sint_uint)
    moreover have "chrono_utc E (uint ts) = Some (uint ts * 1000000)"
      using assms u unfolding chrono_ok_def by (metis abs_of_nonneg)
    ultimately show "timestamp_to_datetime E ts = int (unat ts) * 1000000"
      by (simp add: timestamp_to_datetime_def)
  qed
  show "timestamp_to_datetime E (- 1) = - 1000000"
    using assms by (simp add: timestamp_to_datetime_def chrono_ok_def)
qed

theorem timestamp_conversion_witness:
  "timestamp_to_datetime demo_env 1700000000 = 1700000000000000
    \<and> timestamp_to_datetime demo_env (- 1) = - 1000000"
  using timestamp_conversion [OF demo_chrono_ok, of 1700000000] by simp

end
