(* ===== verification/Paginate.thy ===== *)
theory Paginate imports Nostr Rate_Limit begin

text \<open>
  \<open>src/relay/fetch.rs\<close>: the page-back decision, the window loop over one chunk of authors,
  the rate-limiter gate and the deadline around each window, and the loop over the chunks.
  The injected fetch closure is a function with a state of its own. The lemmas show that a
  chunk's result holds every event once, and that against a relay that answers truthfully a
  successful result is never short of an event.
\<close>

section \<open>One chunk\<close>

record filter_req =
  f_authors :: "pubkey list"
  f_kind :: kind
  f_limit :: nat
  f_until :: timestamp

definition MAX_PAGES_PER_CHUNK :: nat where "MAX_PAGES_PER_CHUNK = 10000"
definition DEFAULT_FETCH_TIMEOUT :: duration where "DEFAULT_FETCH_TIMEOUT = 30 * 10 ^ 9"

definition page_back :: "nat \<Rightarrow> nat \<Rightarrow> timestamp option \<Rightarrow> timestamp option" where
  "page_back returned cap oldest =
     (case (returned \<ge> cap, oldest) of (True, Some ts) \<Rightarrow> Some ts | _ \<Rightarrow> None)"

definition oldest_of :: "event list \<Rightarrow> timestamp option" where
  "oldest_of events = (case map ev_created_at events of [] \<Rightarrow> None | t # ts \<Rightarrow> Some (fold min ts t))"

fun take_new :: "event list \<Rightarrow> event_id set \<Rightarrow> event list \<Rightarrow> event_id set \<times> event list" where
  "take_new [] seen out = (seen, out)"
| "take_new (ev # evs) seen out =
     (if ev_id ev \<in> seen then take_new evs seen out
      else take_new evs (insert (ev_id ev) seen) (out @ [ev]))"

type_synonym 's window_fetch = "filter_req \<Rightarrow> 's \<Rightarrow> (relay_error + event list) \<times> 's"

function paginate_loop ::
  "pubkey list \<Rightarrow> kind \<Rightarrow> nat \<Rightarrow> 's window_fetch \<Rightarrow> nat \<Rightarrow> timestamp \<Rightarrow> timestamp option
   \<Rightarrow> event_id set \<Rightarrow> event list \<Rightarrow> 's \<Rightarrow> (relay_error + event list) \<times> 's" where
  "paginate_loop authors kind cap fetch pages until prev_until seen out s =
     (if pages \<ge> MAX_PAGES_PER_CHUNK then
        (Inl (FetchTimeout (lit ''page budget ('' @ dec MAX_PAGES_PER_CHUNK
           @ lit '') exceeded for author chunk'')), s)
      else
        case fetch \<lparr>f_authors = authors, f_kind = kind, f_limit = cap, f_until = until\<rparr> s of
          (Inl e, s1) \<Rightarrow> (Inl e, s1)
        | (Inr events, s1) \<Rightarrow>
            (let returned = length events;
                 oldest = oldest_of events;
                 (seen1, out1) = take_new events seen out;
                 new_ids = length out1 - length out
             in if new_ids = 0 then
                  (if returned \<ge> cap
                      \<and> (prev_until = Some until \<or> page_back returned cap oldest = Some until)
                   then (Inl (FetchTimeout (lit ''boundary-second stall: relay re-served the same cap-sized prefix for pinned until=''
                          @ dec (unat until) @ lit '' with more events remaining'')), s1)
                   else (Inr out1, s1))
                else
                  (case page_back returned cap oldest of
                     Some t \<Rightarrow> paginate_loop authors kind cap fetch (Suc pages) t (Some until)
                                seen1 out1 s1
                   | None \<Rightarrow> (Inr out1, s1))))"
  by pat_completeness auto

termination
  by (relation "measure (\<lambda>(_, _, _, _, pages, _). MAX_PAGES_PER_CHUNK - pages)") auto

declare paginate_loop.simps [simp del]

definition paginate_chunk ::
  "timestamp \<Rightarrow> pubkey list \<Rightarrow> kind \<Rightarrow> nat \<Rightarrow> 's window_fetch \<Rightarrow> 's
   \<Rightarrow> (relay_error + event list) \<times> 's" where
  "paginate_chunk now authors kind cap fetch s =
     paginate_loop authors kind cap fetch 0 now None {} [] s"

section \<open>Gate, deadline, chunks\<close>

text \<open>Every window first passes the relay's limiter; the registry is part of the state.\<close>

definition gated :: "ustring \<Rightarrow> 's window_fetch \<Rightarrow> (limiter_registry \<times> 's) window_fetch" where
  "gated relay_url fetch f st =
     (let R = acquire relay_url (fst st); (r, s) = fetch f (snd st) in (r, (R, s)))"

definition paginate_chunk_gated ::
  "timestamp \<Rightarrow> pubkey list \<Rightarrow> kind \<Rightarrow> nat \<Rightarrow> ustring \<Rightarrow> 's window_fetch \<Rightarrow> limiter_registry \<times> 's
   \<Rightarrow> (relay_error + event list) \<times> limiter_registry \<times> 's" where
  "paginate_chunk_gated now authors kind cap relay_url fetch st =
     paginate_chunk now authors kind cap (gated relay_url fetch) st"

text \<open>A timed fetch also reports how long it took.\<close>

type_synonym 's timed_fetch = "filter_req \<Rightarrow> 's \<Rightarrow> (relay_error + event list) \<times> duration \<times> 's"

definition fetch_window_with_deadline ::
  "duration \<Rightarrow> ustring \<Rightarrow> 's timed_fetch \<Rightarrow> 's window_fetch" where
  "fetch_window_with_deadline timeout relay_url fetch f s =
     (case fetch f s of
        (Inl e, _, s1) \<Rightarrow> (Inl e, s1)
      | (Inr events, elapsed, s1) \<Rightarrow>
          if elapsed \<ge> timeout then (Inl (FetchTimeout relay_url), s1) else (Inr events, s1))"

text \<open>
  The client of the SDK, as the loop uses it: the urls of its pool, and a query that returns
  what it got by the timeout, with the time it took.
\<close>

record 's client =
  cl_relays :: "ustring list"
  cl_fetch_events :: "filter_req \<Rightarrow> duration \<Rightarrow> 's \<Rightarrow> (ustring + event list) \<times> duration \<times> 's"

fun join :: "ustring \<Rightarrow> ustring list \<Rightarrow> ustring" where
  "join sep [] = []"
| "join sep [u] = u"
| "join sep (u # us) = u @ sep @ join sep us"

definition pool_label :: "'s client \<Rightarrow> ustring" where
  "pool_label client =
     (if cl_relays client = [] then lit ''pool (no connected relays)''
      else join (lit '', '') (cl_relays client))"

fun chunks_fuel :: "nat \<Rightarrow> nat \<Rightarrow> 'a list \<Rightarrow> 'a list list" where
  "chunks_fuel 0 k xs = []"
| "chunks_fuel (Suc n) k xs = (if xs = [] then [] else take k xs # chunks_fuel n k (drop k xs))"

text \<open>\<open>slice::chunks\<close>: a slice has at most as many chunks as elements.\<close>

definition chunks :: "nat \<Rightarrow> 'a list \<Rightarrow> 'a list list" where
  "chunks k xs = chunks_fuel (length xs) k xs"

fun fetch_chunks ::
  "timestamp \<Rightarrow> kind \<Rightarrow> nat \<Rightarrow> ustring \<Rightarrow> 's window_fetch \<Rightarrow> pubkey list list \<Rightarrow> event list
   \<Rightarrow> limiter_registry \<times> 's \<Rightarrow> (relay_error + event list) \<times> limiter_registry \<times> 's" where
  "fetch_chunks now kind cap relay_url fetch [] all st = (Inr all, st)"
| "fetch_chunks now kind cap relay_url fetch (chunk # cs) all st =
     (case paginate_chunk_gated now chunk kind cap relay_url fetch st of
        (Inl e, st1) \<Rightarrow> (Inl e, st1)
      | (Inr events, st1) \<Rightarrow> fetch_chunks now kind cap relay_url fetch cs (all @ events) st1)"

definition fetch_complete_with_timeout ::
  "timestamp \<Rightarrow> 's client \<Rightarrow> ustring \<Rightarrow> pubkey list \<Rightarrow> kind \<Rightarrow> nat \<Rightarrow> nat \<Rightarrow> duration
   \<Rightarrow> limiter_registry \<times> 's \<Rightarrow> (relay_error + event list) \<times> limiter_registry \<times> 's" where
  "fetch_complete_with_timeout now client relay_url authors kind max_limit max_authors timeout st =
     (let cap = max max_limit 1;
          chunk_size = max max_authors 1;
          timeout_label = relay_url @ lit '' (pool: '' @ pool_label client @ lit '')'';
          query = (\<lambda>f s. case cl_fetch_events client f timeout s of
                     (Inl e, d, s1) \<Rightarrow> (Inl (Client e), d, s1)
                   | (Inr events, d, s1) \<Rightarrow> (Inr events, d, s1));
          fetch = fetch_window_with_deadline timeout timeout_label query
      in fetch_chunks now kind cap relay_url fetch (chunks chunk_size authors) [] st)"

definition fetch_complete ::
  "timestamp \<Rightarrow> 's client \<Rightarrow> ustring \<Rightarrow> pubkey list \<Rightarrow> kind \<Rightarrow> nat \<Rightarrow> nat
   \<Rightarrow> limiter_registry \<times> 's \<Rightarrow> (relay_error + event list) \<times> limiter_registry \<times> 's" where
  "fetch_complete now client relay_url authors kind max_limit max_authors st =
     fetch_complete_with_timeout now client relay_url authors kind max_limit max_authors
       DEFAULT_FETCH_TIMEOUT st"

text \<open>How an outcome is reported to the health registry.\<close>

definition record_fetch_health ::
  "(real \<Rightarrow> real) \<Rightarrow> ustring \<Rightarrow> duration \<Rightarrow> relay_error + event list \<Rightarrow> health \<Rightarrow> health" where
  "record_fetch_health rnd relay_url latency outcome H =
     (case outcome of
        Inr _ \<Rightarrow> record_success rnd relay_url latency H
      | Inl (FetchTimeout _) \<Rightarrow> record_timeout rnd relay_url H
      | Inl _ \<Rightarrow> record_connect_failure rnd relay_url H)"

section \<open>Windows\<close>

lemma take_new_spec:
  assumes "take_new evs seen out = (seen', out')" and "seen = ev_id ` set out"
    and "distinct (map ev_id out)"
  shows "seen' = ev_id ` set out' \<and> distinct (map ev_id out') \<and> set out \<subseteq> set out'
    \<and> set out' \<subseteq> set out \<union> set evs \<and> ev_id ` set out' = ev_id ` (set out \<union> set evs)
    \<and> length out \<le> length out' \<and> (length out' = length out \<longleftrightarrow> out' = out)"
  using assms
proof (induction evs seen out rule: take_new.induct)
  case (2 ev evs seen out)
  show ?case
  proof (cases "ev_id ev \<in> seen")
    case True
    then have "ev_id ev \<in> ev_id ` set out" using "2.prems" by simp
    then show ?thesis using "2.IH"(1) [OF True] "2.prems" True by auto
  next
    case False
    then have t: "take_new evs (insert (ev_id ev) seen) (out @ [ev]) = (seen', out')"
      using "2.prems" by simp
    have "insert (ev_id ev) seen = ev_id ` set (out @ [ev])" "distinct (map ev_id (out @ [ev]))"
      using False "2.prems" by auto
    then have IH: "seen' = ev_id ` set out' \<and> distinct (map ev_id out') \<and> set (out @ [ev]) \<subseteq> set out'
        \<and> set out' \<subseteq> set (out @ [ev]) \<union> set evs \<and> ev_id ` set out' = ev_id ` (set (out @ [ev]) \<union> set evs)
        \<and> length (out @ [ev]) \<le> length out'"
      using "2.IH"(2) [OF False t] by blast
    then have "length out < length out'" by simp
    with IH show ?thesis by auto
  qed
qed simp

lemma oldest_of_None: "oldest_of evs = None \<longleftrightarrow> evs = []"
  by (auto simp: oldest_of_def split: list.split)

lemma oldest_of_Some:
  assumes "oldest_of evs = Some t"
  shows "t \<in> ev_created_at ` set evs \<and> (\<forall>e \<in> set evs. t \<le> ev_created_at e)"
proof -
  obtain x xs where x: "map ev_created_at evs = x # xs" and t: "t = fold min xs x"
    using assms by (auto simp: oldest_of_def split: list.splits)
  have "t = Min (set (x # xs))" unfolding t using Min.set_eq_fold [of x xs] by simp
  moreover have "set (x # xs) = ev_created_at ` set evs" by (metis x list.set_map)
  ultimately have t2: "t = Min (ev_created_at ` set evs)" and ne: "ev_created_at ` set evs \<noteq> {}"
    by auto
  show ?thesis unfolding t2 using Min_in [OF _ ne] by simp
qed

section \<open>A truthful relay\<close>

text \<open>
  A relay that stores \<open>pool\<close> and, when it answers at all, returns the newest matching events up
  to the limit; which of the equally old ones it cuts off is up to it, and may vary.
\<close>

definition matching :: "event set \<Rightarrow> pubkey list \<Rightarrow> kind \<Rightarrow> timestamp \<Rightarrow> event set" where
  "matching pool authors k t =
     {e \<in> pool. ev_pubkey e \<in> set authors \<and> ev_kind e = k \<and> ev_created_at e \<le> t}"

definition newest_of :: "event set \<Rightarrow> nat \<Rightarrow> event list \<Rightarrow> bool" where
  "newest_of M n evs \<longleftrightarrow> distinct evs \<and> set evs \<subseteq> M \<and> length evs = min n (card M) \<and>
     (\<forall>e \<in> M - set evs. \<forall>w \<in> set evs. ev_created_at e \<le> ev_created_at w)"

definition truthful :: "event set \<Rightarrow> 's window_fetch \<Rightarrow> bool" where
  "truthful pool fetch \<longleftrightarrow> finite pool \<and> inj_on ev_id pool \<and>
     (\<forall>f s evs. fst (fetch f s) = Inr evs \<longrightarrow>
        newest_of (matching pool (f_authors f) (f_kind f) (f_until f)) (f_limit f) evs)"

text \<open>What the loop has established when it asks for events up to \<open>until\<close>.\<close>

definition paged :: "event set \<Rightarrow> timestamp \<Rightarrow> event list \<Rightarrow> bool" where
  "paged M until out \<longleftrightarrow> distinct (map ev_id out) \<and> set out \<subseteq> M \<and>
     (\<forall>e \<in> M. until < ev_created_at e \<longrightarrow> e \<in> set out) \<and>
     (\<forall>e \<in> set out. until \<le> ev_created_at e)"

text \<open>One window, asked for at \<open>until\<close> and folded into the events found so far.\<close>

definition window ::
  "event set \<Rightarrow> timestamp \<Rightarrow> nat \<Rightarrow> event list \<Rightarrow> event list \<Rightarrow> event_id set \<Rightarrow> event list \<Rightarrow> bool" where
  "window M until cap evs out seen1 out1 \<longleftrightarrow>
     inj_on ev_id M \<and> finite M \<and> 0 < cap \<and>
     newest_of {e \<in> M. ev_created_at e \<le> until} cap evs \<and> paged M until out \<and>
     take_new evs (ev_id ` set out) out = (seen1, out1)"

lemma windowD:
  assumes "window M until cap evs out seen1 out1"
  shows "inj_on ev_id M" "finite M" "0 < cap"
    "newest_of {e \<in> M. ev_created_at e \<le> until} cap evs" "paged M until out"
    "take_new evs (ev_id ` set out) out = (seen1, out1)"
  using assms by (auto simp: window_def)

lemma window_out:
  assumes W: "window M until cap evs out seen1 out1"
  shows "set out1 = set out \<union> set evs"
proof -
  note inj = windowD(1) [OF W] and fin = windowD(2) [OF W] and cap = windowD(3) [OF W]
    and win = windowD(4) [OF W] and pg = windowD(5) [OF W] and tn = windowD(6) [OF W]
  have sub: "set out \<union> set evs \<subseteq> M" using pg win by (auto simp: paged_def newest_of_def)
  have t: "set out1 \<subseteq> set out \<union> set evs" "ev_id ` set out1 = ev_id ` (set out \<union> set evs)"
    using take_new_spec [OF tn refl] pg by (auto simp: paged_def)
  have "inj_on ev_id (set out \<union> set evs)" using inj sub by (rule inj_on_subset)
  then show ?thesis using t by (metis inj_on_image_eq_iff order_refl)
qed

lemma window_state:
  assumes W: "window M until cap evs out seen1 out1"
  shows "seen1 = ev_id ` set out1" "distinct (map ev_id out1)" "length out \<le> length out1"
    "length out1 = length out \<longleftrightarrow> out1 = out"
  using take_new_spec [OF windowD(6) [OF W] refl] windowD(5) [OF W] by (auto simp: paged_def)

lemma window_short:
  assumes W: "window M until cap evs out seen1 out1"
    and short: "length evs < cap"
  shows "set out1 = M"
proof -
  note inj = windowD(1) [OF W] and fin = windowD(2) [OF W] and cap = windowD(3) [OF W]
    and win = windowD(4) [OF W] and pg = windowD(5) [OF W] and tn = windowD(6) [OF W]
  have sub: "set evs \<subseteq> {e \<in> M. ev_created_at e \<le> until}" using win by (simp add: newest_of_def)
  moreover have "card (set evs) = card {e \<in> M. ev_created_at e \<le> until}"
    using win short by (auto simp: newest_of_def distinct_card)
  ultimately have evs: "set evs = {e \<in> M. ev_created_at e \<le> until}"
    using fin by (intro card_subset_eq) auto
  have "e \<in> set out1" if "e \<in> M" for e
    using that evs window_out [OF W] pg by (cases "ev_created_at e \<le> until") (auto simp: paged_def)
  moreover have "set out1 \<subseteq> M" using window_out [OF W] pg sub by (auto simp: paged_def)
  ultimately show ?thesis by blast
qed

lemma window_back:
  assumes W: "window M until cap evs out seen1 out1"
    and old: "oldest_of evs = Some t"
  shows "paged M t out1"
proof -
  note inj = windowD(1) [OF W] and fin = windowD(2) [OF W] and cap = windowD(3) [OF W]
    and win = windowD(4) [OF W] and pg = windowD(5) [OF W] and tn = windowD(6) [OF W]
  obtain w where w: "w \<in> set evs" "ev_created_at w = t" and le: "\<forall>e \<in> set evs. t \<le> ev_created_at e"
    using oldest_of_Some [OF old] by auto
  have tu: "t \<le> until" using w win by (auto simp: newest_of_def)
  have "e \<in> set out1" if e: "e \<in> M" "t < ev_created_at e" for e
  proof (rule ccontr)
    assume n: "e \<notin> set out1"
    then have "e \<notin> set out" "e \<notin> set evs" using window_out [OF W] by auto
    then have "ev_created_at e \<le> until" using e(1) pg unfolding paged_def by (meson not_le)
    with e(1) \<open>e \<notin> set evs\<close> have "ev_created_at e \<le> ev_created_at w"
      using win w(1) unfolding newest_of_def by blast
    with e w show False by simp
  qed
  moreover have "t \<le> ev_created_at e" if "e \<in> set out1" for e
  proof (cases "e \<in> set evs")
    case False
    then have "e \<in> set out" using that window_out [OF W] by blast
    then have "until \<le> ev_created_at e" using pg by (simp add: paged_def)
    with tu show ?thesis by simp
  qed (use le in blast)
  moreover have "set out1 \<subseteq> M" using window_out [OF W] pg win by (auto simp: paged_def newest_of_def)
  ultimately show ?thesis using window_state [OF W] by (simp add: paged_def)
qed

lemma window_full:
  assumes W: "window M until cap evs out seen1 out1"
    and full: "cap \<le> length evs"
  shows "\<exists>t. oldest_of evs = Some t" "set evs \<subseteq> set out \<Longrightarrow> oldest_of evs = Some until"
proof -
  note inj = windowD(1) [OF W] and fin = windowD(2) [OF W] and cap = windowD(3) [OF W]
    and win = windowD(4) [OF W] and pg = windowD(5) [OF W] and tn = windowD(6) [OF W]
  have "evs \<noteq> []" using full cap by auto
  then obtain t where t: "oldest_of evs = Some t" using oldest_of_None by fastforce
  then show "\<exists>t. oldest_of evs = Some t" by blast
  assume sub: "set evs \<subseteq> set out"
  obtain w where w: "w \<in> set evs" "ev_created_at w = t" using oldest_of_Some [OF t] by auto
  then have "until \<le> t" using sub pg by (auto simp: paged_def)
  moreover have "t \<le> until" using w win by (auto simp: newest_of_def)
  ultimately show "oldest_of evs = Some until" using t by simp
qed

text \<open>The window a truthful relay returns for the loop's next request.\<close>

lemma truthful_window:
  assumes "truthful pool fetch" and "0 < cap" and "paged (matching pool authors k now) until out"
    and "until \<le> now"
    and "fetch \<lparr>f_authors = authors, f_kind = k, f_limit = cap, f_until = until\<rparr> s = (Inr evs, s1)"
    and "take_new evs (ev_id ` set out) out = (seen1, out1)"
  shows "window (matching pool authors k now) until cap evs out seen1 out1"
proof -
  have "{e \<in> matching pool authors k now. ev_created_at e \<le> until} = matching pool authors k until"
    using assms(4) by (auto simp: matching_def)
  moreover have "newest_of (matching pool authors k until) cap evs"
    using assms(1,5) unfolding truthful_def
    by (metis filter_req.select_convs fst_conv)
  moreover have "inj_on ev_id (matching pool authors k now)" "finite (matching pool authors k now)"
    using assms(1) by (auto simp: truthful_def matching_def intro: inj_on_subset)
  ultimately show ?thesis using assms(2,3,6) by (simp add: window_def)
qed

lemma window_until:
  assumes "window M until cap evs out seen1 out1" and "oldest_of evs = Some t"
  shows "t \<le> until"
  using oldest_of_Some [OF assms(2)] windowD(4) [OF assms(1)] by (auto simp: newest_of_def)

lemma window_none_new:
  assumes W: "window M until cap evs out seen1 out1" and "out1 = out" "cap \<le> length evs"
  shows "page_back (length evs) cap (oldest_of evs) = Some until"
    "set evs \<subseteq> {e \<in> M. ev_created_at e = until}"
proof -
  have sub: "set evs \<subseteq> set out" using window_out [OF W] assms(2) by blast
  then show "page_back (length evs) cap (oldest_of evs) = Some until"
    using window_full [OF W assms(3)] assms(3) by (simp add: page_back_def)
  show "set evs \<subseteq> {e \<in> M. ev_created_at e = until}"
  proof
    fix e assume e: "e \<in> set evs"
    then have "until \<le> ev_created_at e" using sub windowD(5) [OF W] by (auto simp: paged_def)
    moreover have "e \<in> M" "ev_created_at e \<le> until"
      using e windowD(4) [OF W] by (auto simp: newest_of_def)
    ultimately show "e \<in> {e \<in> M. ev_created_at e = until}" by simp
  qed
qed

lemma paginate_loop_complete:
  assumes tr: "truthful pool fetch" and cap: "0 < cap" and M: "M = matching pool authors k now"
    and "paged M until out" and "until \<le> now"
    and "paginate_loop authors k cap fetch pages until prev (ev_id ` set out) out s = (Inr res, s')"
  shows "set res = M \<and> distinct (map ev_id res)"
  using assms(4-6)
proof (induction "MAX_PAGES_PER_CHUNK - pages" arbitrary: pages until prev out s rule: less_induct)
  case less
  have pages: "\<not> pages \<ge> MAX_PAGES_PER_CHUNK"
    using less.prems(3) by (subst (asm) paginate_loop.simps) (auto split: if_splits)
  let ?f = "\<lparr>f_authors = authors, f_kind = k, f_limit = cap, f_until = until\<rparr>"
  obtain evs s1 where f: "fetch ?f s = (Inr evs, s1)"
    using less.prems(3) pages by (subst (asm) paginate_loop.simps) (auto split: prod.splits sum.splits)
  obtain seen1 out1 where tn: "take_new evs (ev_id ` set out) out = (seen1, out1)"
    by (cases "take_new evs (ev_id ` set out) out")
  have W: "window M until cap evs out seen1 out1"
    unfolding M using truthful_window [OF tr cap _ less.prems(2) f tn] less.prems(1) M by simp
  note st = window_state [OF W]
  have loop: "(if length out1 - length out = 0 then
      (if length evs \<ge> cap \<and> (prev = Some until \<or> page_back (length evs) cap (oldest_of evs) = Some until)
       then False else res = out1)
     else (case page_back (length evs) cap (oldest_of evs) of
       Some t \<Rightarrow> paginate_loop authors k cap fetch (Suc pages) t (Some until) seen1 out1 s1 = (Inr res, s')
     | None \<Rightarrow> res = out1))"
    using less.prems(3) pages f tn
    by (subst (asm) paginate_loop.simps) (auto simp: Let_def split: if_splits option.splits)
  show ?case
  proof (cases "length evs < cap")
    case True
    then have "page_back (length evs) cap (oldest_of evs) = None" by (simp add: page_back_def)
    with loop True have "res = out1" by (auto split: if_splits)
    with window_short [OF W True] st show ?thesis by simp
  next
    case False
    then have full: "cap \<le> length evs" by simp
    obtain t where t: "oldest_of evs = Some t" using window_full(1) [OF W full] by blast
    then have pb: "page_back (length evs) cap (oldest_of evs) = Some t"
      using full by (simp add: page_back_def)
    show ?thesis
    proof (cases "length out1 = length out")
      case True
      then have "out1 = out" using st(4) by blast
      with loop True full show ?thesis using window_none_new(1) [OF W] by simp
    next
      case new: False
      then have "length out1 - length out \<noteq> 0" using st(3) by simp
      with loop pb have "paginate_loop authors k cap fetch (Suc pages) t (Some until) seen1 out1 s1
          = (Inr res, s')" by simp
      moreover have "paged M t out1" by (rule window_back [OF W t])
      moreover have "t \<le> now" using window_until [OF W t] less.prems(2) by simp
      ultimately show ?thesis
        using less.hyps [of "Suc pages" t out1 "Some until" s1] pages st(1) by simp
    qed
  qed
qed

lemma paginate_loop_returns:
  assumes tr: "truthful pool fetch" and cap: "0 < cap" and M: "M = matching pool authors k now"
    and ans: "\<And>f s. \<exists>evs. fst (fetch f s) = Inr evs"
    and sparse: "\<And>t. card {e \<in> M. ev_created_at e = t} < cap"
    and "paged M until out" and "until \<le> now" and "pages + (card M - length out) < MAX_PAGES_PER_CHUNK"
  shows "\<exists>res s'. paginate_loop authors k cap fetch pages until prev (ev_id ` set out) out s = (Inr res, s')"
  using assms(6-8)
proof (induction "MAX_PAGES_PER_CHUNK - pages" arbitrary: pages until prev out s rule: less_induct)
  case less
  have pages: "\<not> pages \<ge> MAX_PAGES_PER_CHUNK" using less.prems(3) by simp
  then have dec: "MAX_PAGES_PER_CHUNK - Suc pages < MAX_PAGES_PER_CHUNK - pages" by arith
  let ?f = "\<lparr>f_authors = authors, f_kind = k, f_limit = cap, f_until = until\<rparr>"
  obtain evs s1 where f: "fetch ?f s = (Inr evs, s1)" using ans [of ?f s] by (metis prod.collapse)
  obtain seen1 out1 where tn: "take_new evs (ev_id ` set out) out = (seen1, out1)"
    by (cases "take_new evs (ev_id ` set out) out")
  have W: "window M until cap evs out seen1 out1"
    unfolding M using truthful_window [OF tr cap _ less.prems(2) f tn] less.prems(1) M by simp
  note st = window_state [OF W]
  have no_stall: "length evs < cap" if "length out1 - length out = 0"
  proof (rule ccontr)
    assume full: "\<not> length evs < cap"
    have "out1 = out" using that st(3,4) by simp
    then have "set evs \<subseteq> {e \<in> M. ev_created_at e = until}"
      using window_none_new(2) [OF W] full by simp
    then have "card (set evs) \<le> card {e \<in> M. ev_created_at e = until}"
      using windowD(2) [OF W] by (intro card_mono) auto
    moreover have "card (set evs) = length evs"
      using windowD(4) [OF W] by (simp add: newest_of_def distinct_card)
    ultimately show False using sparse [of until] full by simp
  qed
  show ?case
  proof (cases "page_back (length evs) cap (oldest_of evs)")
    case None
    then show ?thesis using pages f tn no_stall
      by (subst paginate_loop.simps) (auto simp: Let_def)
  next
    case (Some t)
    then have t: "oldest_of evs = Some t" and full: "\<not> length evs < cap"
      by (auto simp: page_back_def split: bool.splits option.splits)
    then have new: "length out1 - length out \<noteq> 0" using no_stall by blast
    have "set out1 \<subseteq> M" "distinct out1"
      using window_back [OF W t] by (auto simp: paged_def distinct_map)
    then have "length out1 \<le> card M"
      using windowD(2) [OF W] by (metis card_mono distinct_card)
    then have "Suc pages + (card M - length out1) < MAX_PAGES_PER_CHUNK"
      using new less.prems(3) by linarith
    moreover have "t \<le> now" using window_until [OF W t] less.prems(2) by simp
    ultimately obtain res s' where
      "paginate_loop authors k cap fetch (Suc pages) t (Some until) (ev_id ` set out1) out1 s1 = (Inr res, s')"
      using less.hyps [OF dec window_back [OF W t], of "Some until" s1] by blast
    then show ?thesis using pages f tn new Some st(1)
      by (subst paginate_loop.simps) (auto simp: Let_def)
  qed
qed

section \<open>The whole fetch\<close>

lemma truthful_gated: "truthful pool fetch \<Longrightarrow> truthful pool (gated url fetch)"
  unfolding truthful_def gated_def Let_def by (simp add: case_prod_beta)

text \<open>The client of a truthful relay: an answer within the deadline is complete.\<close>

definition client_truthful :: "event set \<Rightarrow> duration \<Rightarrow> 's client \<Rightarrow> bool" where
  "client_truthful pool timeout client \<longleftrightarrow> finite pool \<and> inj_on ev_id pool \<and>
     (\<forall>f s evs d s1. cl_fetch_events client f timeout s = (Inr evs, d, s1) \<and> d < timeout \<longrightarrow>
        newest_of (matching pool (f_authors f) (f_kind f) (f_until f)) (f_limit f) evs)"

lemma truthful_deadline:
  assumes "client_truthful pool timeout client"
  shows "truthful pool (fetch_window_with_deadline timeout label
    (\<lambda>f s. case cl_fetch_events client f timeout s of
       (Inl e, d, s1) \<Rightarrow> (Inl (Client e), d, s1) | (Inr events, d, s1) \<Rightarrow> (Inr events, d, s1)))"
  using assms unfolding client_truthful_def truthful_def fetch_window_with_deadline_def
  by (fastforce split: prod.splits sum.splits if_splits)

lemma set_chunks_fuel: "0 < k \<Longrightarrow> length xs \<le> n \<Longrightarrow> \<Union>(set ` set (chunks_fuel n k xs)) = set xs"
proof (induction n k xs rule: chunks_fuel.induct)
  case (2 n k xs)
  then show ?case
    using set_append [of "take k xs" "drop k xs"] by (cases xs) (auto simp del: set_append)
qed simp

lemma set_chunks: "0 < k \<Longrightarrow> \<Union>(set ` set (chunks k xs)) = set xs"
  by (simp add: chunks_def set_chunks_fuel)

lemma paged_start: "paged (matching pool authors k now) now []"
  by (auto simp: paged_def matching_def)

lemma paginate_chunk_complete:
  assumes "truthful pool fetch" and "0 < cap"
    and "paginate_chunk now authors k cap fetch s = (Inr res, s')"
  shows "set res = matching pool authors k now \<and> distinct (map ev_id res)"
  using paginate_loop_complete [OF assms(1,2) refl paged_start, where prev = None] assms(3)
  by (simp add: paginate_chunk_def)

lemma fetch_chunks_complete:
  assumes "truthful pool fetch" and "0 < cap"
    and "fetch_chunks now k cap url fetch cs all st = (Inr res, st')"
  shows "set res = set all \<union> (\<Union>c \<in> set cs. matching pool c k now)"
  using assms(3)
proof (induction cs arbitrary: all st)
  case (Cons c cs)
  then obtain evs st1 where p: "paginate_chunk_gated now c k cap url fetch st = (Inr evs, st1)"
    and r: "fetch_chunks now k cap url fetch cs (all @ evs) st1 = (Inr res, st')"
    by (auto split: prod.splits sum.splits)
  have "set evs = matching pool c k now"
    using paginate_chunk_complete [OF truthful_gated [OF assms(1)] assms(2)] p
    by (simp add: paginate_chunk_gated_def)
  with Cons.IH [OF r] show ?case by auto
qed simp

lemma fetch_complete_set:
  assumes "client_truthful pool timeout client"
    and "fetch_complete_with_timeout now client relay_url authors k max_limit max_authors timeout st
      = (Inr res, st')"
  shows "set res = matching pool authors k now"
proof -
  let ?cs = "chunks (max max_authors 1) authors"
  have "set res = (\<Union>c \<in> set ?cs. matching pool c k now)"
    using fetch_chunks_complete [OF truthful_deadline [OF assms(1)], of "max max_limit 1"] assms(2)
    unfolding fetch_complete_with_timeout_def Let_def by fastforce
  also have "\<dots> = {e \<in> pool. ev_pubkey e \<in> \<Union>(set ` set ?cs) \<and> ev_kind e = k \<and> ev_created_at e \<le> now}"
    by (auto simp: matching_def)
  also have "\<Union>(set ` set ?cs) = set authors" by (rule set_chunks) simp
  finally show ?thesis by (simp add: matching_def)
qed

text \<open>What every window keeps of the fetch's state, the loops keep.\<close>

lemma paginate_loop_keeps:
  assumes "\<And>f s. I s \<Longrightarrow> I (snd (fetch f s))" and "I s"
  shows "I (snd (paginate_loop authors k cap fetch pages until prev seen out s))"
  using assms(2)
proof (induction "MAX_PAGES_PER_CHUNK - pages" arbitrary: pages until prev seen out s rule: less_induct)
  case less
  show ?case
  proof (cases "pages \<ge> MAX_PAGES_PER_CHUNK")
    case True
    then show ?thesis using less.prems by (subst paginate_loop.simps) simp
  next
    case False
    obtain r s1 where f: "fetch \<lparr>f_authors = authors, f_kind = k, f_limit = cap, f_until = until\<rparr> s
        = (r, s1)" by fastforce
    have s1: "I s1" using assms(1) [OF less.prems] f by (metis snd_conv)
    have IH: "I (snd (paginate_loop authors k cap fetch (Suc pages) t p seen' out' s1))" for t p seen' out'
      by (rule less.hyps) (use False s1 in auto)
    show ?thesis using False s1 IH f
      by (subst paginate_loop.simps) (auto simp: Let_def split: sum.split prod.split option.split)
  qed
qed

lemma fetch_chunks_keeps:
  assumes "\<And>f s. I s \<Longrightarrow> I (snd (gated url fetch f s))" and "I st"
  shows "I (snd (fetch_chunks now k cap url fetch cs all st))"
  using assms(2)
proof (induction cs arbitrary: all st)
  case (Cons c cs)
  obtain r st1 where p: "paginate_chunk_gated now c k cap url fetch st = (r, st1)"
    by (cases "paginate_chunk_gated now c k cap url fetch st")
  then have "I st1"
    using paginate_loop_keeps [of I "gated url fetch", OF assms(1) Cons.prems]
    by (metis paginate_chunk_def paginate_chunk_gated_def snd_conv)
  with Cons p show ?case by (auto split: sum.split)
qed simp

section \<open>A hostile relay\<close>

text \<open>The same fetch, counting its requests and keeping every event it was sent.\<close>

definition logged :: "'s window_fetch \<Rightarrow> (nat \<times> event list \<times> 's) window_fetch" where
  "logged fetch f st =
     (let (n, sent, s) = st; (r, s1) = fetch f s
      in (r, (Suc n, sent @ (case r of Inl _ \<Rightarrow> [] | Inr evs \<Rightarrow> evs), s1)))"

lemma logged_loop:
  assumes "paginate_loop authors k cap (logged fetch) pages until prev (ev_id ` set out) out (n, sent, s)
      = (r, (n', sent', s'))"
    and "distinct (map ev_id out)" and "set out \<subseteq> set sent"
  shows "n' \<le> n + (MAX_PAGES_PER_CHUNK - pages)
    \<and> (\<forall>res. r = Inr res \<longrightarrow> distinct (map ev_id res) \<and> set res \<subseteq> set sent')"
  using assms
proof (induction "MAX_PAGES_PER_CHUNK - pages" arbitrary: pages until prev out n sent s rule: less_induct)
  case less
  show ?case
  proof (cases "pages \<ge> MAX_PAGES_PER_CHUNK")
    case True
    then show ?thesis using less.prems(1) by (subst (asm) paginate_loop.simps) auto
  next
    case pages: False
    let ?f = "\<lparr>f_authors = authors, f_kind = k, f_limit = cap, f_until = until\<rparr>"
    obtain a s1 where f: "fetch ?f s = (a, s1)" by (cases "fetch ?f s")
    show ?thesis
    proof (cases a)
      case (Inl e)
      then show ?thesis using less.prems(1) pages f
        by (subst (asm) paginate_loop.simps) (auto simp: logged_def)
    next
      case (Inr evs)
      obtain seen1 out1 where tn: "take_new evs (ev_id ` set out) out = (seen1, out1)"
        by (cases "take_new evs (ev_id ` set out) out")
      note st = take_new_spec [OF tn refl less.prems(2)]
      have sub: "set out1 \<subseteq> set (sent @ evs)" using st less.prems(3) by auto
      show ?thesis
      proof (cases "length out1 - length out = 0 \<or> page_back (length evs) cap (oldest_of evs) = None")
        case True
        then have "n' = Suc n \<and> sent' = sent @ evs \<and> (\<forall>res. r = Inr res \<longrightarrow> res = out1)"
          using less.prems(1) pages f Inr tn
          by (subst (asm) paginate_loop.simps)
            (auto simp: logged_def Let_def split: if_splits option.splits)
        then show ?thesis using sub st pages by auto
      next
        case False
        then obtain t where "paginate_loop authors k cap (logged fetch) (Suc pages) t (Some until)
            (ev_id ` set out1) out1 (Suc n, sent @ evs, s1) = (r, (n', sent', s'))"
          using less.prems(1) pages f Inr tn st
          by (subst (asm) paginate_loop.simps)
            (auto simp: logged_def Let_def split: if_splits option.splits)
        from less.hyps [OF _ this] st sub pages show ?thesis by fastforce
      qed
    qed
  qed
qed

section \<open>Properties\<close>

text \<open>
  C18. A chunk is never silently short: against a relay that truthfully returns its newest
  matching events up to the limit, however it breaks ties, a successful page loop has found
  every stored event of the requested authors and kind up to now, each once, whatever the
  page limit; where the boundary second hides events the loop reports an error instead.
\<close>

theorem pagination_never_short:
  assumes "truthful pool fetch" and "0 < cap"
    and "paginate_chunk now authors k cap fetch s = (Inr res, s')"
  shows "distinct (map ev_id res)
    \<and> set res = {e \<in> pool. ev_pubkey e \<in> set authors \<and> ev_kind e = k \<and> ev_created_at e \<le> now}"
  using paginate_chunk_complete [OF assms] by (simp add: matching_def)

text \<open>A relay that stores one event.\<close>

definition demo_page :: event where
  "demo_page = \<lparr>ev_id = 1, ev_pubkey = 7, ev_created_at = 10, ev_kind = ContactList,
     ev_tags = [], ev_content = [], ev_sig = []\<rparr>"

definition demo_fetch :: "unit window_fetch" where
  "demo_fetch f s =
     (Inr (take (f_limit f) (filter (\<lambda>e. ev_pubkey e \<in> set (f_authors f) \<and> ev_kind e = f_kind f
        \<and> ev_created_at e \<le> f_until f) [demo_page])), s)"

lemma newest_single:
  "newest_of (matching {e} a k u) n
    (take n (filter (\<lambda>e. ev_pubkey e \<in> set a \<and> ev_kind e = k \<and> ev_created_at e \<le> u) [e]))"
proof -
  have m: "matching {e} a k u
      = (if ev_pubkey e \<in> set a \<and> ev_kind e = k \<and> ev_created_at e \<le> u then {e} else {})"
    by (auto simp: matching_def)
  show ?thesis unfolding m newest_of_def by (cases n) auto
qed

lemma demo_truthful: "truthful {demo_page} demo_fetch"
  using newest_single [of demo_page] by (simp add: truthful_def demo_fetch_def)

lemma demo_chunk: "paginate_chunk 100 [7] ContactList 2 demo_fetch () = (Inr [demo_page], ())"
  unfolding paginate_chunk_def
  by (subst paginate_loop.simps)
    (simp add: MAX_PAGES_PER_CHUNK_def demo_fetch_def demo_page_def oldest_of_def page_back_def Let_def)

theorem pagination_never_short_witness:
  "\<exists>res s'. paginate_chunk 100 [7] ContactList 2 demo_fetch () = (Inr res, s') \<and> demo_page \<in> set res"
  using pagination_never_short [OF demo_truthful _ demo_chunk] demo_chunk by (simp add: demo_page_def)

text \<open>
  C35. And it is not all errors: against such a relay that always answers, with fewer events
  of any one second than the page limit and fewer than 10000 in all, the loop does return.
\<close>

theorem pagination_returns:
  assumes "truthful pool fetch" and "0 < cap" and "\<And>f s. \<exists>evs. fst (fetch f s) = Inr evs"
    and "\<And>t. card {e \<in> matching pool authors k now. ev_created_at e = t} < cap"
    and "card (matching pool authors k now) < 10000"
  shows "\<exists>res s'. paginate_chunk now authors k cap fetch s = (Inr res, s')"
proof -
  have "0 + (card (matching pool authors k now) - length []) < MAX_PAGES_PER_CHUNK"
    using assms(5) by (simp add: MAX_PAGES_PER_CHUNK_def)
  from paginate_loop_returns [OF assms(1,2) refl assms(3,4) paged_start order_refl this]
  show ?thesis by (simp add: paginate_chunk_def)
qed

theorem pagination_returns_witness:
  "\<exists>res s'. paginate_chunk 100 [7] ContactList 2 demo_fetch () = (Inr res, s')"
proof (rule pagination_returns [OF demo_truthful])
  show "\<exists>evs. fst (demo_fetch f s) = Inr evs" for f s by (simp add: demo_fetch_def)
  have sub: "matching {demo_page} [7] ContactList 100 \<subseteq> {demo_page}" by (auto simp: matching_def)
  have "card {e \<in> matching {demo_page} [7] ContactList 100. ev_created_at e = t} \<le> card {demo_page}" for t
    by (rule card_mono) (use sub in auto)
  then have "card {e \<in> matching {demo_page} [7] ContactList 100. ev_created_at e = t} \<le> 1" for t
    by simp
  then show "card {e \<in> matching {demo_page} [7] ContactList 100. ev_created_at e = t} < 2" for t
    by (rule le_less_trans) simp
  have "card (matching {demo_page} [7] ContactList 100) \<le> card {demo_page}"
    by (rule card_mono) (use sub in auto)
  then show "card (matching {demo_page} [7] ContactList 100) < 10000" by simp
qed simp

text \<open>
  The same holds of the whole fetch, through the chunks of authors, the rate limiter and
  the deadline: if the relay's answers are complete whenever they arrive in time, a successful
  fetch has every stored event of the authors; a page size or chunk size of zero does not
  change that.
\<close>

theorem fetch_complete_never_short:
  assumes "client_truthful pool timeout client"
    and "fetch_complete_with_timeout now client relay_url authors k max_limit max_authors timeout st
      = (Inr res, st')"
  shows "set res = {e \<in> pool. ev_pubkey e \<in> set authors \<and> ev_kind e = k \<and> ev_created_at e \<le> now}"
  using fetch_complete_set [OF assms] by (simp add: matching_def)

definition demo_client :: "unit client" where
  "demo_client = \<lparr>cl_relays = [], cl_fetch_events = (\<lambda>f t s.
     (Inr (take (f_limit f) (filter (\<lambda>e. ev_pubkey e \<in> set (f_authors f) \<and> ev_kind e = f_kind f
        \<and> ev_created_at e \<le> f_until f) [demo_page])), 0, s))\<rparr>"

lemma demo_complete:
  "fst (fetch_complete_with_timeout 100 demo_client [119] [7] ContactList 2 500 5 (limiter_new, ()))
     = Inr [demo_page]"
  by (simp add: fetch_complete_with_timeout_def chunks_def paginate_chunk_gated_def paginate_chunk_def
      Let_def)
    (subst paginate_loop.simps,
     simp add: MAX_PAGES_PER_CHUNK_def gated_def fetch_window_with_deadline_def demo_client_def
       demo_page_def oldest_of_def page_back_def Let_def)

theorem fetch_complete_never_short_witness:
  "\<exists>res st'. fetch_complete_with_timeout 100 demo_client [119] [7] ContactList 2 500 5 (limiter_new, ())
      = (Inr res, st') \<and> demo_page \<in> set res"
proof -
  obtain st' where f: "fetch_complete_with_timeout 100 demo_client [119] [7] ContactList 2 500 5
      (limiter_new, ()) = (Inr [demo_page], st')"
    using demo_complete by (metis prod.collapse)
  have "client_truthful {demo_page} 5 demo_client"
    using newest_single [of demo_page] by (simp add: client_truthful_def demo_client_def)
  from fetch_complete_never_short [OF this f] have "demo_page \<in> set [demo_page]"
    by (auto simp: demo_page_def)
  with f show ?thesis by blast
qed

text \<open>
  Whatever the relay does (a hostile one that ignores the limit and the time bound, repeats
  or invents events, or never runs dry), one chunk makes at most 10000 requests, and what it
  returns holds each event id once and only events it was sent.
\<close>

theorem pagination_hostile:
  "case paginate_chunk now authors k cap (logged fetch) (0, [], s) of
     (r, n, sent, _) \<Rightarrow> n \<le> 10000
       \<and> (case r of Inl _ \<Rightarrow> True | Inr res \<Rightarrow> distinct (map ev_id res) \<and> set res \<subseteq> set sent)"
proof -
  obtain r n sent s' where p: "paginate_chunk now authors k cap (logged fetch) (0, [], s) = (r, n, sent, s')"
    by (metis prod.collapse)
  then have "n \<le> 0 + (MAX_PAGES_PER_CHUNK - 0)
      \<and> (\<forall>res. r = Inr res \<longrightarrow> distinct (map ev_id res) \<and> set res \<subseteq> set sent)"
    by (intro logged_loop [where out = "[]"]) (auto simp: paginate_chunk_def)
  with p show ?thesis by (auto simp: MAX_PAGES_PER_CHUNK_def split: sum.split)
qed

end
