(* ===== verification/Nip11.thy ===== *)
theory Nip11 imports Errors begin

text \<open>
  \<open>src/relay/nip11.rs\<close>: the limits a relay advertises, clamped to usable values, the bounded
  download of its document, and the cache. The HTTP client and the parser of the document
  are outside: a response is the list of its body chunks, the parser a parameter. \<open>memo\<close> is
  the contract of a cache that is filled once per key.
\<close>

section \<open>Limits\<close>

definition MAX_NIP11_BYTES :: nat where "MAX_NIP11_BYTES = 64 * 1024"
definition DEFAULT_MAX_LIMIT :: nat where "DEFAULT_MAX_LIMIT = 500"
definition DEFAULT_MAX_SUBSCRIPTIONS :: nat where "DEFAULT_MAX_SUBSCRIPTIONS = 20"
definition DEFAULT_MAX_FILTERS :: nat where "DEFAULT_MAX_FILTERS = 10"
definition MAX_ADVERTISED_LIMIT :: nat where "MAX_ADVERTISED_LIMIT = 5000"

record relay_limits =
  max_limit :: nat
  max_subscriptions :: nat
  max_filters :: nat

definition limits_defaults :: relay_limits where
  "limits_defaults = \<lparr>max_limit = DEFAULT_MAX_LIMIT, max_subscriptions = DEFAULT_MAX_SUBSCRIPTIONS,
     max_filters = DEFAULT_MAX_FILTERS\<rparr>"

text \<open>The document's \<open>limitation\<close> block, as the parser returns it: optional \<open>i32\<close> fields.\<close>

record limitation =
  lim_max_limit :: "32 word option"
  lim_max_subscriptions :: "32 word option"
  lim_max_filters :: "32 word option"

definition clamp_limit :: "32 word option \<Rightarrow> nat \<Rightarrow> nat" where
  "clamp_limit advertised dflt =
     (case advertised of
        Some v \<Rightarrow> if 0 < sint v then nat (sint v) else dflt
      | None \<Rightarrow> dflt)"

definition clamp_max_limit :: "32 word option \<Rightarrow> nat" where
  "clamp_max_limit advertised = min (clamp_limit advertised DEFAULT_MAX_LIMIT) MAX_ADVERTISED_LIMIT"

definition limits_from_doc :: "limitation option \<Rightarrow> relay_limits" where
  "limits_from_doc doc =
     (case doc of
        None \<Rightarrow> limits_defaults
      | Some lim \<Rightarrow>
          \<lparr>max_limit = clamp_max_limit (lim_max_limit lim),
           max_subscriptions = clamp_limit (lim_max_subscriptions lim) DEFAULT_MAX_SUBSCRIPTIONS,
           max_filters = clamp_limit (lim_max_filters lim) DEFAULT_MAX_FILTERS\<rparr>)"

section \<open>From the body to the limits\<close>

text \<open>
  \<open>String::from_utf8_lossy\<close>: each maximal ill-formed part becomes U+FFFD. A lead byte fixes the
  ranges of the bytes that may follow.
\<close>

definition cont_ranges :: "nat \<Rightarrow> (nat \<times> nat) list" where
  "cont_ranges b =
     (if 194 \<le> b \<and> b \<le> 223 then [(128, 191)]
      else if b = 224 then [(160, 191), (128, 191)]
      else if 225 \<le> b \<and> b \<le> 236 \<or> b = 238 \<or> b = 239 then [(128, 191), (128, 191)]
      else if b = 237 then [(128, 159), (128, 191)]
      else if b = 240 then [(144, 191), (128, 191), (128, 191)]
      else if 241 \<le> b \<and> b \<le> 243 then [(128, 191), (128, 191), (128, 191)]
      else if b = 244 then [(128, 143), (128, 191), (128, 191)]
      else [])"

fun take_cont :: "(nat \<times> nat) list \<Rightarrow> nat list \<Rightarrow> nat \<Rightarrow> nat \<Rightarrow> nat option \<times> nat" where
  "take_cont [] bs v k = (Some v, k)"
| "take_cont ((lo, hi) # rs) [] v k = (None, k)"
| "take_cont ((lo, hi) # rs) (b # bs) v k =
     (if lo \<le> b \<and> b \<le> hi then take_cont rs bs (v * 64 + b mod 64) (Suc k) else (None, k))"

definition lead_bits :: "nat \<Rightarrow> nat" where
  "lead_bits b = (if b < 224 then b mod 32 else if b < 240 then b mod 16 else b mod 8)"

definition utf8_step :: "nat \<Rightarrow> nat list \<Rightarrow> nat \<times> nat" where
  "utf8_step b bs =
     (if b < 128 then (b, 0)
      else if cont_ranges b = [] then (65533, 0)
      else case take_cont (cont_ranges b) bs (lead_bits b) 0 of
             (Some v, k) \<Rightarrow> (v, k) | (None, k) \<Rightarrow> (65533, k))"

fun from_utf8_lossy :: "nat list \<Rightarrow> ustring" where
  "from_utf8_lossy [] = []"
| "from_utf8_lossy (b # bs) =
     fst (utf8_step b bs) # from_utf8_lossy (drop (snd (utf8_step b bs)) bs)"

text \<open>The JSON parser returns the limitation block of the document, or its error's text.\<close>

type_synonym doc_parser = "ustring \<Rightarrow> ustring + limitation option"

definition limits_from_json :: "doc_parser \<Rightarrow> ustring \<Rightarrow> relay_error + relay_limits" where
  "limits_from_json parse body =
     (case parse body of
        Inl e \<Rightarrow> Inl (Nip11Fetch (lit ''<json>'') (lit ''invalid NIP-11 document: '' @ e))
      | Inr doc \<Rightarrow> Inr (limits_from_doc doc))"

definition limits_from_bytes ::
  "doc_parser \<Rightarrow> ustring \<Rightarrow> byte list \<Rightarrow> relay_error + relay_limits" where
  "limits_from_bytes parse relay_url body =
     (if length body > MAX_NIP11_BYTES then
        Inl (Nip11Fetch relay_url (lit ''NIP-11 body of '' @ dec (length body)
          @ lit '' bytes exceeds MAX_NIP11_BYTES ('' @ dec MAX_NIP11_BYTES @ lit '')''))
      else limits_from_json parse (from_utf8_lossy (map unat body)))"

definition strip_prefix :: "ustring \<Rightarrow> ustring \<Rightarrow> ustring option" where
  "strip_prefix p s = (if take (length p) s = p then Some (drop (length p) s) else None)"

definition nip11_http_url :: "ustring \<Rightarrow> ustring" where
  "nip11_http_url relay_url =
     (case strip_prefix (lit ''wss://'') relay_url of
        Some rest \<Rightarrow> lit ''https://'' @ rest
      | None \<Rightarrow>
          (case strip_prefix (lit ''ws://'') relay_url of
             Some rest \<Rightarrow> lit ''http://'' @ rest
           | None \<Rightarrow> relay_url))"

section \<open>The bounded download\<close>

text \<open>A response: the request's failure, or the body's chunks, each of which may fail.\<close>

type_synonym response = "ustring + (ustring + byte list) list"

fun read_body ::
  "ustring \<Rightarrow> (ustring + byte list) list \<Rightarrow> byte list \<Rightarrow> relay_error + byte list" where
  "read_body relay_url [] body = Inr body"
| "read_body relay_url (Inl e # chunks) body =
     Inl (Nip11Fetch relay_url (lit ''reading response body failed: '' @ e))"
| "read_body relay_url (Inr bytes # chunks) body =
     (if length body + length bytes > MAX_NIP11_BYTES then
        Inl (Nip11Fetch relay_url (lit ''NIP-11 body exceeds MAX_NIP11_BYTES (''
          @ dec MAX_NIP11_BYTES @ lit '')''))
      else read_body relay_url chunks (body @ bytes))"

definition fetch_limits ::
  "(ustring \<Rightarrow> response) \<Rightarrow> doc_parser \<Rightarrow> ustring \<Rightarrow> relay_error + relay_limits" where
  "fetch_limits http_get parse relay_url =
     (case http_get (nip11_http_url relay_url) of
        Inl e \<Rightarrow> Inl (Nip11Fetch relay_url (lit ''HTTP request failed: '' @ e))
      | Inr chunks \<Rightarrow>
          (case read_body relay_url chunks [] of
             Inl e \<Rightarrow> Inl e
           | Inr body \<Rightarrow>
               (case limits_from_bytes parse relay_url body of
                  Inl _ \<Rightarrow> Inl (Nip11Fetch relay_url
                    (lit ''response was not a valid bounded NIP-11 document''))
                | Inr limits \<Rightarrow> Inr limits)))"

section \<open>The cache\<close>

type_synonym limit_cache = "ustring \<Rightarrow> relay_limits option"

definition get_or_fetch ::
  "(ustring \<Rightarrow> response) \<Rightarrow> doc_parser \<Rightarrow> ustring \<Rightarrow> limit_cache \<Rightarrow> relay_limits \<times> limit_cache" where
  "get_or_fetch http_get parse relay_url cache =
     (case cache relay_url of
        Some limits \<Rightarrow> (limits, cache)
      | None \<Rightarrow>
          (let limits = (case fetch_limits http_get parse relay_url of
                           Inr l \<Rightarrow> l | Inl _ \<Rightarrow> limits_defaults)
           in (limits, cache(relay_url \<mapsto> limits))))"

definition cache_insert ::
  "ustring \<Rightarrow> relay_limits \<Rightarrow> limit_cache \<Rightarrow> relay_limits option \<times> limit_cache" where
  "cache_insert relay_url limits cache = (cache relay_url, cache(relay_url \<mapsto> limits))"

locale memo =
  fixes look :: "'s \<Rightarrow> 'k \<Rightarrow> 'v option"
    and get :: "'e \<Rightarrow> 'k \<Rightarrow> 's \<Rightarrow> 'v \<times> 's"
  assumes get_hit: "look s k = Some v \<Longrightarrow> get e k s = (v, s)"
    and get_fills: "look (snd (get e k s)) k = Some (fst (get e k s))"
    and get_others: "k' \<noteq> k \<Longrightarrow> look (snd (get e k s)) k' = look s k'"
begin

fun get_all :: "('e \<times> 'k) list \<Rightarrow> 's \<Rightarrow> 'v list \<times> 's" where
  "get_all [] s = ([], s)"
| "get_all ((e, k) # xs) s =
     (let (v, s1) = get e k s; (vs, s2) = get_all xs s1 in (v # vs, s2))"

lemma look_get: "look s k = Some v \<Longrightarrow> look (snd (get e k' s)) k = Some v"
  using get_hit [of s k v e] get_others [of k k' e s] by (cases "k = k'") auto

lemma look_get_all: "look s k = Some v \<Longrightarrow> look (snd (get_all xs s)) k = Some v"
proof (induction xs arbitrary: s)
  case (Cons x xs)
  obtain e k' where x: "x = (e, k')" by (cases x)
  obtain v1 s1 where g: "get e k' s = (v1, s1)" by (cases "get e k' s")
  have "look s1 k = Some v" using look_get [OF Cons.prems, of e k'] g by simp
  with Cons.IH [of s1] x g show ?case by (simp add: case_prod_beta)
qed simp

text \<open>Once a key has been asked for, every later answer for it is the first one.\<close>

lemma get_again:
  assumes "get e k s = (v, s1)"
  shows "fst (get e' k (snd (get_all xs s1))) = v"
proof -
  have "look s1 k = Some v" using get_fills [of e k s] assms by simp
  then show ?thesis using look_get_all get_hit by (metis fst_conv)
qed

end

interpretation limit_cache: memo "\<lambda>s k. s k" "\<lambda>(http_get, parse). get_or_fetch http_get parse"
  by unfold_locales (auto simp: get_or_fetch_def Let_def split: option.splits prod.splits sum.splits)

section \<open>Properties\<close>

definition usable :: "relay_limits \<Rightarrow> bool" where
  "usable l \<longleftrightarrow> 1 \<le> max_limit l \<and> max_limit l \<le> MAX_ADVERTISED_LIMIT
     \<and> 1 \<le> max_subscriptions l \<and> 1 \<le> max_filters l"

lemmas nip11_consts = MAX_NIP11_BYTES_def DEFAULT_MAX_LIMIT_def DEFAULT_MAX_SUBSCRIPTIONS_def
  DEFAULT_MAX_FILTERS_def MAX_ADVERTISED_LIMIT_def

lemma clamp_limit_pos: "0 < dflt \<Longrightarrow> 0 < clamp_limit a dflt"
  by (auto simp: clamp_limit_def split: option.split)

lemma usable_defaults: "usable limits_defaults"
  by (simp add: usable_def limits_defaults_def nip11_consts)

lemma usable_from_doc: "usable (limits_from_doc doc)"
proof (cases doc)
  case None
  then show ?thesis by (simp add: limits_from_doc_def usable_defaults)
next
  case (Some lim)
  have "0 < clamp_max_limit (lim_max_limit lim)"
    using clamp_limit_pos [of DEFAULT_MAX_LIMIT] by (simp add: clamp_max_limit_def nip11_consts)
  with Some show ?thesis
    using clamp_limit_pos [of DEFAULT_MAX_SUBSCRIPTIONS] clamp_limit_pos [of DEFAULT_MAX_FILTERS]
    by (simp add: limits_from_doc_def usable_def clamp_max_limit_def nip11_consts Suc_le_eq)
qed

lemma usable_fetch: "fetch_limits http_get parse url = Inr l \<Longrightarrow> usable l"
  by (auto simp: fetch_limits_def limits_from_bytes_def limits_from_json_def usable_from_doc
      split: sum.splits if_splits)

text \<open>
  C39. Whatever a relay serves, a forged, absurd or missing document included, the limits the
  crawler works with are usable: a page size between 1 and 5000 and at least one subscription
  and one filter; an honest page size in that range is taken as it is.
\<close>

theorem nip11_limits_usable:
  "(case get_or_fetch http_get parse relay_url (\<lambda>_. None) of (l, cache) \<Rightarrow>
      1 \<le> max_limit l \<and> max_limit l \<le> 5000 \<and> 1 \<le> max_subscriptions l \<and> 1 \<le> max_filters l
      \<and> cache relay_url = Some l)
   \<and> (lim_max_limit lim = Some v \<and> 1 \<le> sint v \<and> sint v \<le> 5000 \<longrightarrow>
      int (max_limit (limits_from_doc (Some lim))) = sint v)"
proof
  obtain l cache where g: "get_or_fetch http_get parse relay_url (\<lambda>_. None) = (l, cache)"
    by (cases "get_or_fetch http_get parse relay_url (\<lambda>_. None)")
  then have "usable l" "cache relay_url = Some l"
    using usable_fetch usable_defaults
    by (auto simp: get_or_fetch_def Let_def split: sum.splits)
  with g show "case get_or_fetch http_get parse relay_url (\<lambda>_. None) of (l, cache) \<Rightarrow>
      1 \<le> max_limit l \<and> max_limit l \<le> 5000 \<and> 1 \<le> max_subscriptions l \<and> 1 \<le> max_filters l
      \<and> cache relay_url = Some l"
    by (simp add: usable_def nip11_consts)
  show "lim_max_limit lim = Some v \<and> 1 \<le> sint v \<and> sint v \<le> 5000 \<longrightarrow>
      int (max_limit (limits_from_doc (Some lim))) = sint v"
    by (auto simp: limits_from_doc_def clamp_max_limit_def clamp_limit_def nip11_consts)
qed

theorem nip11_limits_usable_witness:
  "max_limit (limits_from_doc (Some \<lparr>lim_max_limit = Some 300, lim_max_subscriptions = None,
      lim_max_filters = Some (- 1)\<rparr>)) = 300"
  using nip11_limits_usable [where v = 300 and lim = "\<lparr>lim_max_limit = Some 300,
      lim_max_subscriptions = None, lim_max_filters = Some (- 1)\<rparr>"]
  by simp

lemma read_body_Inr:
  "length body \<le> MAX_NIP11_BYTES \<Longrightarrow>
    read_body url chunks body = Inr b \<longleftrightarrow>
      (\<exists>bss. chunks = map Inr bss \<and> b = body @ concat bss \<and> length b \<le> MAX_NIP11_BYTES)"
proof (induction url chunks body rule: read_body.induct)
  case (2 url e chunks body)
  then show ?case by (auto simp: Cons_eq_map_conv)
next
  case (3 url bytes chunks body)
  show ?case
  proof (cases "length body + length bytes > MAX_NIP11_BYTES")
    case True
    then have "\<not> length (body @ concat (bytes # bss)) \<le> MAX_NIP11_BYTES" for bss by simp
    with True show ?thesis by (auto simp: Cons_eq_map_conv)
  next
    case False
    with "3" show ?thesis by (force simp: Cons_eq_map_conv)
  qed
qed auto

text \<open>
  The download is bounded and exact: it succeeds exactly when no chunk fails and the whole
  body fits in 64 KiB, and then yields the body; a longer stream is refused at the chunk that
  would exceed the bound, so never more than that is held.
\<close>

theorem nip11_body_bounded:
  "(read_body url chunks [] = Inr b \<longleftrightarrow>
      (\<exists>bss. chunks = map Inr bss \<and> b = concat bss) \<and> length b \<le> 65536)
   \<and> (length b \<le> 65536 \<and> 65536 < length b + length bytes \<longrightarrow>
      (\<exists>e. read_body url (Inr bytes # chunks) b = Inl e))"
  using read_body_Inr [of "[]" url chunks b] by (auto simp: nip11_consts)

theorem nip11_body_bounded_witness:
  "\<exists>e. read_body [] [Inr (replicate 2 0)] (replicate 65535 0) = Inl e"
  using nip11_body_bounded [where url = "[]" and chunks = "[]" and b = "replicate 65535 0"
      and bytes = "replicate 2 0"] by simp

text \<open>
  A relay is asked once: after its first answer, or its first failure, every later lookup
  returns the same limits, whatever the relay would serve by then and whichever other relays
  were looked up in between.
\<close>

theorem nip11_cached_once:
  assumes "get_or_fetch http_get parse relay_url cache = (l, cache1)"
  shows "fst (get_or_fetch http_get' parse' relay_url (snd (limit_cache.get_all lookups cache1))) = l"
  using limit_cache.get_again [of "(http_get, parse)" relay_url cache l cache1 "(http_get', parse')"
      lookups] assms
  by simp

theorem nip11_cached_once_witness:
  "\<exists>cache1. get_or_fetch (\<lambda>_. Inl []) (\<lambda>_. Inl []) [7] (\<lambda>_. None) = (limits_defaults, cache1)
    \<and> fst (get_or_fetch (\<lambda>_. Inr []) (\<lambda>_. Inr None) [7] cache1) = limits_defaults"
proof -
  obtain cache1 where c: "get_or_fetch (\<lambda>_. Inl []) (\<lambda>_. Inl []) [7] (\<lambda>_. None) = (limits_defaults, cache1)"
    by (simp add: get_or_fetch_def fetch_limits_def)
  show ?thesis
    using nip11_cached_once [OF c, of "\<lambda>_. Inr []" "\<lambda>_. Inr None" "[]"] c by simp
qed

end
