(* ===== verification/Relay_Seam.thy ===== *)
theory Relay_Seam imports Ingest Paginate Nip11 begin

text \<open>
  \<open>src/relay/mod.rs\<close>: the seam between fetching and the validation gate, the acquisition from
  one relay with its limiter and its advertised limits, and the routing of relay notices. The
  lemmas compose the two halves: what a truthful relay stores is what comes out, newest wins.
\<close>

section \<open>The reconnect policy\<close>

definition DEFAULT_RETRY_INTERVAL :: duration where "DEFAULT_RETRY_INTERVAL = 10 * 10 ^ 9"

record reconnect_policy =
  reconnect :: bool
  retry_interval :: duration
  adjust_retry_interval :: bool

definition crawler_default :: reconnect_policy where
  "crawler_default = \<lparr>reconnect = True, retry_interval = DEFAULT_RETRY_INTERVAL,
     adjust_retry_interval = True\<rparr>"

text \<open>
  The options the SDK's pool receives, and the connection of the curated set. Adding a relay
  and connecting are the SDK's, arguments here; \<open>'c\<close> is its client.
\<close>

record relay_options =
  ro_reconnect :: bool
  ro_retry_interval :: duration
  ro_adjust_retry_interval :: bool

definition to_relay_options :: "reconnect_policy \<Rightarrow> relay_options" where
  "to_relay_options policy = \<lparr>ro_reconnect = reconnect policy, ro_retry_interval = retry_interval policy,
     ro_adjust_retry_interval = adjust_retry_interval policy\<rparr>"

fun add_relays ::
  "(ustring \<Rightarrow> relay_options \<Rightarrow> 'c \<Rightarrow> ustring + 'c) \<Rightarrow> relay_options \<Rightarrow> ustring list \<Rightarrow> 'c \<Rightarrow> relay_error + 'c" where
  "add_relays add_relay opts [] client = Inr client"
| "add_relays add_relay opts (url # urls) client =
     (case add_relay url opts client of
        Inl e \<Rightarrow> Inl (Client e)
      | Inr client1 \<Rightarrow> add_relays add_relay opts urls client1)"

definition connect_curated ::
  "(ustring \<Rightarrow> relay_options \<Rightarrow> 'c \<Rightarrow> ustring + 'c) \<Rightarrow> ('c \<Rightarrow> 'c) \<Rightarrow> 'c \<Rightarrow> ustring list \<Rightarrow> reconnect_policy
   \<Rightarrow> relay_error + 'c" where
  "connect_curated add_relay connect new relays policy =
     (case add_relays add_relay (to_relay_options policy) relays new of
        Inl e \<Rightarrow> Inl e
      | Inr client \<Rightarrow> Inr (connect client))"

text \<open>
  A connected client has the whole curated set, every relay with the reconnect on, and
  nothing else: a url the pool refuses is an error, never dropped.
\<close>

lemma connect_curated_all:
  assumes add: "\<And>url opts c c1. add_relay url opts c = Inr c1 \<Longrightarrow> known c1 = insert (url, opts) (known c)"
    and con: "\<And>c. known (connect c) = known c" and new: "known new = {}"
    and run: "connect_curated add_relay connect new relays crawler_default = Inr client"
  shows "fst ` known client = set relays \<and> (\<forall>(url, opts) \<in> known client. ro_reconnect opts)"
proof -
  let ?o = "to_relay_options crawler_default"
  have all: "known c1 = known c \<union> (\<lambda>url. (url, ?o)) ` set urls" if "add_relays add_relay ?o urls c = Inr c1" for urls c c1
    using that by (induction urls arbitrary: c) (auto simp: add split: sum.splits)
  obtain c1 where "add_relays add_relay ?o relays new = Inr c1" "client = connect c1"
    using run by (auto simp: connect_curated_def split: sum.splits)
  then have "known client = (\<lambda>url. (url, ?o)) ` set relays" using all con new by simp
  then show ?thesis by (auto simp: image_image to_relay_options_def crawler_default_def)
qed

section \<open>The seam\<close>

text \<open>The outcome of the injected fetch is an argument; the gate runs once over all of it.\<close>

definition acquire_validated_lists ::
  "env \<Rightarrow> pubkey set \<Rightarrow> kind \<Rightarrow> timestamp \<Rightarrow> u64 \<Rightarrow> nat \<Rightarrow> relay_error + event list \<Rightarrow> metrics
   \<Rightarrow> (relay_error + validated_follow_list list) \<times> metrics" where
  "acquire_validated_lists E requested want_kind now clamp cap fetched m =
     (case fetched of
        Inl e \<Rightarrow> (Inl e, m)
      | Inr raw_events \<Rightarrow>
          (let (vfls, m1) = ingest_events E raw_events want_kind requested now clamp cap m
           in (Inr vfls, m1)))"

text \<open>
  One relay: its limits from the cache or its document, the paged fetch behind its limiter
  (\<open>clock\<close> is the fetch's own reading of the time), the gate, and the reset of its backoff.
\<close>

record 's acquisition =
  acq_limiter :: limiter_registry
  acq_client :: 's
  acq_cache :: limit_cache
  acq_metrics :: metrics

definition acquire_validated_lists_client ::
  "env \<Rightarrow> (ustring \<Rightarrow> response) \<Rightarrow> doc_parser \<Rightarrow> timestamp \<Rightarrow> 's client \<Rightarrow> ustring \<Rightarrow> pubkey list \<Rightarrow> kind
   \<Rightarrow> nat \<Rightarrow> timestamp \<Rightarrow> u64 \<Rightarrow> nat \<Rightarrow> 's acquisition
   \<Rightarrow> (relay_error + validated_follow_list list) \<times> 's acquisition" where
  "acquire_validated_lists_client E http_get parse clock client relay_url authors want_kind
     max_authors now clamp cap a =
     (let requested = set authors;
          (limits, cache1) = get_or_fetch http_get parse relay_url (acq_cache a);
          (fetched, R1, s1) = fetch_complete clock client relay_url authors want_kind
             (max_limit limits) max_authors (acq_limiter a, acq_client a);
          (result, m1) = acquire_validated_lists E requested want_kind now clamp cap fetched
             (acq_metrics a);
          R2 = (case result of Inr _ \<Rightarrow> limiter_reset relay_url R1 | Inl _ \<Rightarrow> R1)
      in (result, \<lparr>acq_limiter = R2, acq_client = s1, acq_cache = cache1, acq_metrics = m1\<rparr>))"

section \<open>Notices\<close>

definition handle_relay_message ::
  "(real \<Rightarrow> real) \<Rightarrow> (nat \<Rightarrow> nat) \<Rightarrow> ustring \<Rightarrow> ustring \<Rightarrow> limiter_registry \<times> health \<times> metrics
   \<Rightarrow> limiter_registry \<times> health \<times> metrics" where
  "handle_relay_message rnd jitter relay_url message st =
     (let (R, H, m) = st
      in case classify_notice message of
           RateLimited \<Rightarrow>
             (let (_, R1, m1) = record_notice jitter relay_url message R m
              in (R1, record_rate_limited rnd relay_url H, m1))
         | Blocked \<Rightarrow>
             (let (_, R1, m1) = record_notice jitter relay_url message R m
              in (R1, record_connect_failure rnd relay_url H, m1))
         | Other \<Rightarrow> (R, H, m))"

text \<open>The messages of the pool's stream, and which of them carry a notice.\<close>

datatype relay_message = Notice_Msg ustring | Closed_Msg ustring | Other_Msg

datatype notification =
    Message ustring relay_message
  | Shutdown
  | Other_Notification
  | Recv_Error

fun notice_text :: "relay_message \<Rightarrow> ustring option" where
  "notice_text (Notice_Msg msg) = Some msg"
| "notice_text (Closed_Msg msg) = Some msg"
| "notice_text Other_Msg = None"

text \<open>The consumer's loop over the stream; it stops at a shutdown, a lag or a closed channel.\<close>

fun notice_consumer ::
  "(real \<Rightarrow> real) \<Rightarrow> (nat \<Rightarrow> nat) \<Rightarrow> notification list \<Rightarrow> limiter_registry \<times> health \<times> metrics
   \<Rightarrow> limiter_registry \<times> health \<times> metrics" where
  "notice_consumer rnd jitter [] st = st"
| "notice_consumer rnd jitter (Message relay_url message # ns) st =
     notice_consumer rnd jitter ns
       (case notice_text message of
          Some msg \<Rightarrow> handle_relay_message rnd jitter relay_url msg st
        | None \<Rightarrow> st)"
| "notice_consumer rnd jitter (Shutdown # ns) st = st"
| "notice_consumer rnd jitter (Other_Notification # ns) st = notice_consumer rnd jitter ns st"
| "notice_consumer rnd jitter (Recv_Error # ns) st = st"

section \<open>Lemmas\<close>

lemma failure_count_acquire [simp]: "failure_count (acquire url R) = failure_count R"
  by (simp add: acquire_def failure_count_def fun_eq_iff)

lemma failure_count_reset:
  "failure_count (limiter_reset url R) r = (if r = url then 0 else failure_count R r)"
  by (simp add: limiter_reset_def failure_count_def)

lemma fetch_complete_failures:
  "failure_count (fst (snd (fetch_complete now client url authors k ml ma (R, s))))
    = failure_count R"
proof -
  let ?I = "\<lambda>st :: limiter_registry \<times> 's. failure_count (fst st) = failure_count R"
  have g: "?I st \<Longrightarrow> ?I (snd (gated url fetch f st))" for fetch :: "'s window_fetch" and f st
    by (simp add: gated_def Let_def split: prod.split)
  show ?thesis
    unfolding fetch_complete_def fetch_complete_with_timeout_def Let_def
    by (rule fetch_chunks_keeps [of ?I, OF g]) simp_all
qed

text \<open>The gate depends on the events it is given as a set, by the accepted ones.\<close>

lemma newest_accepted_cong:
  assumes "{e \<in> set es. acceptable E k req e} = {e \<in> set es'. acceptable E k req e}"
  shows "newest_accepted E k req now clamp es ev = newest_accepted E k req now clamp es' ev"
  using assms unfolding newest_accepted_def by blast

lemma acquisition_lists:
  assumes ok: "orders_ok E" and tr: "client_truthful (set stored) DEFAULT_FETCH_TIMEOUT client"
    and acq: "acquire_validated_lists_client E http_get parse clock client relay_url authors k
      max_authors now clamp cap a = (Inr vfls, a')"
  shows "v \<in> set vfls \<longleftrightarrow>
    (\<exists>ev. newest_accepted E k (set authors) now clamp
        (filter (\<lambda>e. ev_created_at e \<le> clock) stored) ev \<and>
      (\<exists>fs. fst (followee_pubkeys E ev cap (acq_metrics a)) = Some fs
        \<and> v = follow_list_from_event E ev fs))"
proof -
  obtain limits cache1 where c: "get_or_fetch http_get parse relay_url (acq_cache a) = (limits, cache1)"
    by fastforce
  obtain fetched R1 s1 where f: "fetch_complete clock client relay_url authors k (max_limit limits)
      max_authors (acq_limiter a, acq_client a) = (fetched, R1, s1)" by (metis prod.collapse)
  obtain raw where raw: "fetched = Inr raw"
      "vfls = fst (ingest_events E raw k (set authors) now clamp cap (acq_metrics a))"
    using acq c f by (auto simp: acquire_validated_lists_client_def acquire_validated_lists_def
        split: sum.splits prod.splits)
  have set_raw: "set raw = matching (set stored) authors k clock"
    using fetch_complete_set [OF tr] f raw(1) unfolding fetch_complete_def by blast
  have "inj_on ev_id (set stored)" using tr by (simp add: client_truthful_def)
  then have "ids_unique E raw"
    using set_raw by (auto simp: ids_unique_def matching_def inj_on_def)
  then show ?thesis unfolding raw(2)
    by (subst emitted_iff [OF ok], assumption, subst newest_accepted_cong [where es' =
      "filter (\<lambda>e. ev_created_at e \<le> clock) stored"])
      (auto simp: set_raw matching_def acceptable_def)
qed

section \<open>Properties\<close>

text \<open>
  C17. End to end from one relay: when the relay answers truthfully and the acquisition
  succeeds, the follow lists that come out are exactly the newest-wins winners, and their
  bounded followees, of everything the relay stores about the requested authors, whatever
  page limit its NIP-11 document advertised and however the pages fell; its backoff is reset.
\<close>

theorem acquisition_end_to_end:
  assumes "orders_ok E" and "client_truthful (set stored) DEFAULT_FETCH_TIMEOUT client"
    and "acquire_validated_lists_client E http_get parse clock client relay_url authors k
      max_authors now clamp cap a = (Inr vfls, a')"
  shows "(\<forall>v. v \<in> set vfls \<longleftrightarrow>
      (\<exists>ev. newest_accepted E k (set authors) now clamp
          (filter (\<lambda>e. ev_created_at e \<le> clock) stored) ev \<and>
        (\<exists>fs. fst (followee_pubkeys E ev cap (acq_metrics a)) = Some fs
          \<and> v = follow_list_from_event E ev fs)))
    \<and> (\<forall>r. failure_count (acq_limiter a') r
        = (if r = relay_url then 0 else failure_count (acq_limiter a) r))"
proof -
  obtain limits cache1 where c: "get_or_fetch http_get parse relay_url (acq_cache a) = (limits, cache1)"
    by fastforce
  obtain fetched R1 s1 where f: "fetch_complete clock client relay_url authors k (max_limit limits)
      max_authors (acq_limiter a, acq_client a) = (fetched, R1, s1)" by (metis prod.collapse)
  have "failure_count R1 = failure_count (acq_limiter a)"
    using fetch_complete_failures [of clock client relay_url authors k "max_limit limits" max_authors
        "acq_limiter a" "acq_client a"] f by simp
  moreover have "acq_limiter a' = limiter_reset relay_url R1"
    using assms(3) c f by (auto simp: acquire_validated_lists_client_def split: sum.splits prod.splits)
  ultimately show ?thesis using acquisition_lists [OF assms] by (simp add: failure_count_reset)
qed

text \<open>A relay that stores one event and answers at once.\<close>

definition one_client :: "event \<Rightarrow> unit client" where
  "one_client ev = \<lparr>cl_relays = [], cl_fetch_events = (\<lambda>f t s.
     (Inr (take (f_limit f) (filter (\<lambda>e. ev_pubkey e \<in> set (f_authors f) \<and> ev_kind e = f_kind f
        \<and> ev_created_at e \<le> f_until f) [ev])), 0, s))\<rparr>"

lemma one_truthful: "0 < t \<Longrightarrow> client_truthful (set [ev]) t (one_client ev)"
  using newest_single [of ev] by (simp add: client_truthful_def one_client_def)

lemma one_fetch:
  assumes "ev_pubkey ev = pk" "ev_kind ev = k" "ev_created_at ev \<le> clock" "1 < cap"
  shows "fst (fetch_complete clock (one_client ev) url [pk] k cap ma st) = Inr [ev]"
proof -
  have c: "max (Suc 0) cap = cap" "max cap (Suc 0) = cap" "take cap [ev] = [ev]"
    using assms(4) by (auto simp: take_Cons')
  show ?thesis using assms
    by (simp add: fetch_complete_def fetch_complete_with_timeout_def chunks_def
        paginate_chunk_gated_def paginate_chunk_def DEFAULT_FETCH_TIMEOUT_def Let_def c)
      (subst paginate_loop.simps,
       simp add: MAX_PAGES_PER_CHUNK_def gated_def fetch_window_with_deadline_def one_client_def
         oldest_of_def page_back_def Let_def c split: prod.split)
qed

definition demo_acq :: "unit acquisition" where
  "demo_acq = \<lparr>acq_limiter = limiter_new, acq_client = (), acq_cache = (\<lambda>_. None),
     acq_metrics = (\<lambda>_. 0)\<rparr>"

lemma demo_acquired:
  "\<exists>vfls a'. acquire_validated_lists_client demo_env (\<lambda>_. Inl []) (\<lambda>_. Inl []) 300
      (one_client demo_new) [119] [7] ContactList 5 250 100 10 demo_acq = (Inr vfls, a')"
proof -
  have g: "get_or_fetch (\<lambda>_. Inl []) (\<lambda>_. Inl []) [119] (acq_cache demo_acq)
      = (limits_defaults, [[119] \<mapsto> limits_defaults])"
    by (simp add: get_or_fetch_def demo_acq_def fetch_limits_def)
  have "fst (fetch_complete 300 (one_client demo_new) [119] [7] ContactList (max_limit limits_defaults) 5
      (acq_limiter demo_acq, acq_client demo_acq)) = Inr [demo_new]"
    by (rule one_fetch) (simp_all add: demo_event_def limits_defaults_def DEFAULT_MAX_LIMIT_def)
  then show ?thesis
    by (simp add: acquire_validated_lists_client_def g acquire_validated_lists_def case_prod_beta Let_def)
qed

theorem acquisition_end_to_end_witness:
  "\<exists>vfls a'. acquire_validated_lists_client demo_env (\<lambda>_. Inl []) (\<lambda>_. Inl []) 300
      (one_client demo_new) [119] [7] ContactList 5 250 100 10 demo_acq = (Inr vfls, a')
    \<and> follow_list_from_event demo_env demo_new [8, 9] \<in> set vfls
    \<and> failure_count (acq_limiter a') [119] = 0"
proof -
  obtain vfls a' where a: "acquire_validated_lists_client demo_env (\<lambda>_. Inl []) (\<lambda>_. Inl []) 300
      (one_client demo_new) [119] [7] ContactList 5 250 100 10 demo_acq = (Inr vfls, a')"
    using demo_acquired by blast
  have t: "client_truthful (set [demo_new]) DEFAULT_FETCH_TIMEOUT (one_client demo_new)"
    by (rule one_truthful) (simp add: DEFAULT_FETCH_TIMEOUT_def)
  have "newest_accepted demo_env ContactList (set [7]) 250 100
      (filter (\<lambda>e. ev_created_at e \<le> 300) [demo_new]) demo_new"
    by (simp add: newest_accepted_def in_clamp_def older_eq_def saturating_add_def)
      (simp add: demo_event_def)
  moreover have "fst (followee_pubkeys demo_env demo_new 10 (acq_metrics demo_acq)) = Some [8, 9]"
    by (simp add: followee_pubkeys_def demo_event_def demo_env_def Let_def)
  ultimately show ?thesis
    using acquisition_end_to_end [OF demo_orders_ok t a] a by auto
qed

end
