(* ===== verification/Database.thy ===== *)
theory Database imports Nostr begin

text \<open>
  The Postgres database the crawler runs on, as its SQL uses it: the tables of
  \<open>migrations/\<close> as lists of rows with their constraints, a statement as a function from the
  tables to an error or a result and new tables, and the pool as the monad the store
  functions are written in. Everything the code does not control is in the record \<open>pg\<close>: the
  server's clock, the failure of a round trip, what other connections did since the last
  round trip, the rows they hold locked, and the orders of queries without \<open>ORDER BY\<close> and of
  \<open>HashSet\<close> iteration.
\<close>

section \<open>Tables\<close>

datatype status = Discovered | In_Progress | Fetched | Not_Found | Failed

text \<open>\<open>pubkeys_status_check\<close> of migration 0002: the texts the column may hold.\<close>

definition status_of :: "string \<Rightarrow> status option" where
  "status_of s =
     (if s = ''discovered'' then Some Discovered
      else if s = ''in_progress'' then Some In_Progress
      else if s = ''fetched'' then Some Fetched
      else if s = ''not_found'' then Some Not_Found
      else if s = ''failed'' then Some Failed
      else None)"

record pubkey_row =
  row_id :: int
  row_pubkey :: "byte list"
  row_status :: status
  last_fetched_at :: "datetime option"
  last_confirmed_at :: "datetime option"
  last_changed_at :: "datetime option"
  fetch_count :: int
  change_count :: int
  applied_event_id :: "byte list option"
  applied_created_at :: "datetime option"
  claimed_at :: "datetime option"
  fetch_attempts :: int

record relay_row =
  rel_pubkey_id :: int
  rel_url :: ustring
  rel_marker :: ustring
  rel_seen_at :: datetime

record db =
  pubkeys :: "pubkey_row list"
  next_id :: int
  follows :: "(int \<times> int) list"
  pubkey_relays :: "relay_row list"

definition empty_db :: db where
  "empty_db = \<lparr>pubkeys = [], next_id = 1, follows = [], pubkey_relays = []\<rparr>"

definition row_by_id :: "db \<Rightarrow> int \<Rightarrow> pubkey_row option" where
  "row_by_id d i = find (\<lambda>r. row_id r = i) (pubkeys d)"

definition row_by_key :: "db \<Rightarrow> byte list \<Rightarrow> pubkey_row option" where
  "row_by_key d k = find (\<lambda>r. row_pubkey r = k) (pubkeys d)"

definition ids :: "db \<Rightarrow> int set" where
  "ids d = row_id ` set (pubkeys d)"

text \<open>\<open>UPDATE pubkeys SET .. WHERE ..\<close>, and the number of rows it affects.\<close>

definition update_rows :: "(pubkey_row \<Rightarrow> bool) \<Rightarrow> (pubkey_row \<Rightarrow> pubkey_row) \<Rightarrow> db \<Rightarrow> db" where
  "update_rows c f d = d\<lparr>pubkeys := map (\<lambda>r. if c r then f r else r) (pubkeys d)\<rparr>"

definition rows_affected :: "(pubkey_row \<Rightarrow> bool) \<Rightarrow> db \<Rightarrow> nat" where
  "rows_affected c d = length (filter c (pubkeys d))"

text \<open>The followees stored for a follower.\<close>

definition followees_of :: "db \<Rightarrow> int \<Rightarrow> int list" where
  "followees_of d i = map snd (filter (\<lambda>e. fst e = i) (follows d))"

section \<open>What the code does not control\<close>

datatype fault =
    Fine
  | Refused sqlx_error      \<comment> \<open>the round trip failed and nothing happened\<close>
  | Lost_Ack sqlx_error     \<comment> \<open>it took effect, but the client saw an error\<close>

record pg =
  pg_now :: "nat \<Rightarrow> datetime"
  pg_fault :: "nat \<Rightarrow> fault"
  pg_others :: "nat \<Rightarrow> db \<Rightarrow> db"
  pg_locked :: "nat \<Rightarrow> int \<Rightarrow> bool"
  pg_id_order :: "int list \<Rightarrow> int list"
  pg_row_order :: "pubkey_row list \<Rightarrow> pubkey_row list"
  pg_url_order :: "ustring list \<Rightarrow> ustring list"

definition pg_orders_ok :: "pg \<Rightarrow> bool" where
  "pg_orders_ok P \<longleftrightarrow>
     (\<forall>xs. mset (pg_id_order P xs) = mset xs) \<and>
     (\<forall>xs. mset (pg_row_order P xs) = mset xs) \<and>
     (\<forall>xs. mset (pg_url_order P xs) = mset xs)"

lemma pg_orders_set:
  assumes "pg_orders_ok P"
  shows pg_id_order_set: "set (pg_id_order P xs) = set xs"
    and pg_row_order_set: "set (pg_row_order P ys) = set ys"
    and pg_url_order_set: "set (pg_url_order P zs) = set zs"
  using assms unfolding pg_orders_ok_def by (metis set_mset_mset)+

lemma pg_id_order_distinct: "pg_orders_ok P \<Longrightarrow> distinct (pg_id_order P xs) = distinct xs"
  unfolding pg_orders_ok_def by (metis mset_eq_imp_distinct_iff)

text \<open>A server that never fails, with no other connection.\<close>

definition quiet :: "pg \<Rightarrow> bool" where
  "quiet P \<longleftrightarrow> (\<forall>n. pg_fault P n = Fine \<and> (\<forall>d. pg_others P n d = d)
     \<and> (\<forall>i. \<not> pg_locked P n i)) \<and> pg_orders_ok P"

definition demo_pg :: pg where
  "demo_pg = \<lparr>pg_now = (\<lambda>n. int n), pg_fault = (\<lambda>_. Fine), pg_others = (\<lambda>_ d. d),
     pg_locked = (\<lambda>_ _. False), pg_id_order = (\<lambda>xs. xs), pg_row_order = (\<lambda>xs. xs),
     pg_url_order = (\<lambda>xs. xs)\<rparr>"

lemma quiet_demo: "quiet demo_pg"
  by (simp add: quiet_def demo_pg_def pg_orders_ok_def)

section \<open>Round trips\<close>

text \<open>
  The program's state: the database, the number of round trips so far, the counters. A
  statement gets the number of its round trip, which is its moment (\<open>now()\<close> is the same
  throughout a transaction). A transaction is one statement that does all its statements or,
  when one fails and the early return drops it, nothing: the other connections see it at
  one moment, and its only ambiguous outcome is a commit whose acknowledgement is lost.
\<close>

record world =
  wdb :: db
  wtick :: nat
  wmet :: metrics

type_synonym 'a io = "world \<Rightarrow> (store_error + 'a) \<times> world"
type_synonym 'a stmt = "nat \<Rightarrow> db \<Rightarrow> sqlx_error + 'a \<times> db"

definition ret :: "'a \<Rightarrow> 'a io" where
  "ret x w = (Inr x, w)"

definition fail :: "store_error \<Rightarrow> 'a io" where
  "fail e w = (Inl e, w)"

definition bind_io :: "'a io \<Rightarrow> ('a \<Rightarrow> 'b io) \<Rightarrow> 'b io" where
  "bind_io c k w = (case c w of (Inl e, w') \<Rightarrow> (Inl e, w') | (Inr x, w') \<Rightarrow> k x w')"

fun for_io :: "'b list \<Rightarrow> ('b \<Rightarrow> unit io) \<Rightarrow> unit io" where
  "for_io [] f = ret ()"
| "for_io (x # xs) f = bind_io (f x) (\<lambda>_. for_io xs f)"

fun map_io :: "('b \<Rightarrow> 'a io) \<Rightarrow> 'b list \<Rightarrow> 'a list io" where
  "map_io f [] = ret []"
| "map_io f (x # xs) = bind_io (f x) (\<lambda>y. bind_io (map_io f xs) (\<lambda>ys. ret (y # ys)))"

definition tally :: "(metrics \<Rightarrow> 'a \<times> metrics) \<Rightarrow> 'a io" where
  "tally f w = (let (x, m) = f (wmet w) in (Inr x, w\<lparr>wmet := m\<rparr>))"

definition exec :: "pg \<Rightarrow> 'a stmt \<Rightarrow> 'a io" where
  "exec P s w =
     (let n = wtick w; d = pg_others P n (wdb w); w1 = w\<lparr>wdb := d, wtick := Suc n\<rparr>
      in case pg_fault P n of
           Refused e \<Rightarrow> (Inl (Sqlx e), w1)
         | Lost_Ack e \<Rightarrow>
             (Inl (Sqlx e), case s n d of Inl _ \<Rightarrow> w1 | Inr (_, d') \<Rightarrow> w1\<lparr>wdb := d'\<rparr>)
         | Fine \<Rightarrow>
             (case s n d of Inl e \<Rightarrow> (Inl (Sqlx e), w1) | Inr (x, d') \<Rightarrow> (Inr x, w1\<lparr>wdb := d'\<rparr>)))"

lemma bind_io_Inr:
  "bind_io c k w = (Inr y, w') \<longleftrightarrow> (\<exists>x w1. c w = (Inr x, w1) \<and> k x w1 = (Inr y, w'))"
  by (auto simp: bind_io_def split: prod.split sum.split)

lemma bind_io_step: "c w = (Inr x, w1) \<Longrightarrow> bind_io c k w = k x w1"
  by (simp add: bind_io_def)

lemma bind_io_err: "c w = (Inl e, w1) \<Longrightarrow> bind_io c k w = (Inl e, w1)"
  by (simp add: bind_io_def)

lemma exec_quiet:
  assumes "quiet P"
  shows "exec P s w =
    (case s (wtick w) (wdb w) of
       Inl e \<Rightarrow> (Inl (Sqlx e), w\<lparr>wtick := Suc (wtick w)\<rparr>)
     | Inr (x, d') \<Rightarrow> (Inr x, w\<lparr>wdb := d', wtick := Suc (wtick w)\<rparr>))"
  using assms by (simp add: exec_def quiet_def Let_def split: sum.split prod.split)

lemma exec_Inr:
  assumes "exec P s w = (Inr x, w')"
  shows "\<exists>d'. s (wtick w) (pg_others P (wtick w) (wdb w)) = Inr (x, d')
     \<and> w' = w\<lparr>wdb := d', wtick := Suc (wtick w)\<rparr>"
  using assms by (auto simp: exec_def Let_def split: fault.splits sum.splits prod.splits)

text \<open>With no other connection, a round trip leaves the tables alone or does its statement.\<close>

definition alone :: "pg \<Rightarrow> bool" where
  "alone P \<longleftrightarrow> (\<forall>n d. pg_others P n d = d) \<and> pg_orders_ok P"

lemma exec_alone:
  assumes "alone P" and "exec P s w = (res, w')"
  obtains e where "res = Inl e" "wdb w' = wdb w" "wtick w' = Suc (wtick w)"
  | x where "s (wtick w) (wdb w) = Inr (x, wdb w')" "wtick w' = Suc (wtick w)"
      "res = Inr x \<or> (\<exists>e. res = Inl e)"
  using assms
  by (auto simp: alone_def exec_def Let_def split: fault.splits sum.splits prod.splits)

lemma bind_io_cases:
  assumes "bind_io c k w = (res, w')"
  obtains e where "c w = (Inl e, w')" "res = Inl e"
  | x w1 where "c w = (Inr x, w1)" "k x w1 = (res, w')"
  using assms by (auto simp: bind_io_def split: prod.splits sum.splits)

definition reads :: "'a stmt \<Rightarrow> bool" where
  "reads s \<longleftrightarrow> (\<forall>n d x d'. s n d = Inr (x, d') \<longrightarrow> d' = d)"

lemma reads_select: "reads (\<lambda>n d. Inr (f d, d))"
  by (simp add: reads_def)

text \<open>A final write, and a read with the rest of the computation.\<close>

lemma exec_alone_write:
  assumes "alone P" and "bind_io (exec P s) (\<lambda>_. ret y) w = (res, w')"
  obtains e where "res = Inl e" "wdb w' = wdb w"
  | x where "s (wtick w) (wdb w) = Inr (x, wdb w')" "res = Inr y \<or> (\<exists>e. res = Inl e)"
  using assms(2)
proof (cases rule: bind_io_cases)
  case (1 e)
  from 1(1) show ?thesis by (cases rule: exec_alone [OF assms(1)]) (use 1(2) that in blast)+
next
  case (2 x w1)
  then have "w1 = w'" "res = Inr y" by (auto simp: ret_def)
  with 2(1) show ?thesis by (elim exec_alone [OF assms(1)]) (use that in auto)
qed

lemma exec_alone_read:
  assumes "alone P" and "reads s"
    and "bind_io (exec P s) k w = (res, w')"
  obtains e where "res = Inl e" "wdb w' = wdb w"
  | x w1 where "s (wtick w) (wdb w) = Inr (x, wdb w)" "wdb w1 = wdb w" "k x w1 = (res, w')"
  using assms(3)
proof (cases rule: bind_io_cases)
  case (1 e)
  from 1(1) show ?thesis
    by (cases rule: exec_alone [OF assms(1)]) (use 1(2) that(1) assms(2) in \<open>unfold reads_def, blast\<close>)+
next
  case (2 x w1)
  from 2(1) obtain "s (wtick w) (wdb w) = Inr (x, wdb w1)"
    by (cases rule: exec_alone [OF assms(1)]) auto
  moreover from this have "wdb w1 = wdb w" using assms(2) by (simp add: reads_def)
  ultimately show ?thesis using 2(2) that(2) by simp
qed

lemma exec_alone_update:
  assumes "alone P" and "bind_io (exec P (\<lambda>n d. Inr ((), f n d))) (\<lambda>_. ret y) w = (res, w')"
  obtains e where "res = Inl e" "wdb w' = wdb w"
  | "wdb w' = f (wtick w) (wdb w)" "res = Inr y \<or> (\<exists>e. res = Inl e)"
  using assms(2)
  by (cases rule: exec_alone_write [OF assms(1)]) (use that in auto)

lemma alone_quiet: "quiet P \<Longrightarrow> alone P"
  by (simp add: quiet_def alone_def)

section \<open>Invariants of the database through a computation\<close>

text \<open>
  \<open>keeps I c\<close>: run from tables with \<open>I\<close>, the computation leaves tables with \<open>I\<close>, whatever
  fails on the way and however it returns. \<open>keeps_at\<close> is the same for a condition that also
  looks at the number of round trips made, so that it can speak of the history.
\<close>

named_theorems keeps_intros

definition keeps_at :: "(nat \<Rightarrow> db \<Rightarrow> bool) \<Rightarrow> 'a io \<Rightarrow> bool" where
  "keeps_at I c \<longleftrightarrow> (\<forall>w. I (wtick w) (wdb w) \<longrightarrow> I (wtick (snd (c w))) (wdb (snd (c w))))"

abbreviation keeps :: "(db \<Rightarrow> bool) \<Rightarrow> 'a io \<Rightarrow> bool" where
  "keeps I \<equiv> keeps_at (\<lambda>_. I)"

lemma keeps_def: "keeps I c \<longleftrightarrow> (\<forall>w. I (wdb w) \<longrightarrow> I (wdb (snd (c w))))"
  by (simp add: keeps_at_def)

lemma keeps_ret [keeps_intros]: "keeps_at I (ret x)"
  by (simp add: keeps_at_def ret_def)

lemma keeps_fail [keeps_intros]: "keeps_at I (fail e)"
  by (simp add: keeps_at_def fail_def)

lemma keeps_tally [keeps_intros]: "keeps_at I (tally f)"
  by (simp add: keeps_at_def tally_def split: prod.split)

lemma keeps_bind_within:
  assumes "keeps_at I c" and k: "\<And>w x w'. I (wtick w) (wdb w) \<Longrightarrow> c w = (Inr x, w') \<Longrightarrow> keeps_at I (k x)"
  shows "keeps_at I (bind_io c k)"
  unfolding keeps_at_def
proof (intro allI impI)
  fix w :: world assume I: "I (wtick w) (wdb w)"
  obtain r w1 where c: "c w = (r, w1)" by (cases "c w")
  then have "I (wtick w1) (wdb w1)" using assms(1) I unfolding keeps_at_def by (metis snd_conv)
  with c k [OF I] show "I (wtick (snd (bind_io c k w))) (wdb (snd (bind_io c k w)))"
    by (cases r) (auto simp: bind_io_def keeps_at_def)
qed

lemma keeps_bind [keeps_intros]:
  "keeps_at I c \<Longrightarrow> (\<And>x. keeps_at I (k x)) \<Longrightarrow> keeps_at I (bind_io c k)"
  by (rule keeps_bind_within)

lemma keeps_for [keeps_intros]:
  "(\<And>x. x \<in> set xs \<Longrightarrow> keeps_at I (f x)) \<Longrightarrow> keeps_at I (for_io xs f)"
  by (induction xs) (auto intro: keeps_intros)

lemma keeps_map [keeps_intros]:
  "(\<And>x. x \<in> set xs \<Longrightarrow> keeps_at I (f x)) \<Longrightarrow> keeps_at I (map_io f xs)"
  by (induction xs) (auto intro!: keeps_intros)

lemma keeps_if [keeps_intros]:
  "keeps_at I c \<Longrightarrow> keeps_at I c' \<Longrightarrow> keeps_at I (if b then c else c')"
  by simp

text \<open>One round trip: the others move, then the statement does its work, or nothing happens.\<close>

lemma keeps_at_exec:
  assumes "\<And>n d. I n d \<Longrightarrow> I (Suc n) (pg_others P n d)"
    and "\<And>n d x d'. I n d \<Longrightarrow> s n (pg_others P n d) = Inr (x, d') \<Longrightarrow> I (Suc n) d'"
  shows "keeps_at I (exec P s)"
  unfolding keeps_at_def
proof (intro allI impI)
  fix w :: world assume I: "I (wtick w) (wdb w)"
  have "I (Suc (wtick w)) d'" if "s (wtick w) (pg_others P (wtick w) (wdb w)) = Inr (x, d')" for x d'
    using assms(2) [OF I that] .
  with assms(1) [OF I] show "I (wtick (snd (exec P s w))) (wdb (snd (exec P s w)))"
    by (auto simp: exec_def Let_def split: fault.split sum.split prod.split)
qed

lemma keeps_exec:
  "(\<And>n d. I d \<Longrightarrow> I (pg_others P n d)) \<Longrightarrow> (\<And>n d x d'. I d \<Longrightarrow> s n d = Inr (x, d') \<Longrightarrow> I d')
    \<Longrightarrow> keeps I (exec P s)"
  by (rule keeps_at_exec) blast+

end
