(* ===== verification/Db_Invariant.thy ===== *)
theory Db_Invariant imports Database begin

text \<open>
  What a well-formed database is: the constraints the migrations declare and the facts the
  code keeps beside them (32-byte keys, a stamp on every terminal status, a lease time on
  every leased row), with the lemmas on row updates that every store operation uses.
\<close>

section \<open>Looking up rows\<close>

lemma row_by_id_Some: "row_by_id d i = Some r \<Longrightarrow> r \<in> set (pubkeys d) \<and> row_id r = i"
  by (auto simp: row_by_id_def find_Some_iff)

lemma row_by_key_Some: "row_by_key d k = Some r \<Longrightarrow> r \<in> set (pubkeys d) \<and> row_pubkey r = k"
  by (auto simp: row_by_key_def find_Some_iff)

lemma row_by_id_None: "row_by_id d i = None \<longleftrightarrow> i \<notin> ids d"
  by (auto simp: row_by_id_def find_None_iff ids_def)

lemma row_by_key_None: "row_by_key d k = None \<longleftrightarrow> k \<notin> row_pubkey ` set (pubkeys d)"
  by (auto simp: row_by_key_def find_None_iff)

lemma find_unique:
  assumes "distinct (map f xs)" and "x \<in> set xs"
  shows "find (\<lambda>y. f y = f x) xs = Some x"
  using assms by (induction xs) (auto simp: image_iff)

lemma row_by_id_mem:
  "distinct (map row_id (pubkeys d)) \<Longrightarrow> r \<in> set (pubkeys d) \<Longrightarrow> row_by_id d (row_id r) = Some r"
  by (simp add: row_by_id_def find_unique)

lemma row_by_key_mem:
  "distinct (map row_pubkey (pubkeys d)) \<Longrightarrow> r \<in> set (pubkeys d)
    \<Longrightarrow> row_by_key d (row_pubkey r) = Some r"
  by (simp add: row_by_key_def find_unique)

section \<open>The invariant\<close>

definition terminal :: "status \<Rightarrow> bool" where
  "terminal s \<longleftrightarrow> s \<in> {Fetched, Not_Found, Failed}"

lemma terminal_simps [simp]:
  "\<not> terminal Discovered" "\<not> terminal In_Progress" "terminal Fetched" "terminal Not_Found"
  "terminal Failed"
  by (simp_all add: terminal_def)

definition row_ok :: "pubkey_row \<Rightarrow> bool" where
  "row_ok r \<longleftrightarrow>
     length (row_pubkey r) = 32 \<and>
     0 \<le> fetch_attempts r \<and> fetch_attempts r \<le> 32767 \<and>
     0 \<le> change_count r \<and> change_count r \<le> fetch_count r \<and>
     (terminal (row_status r) \<longrightarrow> last_fetched_at r \<noteq> None) \<and>
     (row_status r = In_Progress \<longrightarrow> claimed_at r \<noteq> None) \<and>
     (applied_event_id r = None \<longleftrightarrow> applied_created_at r = None) \<and>
     (applied_event_id r \<noteq> None \<longrightarrow> last_fetched_at r \<noteq> None)"

definition markers :: "ustring set" where
  "markers = {lit ''read'', lit ''write'', lit ''both''}"

definition db_ok :: "db \<Rightarrow> bool" where
  "db_ok d \<longleftrightarrow>
     distinct (map row_id (pubkeys d)) \<and> distinct (map row_pubkey (pubkeys d)) \<and>
     (\<forall>r \<in> set (pubkeys d). row_ok r \<and> 0 < row_id r \<and> row_id r < next_id d) \<and> 0 < next_id d \<and>
     distinct (follows d) \<and>
     (\<forall>(a, b) \<in> set (follows d). a \<in> ids d \<and> b \<in> ids d \<and> a \<noteq> b) \<and>
     distinct (map (\<lambda>l. (rel_pubkey_id l, rel_url l)) (pubkey_relays d)) \<and>
     (\<forall>l \<in> set (pubkey_relays d). rel_pubkey_id l \<in> ids d \<and> rel_marker l \<in> markers)"

lemma db_ok_empty: "db_ok empty_db"
  by (simp add: db_ok_def empty_db_def)

lemma db_okD:
  assumes "db_ok d"
  shows "distinct (map row_id (pubkeys d))" "distinct (map row_pubkey (pubkeys d))"
    "r \<in> set (pubkeys d) \<Longrightarrow> row_ok r" "r \<in> set (pubkeys d) \<Longrightarrow> row_id r < next_id d"
    "distinct (follows d)" "(a, b) \<in> set (follows d) \<Longrightarrow> a \<in> ids d \<and> b \<in> ids d \<and> a \<noteq> b"
    "l \<in> set (pubkey_relays d) \<Longrightarrow> rel_marker l \<in> markers"
  using assms by (auto simp: db_ok_def)

section \<open>Updates of rows\<close>

text \<open>An update that keeps identities keeps every lookup, up to the update itself.\<close>

lemma update_rows_simps [simp]:
  "pubkeys (update_rows c f d) = map (\<lambda>r. if c r then f r else r) (pubkeys d)"
  "next_id (update_rows c f d) = next_id d"
  "follows (update_rows c f d) = follows d"
  "pubkey_relays (update_rows c f d) = pubkey_relays d"
  by (simp_all add: update_rows_def)

definition keeps_identity :: "(pubkey_row \<Rightarrow> pubkey_row) \<Rightarrow> bool" where
  "keeps_identity f \<longleftrightarrow> (\<forall>r. row_id (f r) = row_id r \<and> row_pubkey (f r) = row_pubkey r)"

lemma map_row_id_update [simp]:
  "keeps_identity f \<Longrightarrow> map row_id (pubkeys (update_rows c f d)) = map row_id (pubkeys d)"
  by (simp add: keeps_identity_def)

lemma map_row_key_update [simp]:
  "keeps_identity f \<Longrightarrow> map row_pubkey (pubkeys (update_rows c f d)) = map row_pubkey (pubkeys d)"
  by (simp add: keeps_identity_def)

lemma ids_eq_map: "ids d = set (map row_id (pubkeys d))"
  by (simp add: ids_def)

lemma ids_update [simp]: "keeps_identity f \<Longrightarrow> ids (update_rows c f d) = ids d"
  by (simp only: ids_eq_map map_row_id_update)

lemma find_map_id:
  "(\<And>r. row_id (g r) = row_id r) \<Longrightarrow>
    find (\<lambda>r. row_id r = i) (map g rs) = map_option g (find (\<lambda>r. row_id r = i) rs)"
  by (induction rs) auto

lemma row_by_id_update:
  assumes "keeps_identity f"
  shows "row_by_id (update_rows c f d) i
    = map_option (\<lambda>r. if c r then f r else r) (row_by_id d i)"
  using assms by (simp add: row_by_id_def keeps_identity_def find_map_id)

lemma row_by_id_update_id:
  assumes "keeps_identity f"
  shows "row_by_id (update_rows (\<lambda>r. row_id r = i) f d) j
    = (if j = i then map_option f (row_by_id d i) else row_by_id d j)"
  unfolding row_by_id_update [OF assms]
  by (cases "row_by_id d j") (use row_by_id_Some [of d j] in auto)

lemma find_map_key:
  "(\<And>r. row_pubkey (g r) = row_pubkey r) \<Longrightarrow>
    find (\<lambda>r. row_pubkey r = k) (map g rs) = map_option g (find (\<lambda>r. row_pubkey r = k) rs)"
  by (induction rs) auto

lemma row_by_key_update:
  assumes "keeps_identity f"
  shows "row_by_key (update_rows c f d) k
    = map_option (\<lambda>r. if c r then f r else r) (row_by_key d k)"
  using assms by (simp add: row_by_key_def keeps_identity_def find_map_key)

lemma db_ok_update:
  assumes "db_ok d" and "keeps_identity f"
    and "\<And>r. r \<in> set (pubkeys d) \<Longrightarrow> c r \<Longrightarrow> row_ok r \<Longrightarrow> row_ok (f r)"
  shows "db_ok (update_rows c f d)"
proof -
  have rows: "\<forall>r \<in> set (pubkeys (update_rows c f d)). row_ok r \<and> 0 < row_id r \<and> row_id r < next_id d"
    using assms by (auto simp: db_ok_def keeps_identity_def)
  show ?thesis
    using assms(1) rows
    unfolding db_ok_def ids_update [OF assms(2)] map_row_id_update [OF assms(2)]
      map_row_key_update [OF assms(2)]
    by simp
qed

lemma rows_affected_none: "(\<forall>r \<in> set (pubkeys d). \<not> c r) \<longleftrightarrow> rows_affected c d = 0"
  by (simp add: rows_affected_def filter_empty_conv)

section \<open>Rows are never lost\<close>

text \<open>
  \<open>extends d0 d\<close>: every row of \<open>d0\<close> is still there under its id and key. It is the second
  invariant the operations keep: surrogate ids are stable and rows are never deleted.
\<close>

definition extends :: "db \<Rightarrow> db \<Rightarrow> bool" where
  "extends d0 d \<longleftrightarrow> (\<lambda>r. (row_id r, row_pubkey r)) ` set (pubkeys d0)
     \<subseteq> (\<lambda>r. (row_id r, row_pubkey r)) ` set (pubkeys d)"

lemma extends_refl: "extends d d"
  by (simp add: extends_def)

lemma extends_trans: "extends d0 d1 \<Longrightarrow> extends d1 d2 \<Longrightarrow> extends d0 d2"
  by (auto simp: extends_def)

lemma extends_update:
  assumes "keeps_identity f"
  shows "extends d0 (update_rows c f d) = extends d0 d"
proof -
  let ?k = "\<lambda>r. (row_id r, row_pubkey r)"
  have "?k ` set (map (\<lambda>r. if c r then f r else r) (pubkeys d)) = ?k ` set (pubkeys d)"
    unfolding set_map image_image using assms
    by (intro image_cong) (simp_all add: keeps_identity_def)
  then show ?thesis by (simp only: extends_def update_rows_simps)
qed

text \<open>
  What the other connections are relied on for: they too keep the database well-formed and
  never drop a row. The operations below guarantee the same.
\<close>

definition rely :: "pg \<Rightarrow> bool" where
  "rely P \<longleftrightarrow> (\<forall>n d. db_ok d \<longrightarrow> db_ok (pg_others P n d) \<and> extends d (pg_others P n d))"

lemma relyD: "rely P \<Longrightarrow> db_ok d \<Longrightarrow> db_ok (pg_others P n d) \<and> extends d (pg_others P n d)"
  by (simp add: rely_def)

lemma rely_quiet: "quiet P \<Longrightarrow> rely P"
  by (simp add: rely_def quiet_def extends_refl)

lemma ids_extends: "extends d0 d \<Longrightarrow> ids d0 \<subseteq> ids d"
  by (force simp: extends_def ids_def image_subset_iff)

text \<open>
  \<open>good d0\<close>, the two invariants together, is what a computation started on \<open>d0\<close> keeps.
\<close>

definition good :: "db \<Rightarrow> db \<Rightarrow> bool" where
  "good d0 d \<longleftrightarrow> db_ok d \<and> extends d0 d"

lemma good_refl: "db_ok d \<Longrightarrow> good d d"
  by (simp add: good_def extends_refl)

lemma good_others: "rely P \<Longrightarrow> good d0 d \<Longrightarrow> good d0 (pg_others P n d)"
  unfolding good_def using relyD extends_trans by blast

lemma good_update:
  assumes "good d0 d" and "keeps_identity f"
    and "\<And>r. r \<in> set (pubkeys d) \<Longrightarrow> c r \<Longrightarrow> row_ok r \<Longrightarrow> row_ok (f r)"
  shows "good d0 (update_rows c f d)"
  using assms db_ok_update [of d f c] by (simp add: good_def extends_update)

lemma keeps_good_exec:
  assumes "rely P" and "\<And>n d x d'. good d0 d \<Longrightarrow> s n d = Inr (x, d') \<Longrightarrow> good d0 d'"
  shows "keeps (good d0) (exec P s)"
  by (rule keeps_exec) (use good_others [OF assms(1)] assms(2) in blast)+

end
