(* ===== verification/Store_Pubkeys.thy ===== *)
theory Store_Pubkeys imports Db_Invariant begin

text \<open>
  \<open>src/store/pubkeys.rs\<close>: the get-or-create of a key's surrogate id, and the status
  transition with its stamp. The contract of a get-or-create index is the locale
  \<open>get_or_create\<close>; what a client that resolves a whole list may rely on is proved inside it.
\<close>

section \<open>The operations\<close>

definition PUBKEY_LEN :: nat where "PUBKEY_LEN = 32"

definition new_row :: "int \<Rightarrow> byte list \<Rightarrow> pubkey_row" where
  "new_row i k =
     \<lparr>row_id = i, row_pubkey = k, row_status = Discovered, last_fetched_at = None,
      last_confirmed_at = None, last_changed_at = None, fetch_count = 0, change_count = 0,
      applied_event_id = None, applied_created_at = None, claimed_at = None,
      fetch_attempts = 0\<rparr>"

text \<open>
  \<open>INSERT .. ON CONFLICT (pubkey) DO UPDATE SET pubkey = EXCLUDED.pubkey RETURNING id\<close>. The
  identity is drawn before the conflict is seen, so a conflict leaves a gap in the ids.
\<close>

definition insert_pubkey :: "byte list \<Rightarrow> db \<Rightarrow> int \<times> db" where
  "insert_pubkey k d =
     (case row_by_key d k of
        Some r \<Rightarrow> (row_id r, d\<lparr>next_id := next_id d + 1\<rparr>)
      | None \<Rightarrow> (next_id d,
          d\<lparr>pubkeys := pubkeys d @ [new_row (next_id d) k], next_id := next_id d + 1\<rparr>))"

definition upsert_pubkey :: "pg \<Rightarrow> byte list \<Rightarrow> int io" where
  "upsert_pubkey P pubkey =
     (if length pubkey \<noteq> PUBKEY_LEN then fail (InvalidPubkey (length pubkey))
      else exec P (\<lambda>n d. Inr (insert_pubkey pubkey d)))"

text \<open>
  The status is a text; one outside the column's domain violates the check constraint when
  there is a row to update. (The \<open>debug_assert!\<close> before the statement is compiled out of a
  release build.)
\<close>

definition set_status_stmt :: "int \<Rightarrow> string \<Rightarrow> datetime \<Rightarrow> unit stmt" where
  "set_status_stmt i st ts n d =
     (case row_by_id d i of
        None \<Rightarrow> Inr ((), d)
      | Some _ \<Rightarrow>
          (case status_of st of
             None \<Rightarrow> Inl (Sqlx_Database ''pubkeys_status_check'')
           | Some s \<Rightarrow> Inr ((), update_rows (\<lambda>r. row_id r = i)
                (\<lambda>r. r\<lparr>row_status := s, last_fetched_at := Some ts\<rparr>) d)))"

definition set_fetch_status :: "pg \<Rightarrow> int \<Rightarrow> string \<Rightarrow> datetime \<Rightarrow> unit io" where
  "set_fetch_status P i st ts = exec P (set_status_stmt i st ts)"

section \<open>The contract of a get-or-create index\<close>

locale get_or_create =
  fixes lookup :: "'s \<Rightarrow> 'k \<Rightarrow> 'i option"
    and upsert :: "'k \<Rightarrow> 's \<Rightarrow> 'i \<times> 's"
    and valid :: "'s \<Rightarrow> bool" and key_ok :: "'k \<Rightarrow> bool"
  assumes upsert_valid: "valid s \<Longrightarrow> key_ok k \<Longrightarrow> valid (snd (upsert k s))"
    and lookup_upsert: "valid s \<Longrightarrow> key_ok k \<Longrightarrow>
      lookup (snd (upsert k s)) k' = (if k' = k then Some (fst (upsert k s)) else lookup s k')"
    and upsert_known: "lookup s k = Some i \<Longrightarrow> fst (upsert k s) = i"
    and lookup_inj: "valid s \<Longrightarrow> lookup s k = Some i \<Longrightarrow> lookup s k' = Some i \<Longrightarrow> k = k'"
begin

fun resolve :: "'k list \<Rightarrow> 's \<Rightarrow> 'i list \<times> 's" where
  "resolve [] s = ([], s)"
| "resolve (k # ks) s =
     (let (i, s1) = upsert k s; (is, s2) = resolve ks s1 in (i # is, s2))"

lemma lookup_stable:
  assumes "valid s" "key_ok k" "lookup s k' = Some i"
  shows "lookup (snd (upsert k s)) k' = Some i"
  using assms by (auto simp: lookup_upsert upsert_known)

lemma resolve_spec:
  assumes "valid s" "\<forall>k \<in> set ks. key_ok k"
  shows "valid (snd (resolve ks s)) \<and> length (fst (resolve ks s)) = length ks
    \<and> map (lookup (snd (resolve ks s))) ks = map Some (fst (resolve ks s))
    \<and> (\<forall>k i. lookup s k = Some i \<longrightarrow> lookup (snd (resolve ks s)) k = Some i)
    \<and> (\<forall>k. k \<notin> set ks \<longrightarrow> lookup (snd (resolve ks s)) k = lookup s k)"
  using assms
proof (induction ks arbitrary: s)
  case (Cons k ks)
  obtain i s1 where u: "upsert k s = (i, s1)" by (cases "upsert k s")
  obtain "is" s2 where r: "resolve ks s1 = (is, s2)" by (cases "resolve ks s1")
  have v: "valid s1" using upsert_valid [of s k] Cons.prems u by simp
  note IH = Cons.IH [OF v]
  have l: "lookup s1 k' = (if k' = k then Some i else lookup s k')" for k'
    using lookup_upsert [of s k k'] Cons.prems u by simp
  have st: "lookup s1 k' = Some j" if "lookup s k' = Some j" for k' j
    using lookup_stable [of s k k' j] Cons.prems u that by simp
  show ?case using IH Cons.prems u r l st by auto
qed simp

lemma resolve_ids:
  assumes "valid s" "\<forall>k \<in> set ks. key_ok k"
  shows "Some ` set (fst (resolve ks s)) = lookup (snd (resolve ks s)) ` set ks"
proof -
  have "map (lookup (snd (resolve ks s))) ks = map Some (fst (resolve ks s))"
    using resolve_spec [OF assms] by blast
  then show ?thesis by (metis list.set_map)
qed

text \<open>Distinct keys get distinct ids.\<close>

lemma resolve_distinct:
  assumes "valid s" "\<forall>k \<in> set ks. key_ok k" "distinct ks"
  shows "distinct (fst (resolve ks s))"
proof -
  let ?l = "lookup (snd (resolve ks s))"
  have r: "valid (snd (resolve ks s))" "map ?l ks = map Some (fst (resolve ks s))"
    using resolve_spec [OF assms(1,2)] by blast+
  have "inj_on ?l (set ks)"
  proof (rule inj_onI)
    fix a b assume a: "a \<in> set ks" and "b \<in> set ks" and e: "?l a = ?l b"
    have "?l a \<in> Some ` set (fst (resolve ks s))"
      using r(2) a by (metis imageI list.set_map)
    then obtain i where "?l a = Some i" by blast
    with e r(1) show "a = b" using lookup_inj by metis
  qed
  then have "distinct (map ?l ks)" using assms(3) by (simp add: distinct_map)
  then show ?thesis using r(2) by (simp add: distinct_map)
qed

end

section \<open>The table meets the contract\<close>

definition id_of :: "db \<Rightarrow> byte list \<Rightarrow> int option" where
  "id_of d k = map_option row_id (row_by_key d k)"

lemma new_row_simps [simp]:
  "row_id (new_row i k) = i" "row_pubkey (new_row i k) = k" "row_status (new_row i k) = Discovered"
  by (simp_all add: new_row_def)

lemma row_ok_new: "length k = 32 \<Longrightarrow> row_ok (new_row i k)"
  by (simp add: row_ok_def new_row_def)

lemma find_append: "find p (xs @ ys) = (case find p xs of None \<Rightarrow> find p ys | Some x \<Rightarrow> Some x)"
  by (induction xs) auto

lemma insert_pubkey_fields [simp]:
  "follows (snd (insert_pubkey k d)) = follows d"
  "pubkey_relays (snd (insert_pubkey k d)) = pubkey_relays d"
  "next_id (snd (insert_pubkey k d)) = next_id d + 1"
  by (simp_all add: insert_pubkey_def split: option.split)

lemma pubkeys_insert:
  "pubkeys (snd (insert_pubkey k d))
     = pubkeys d @ (if row_by_key d k = None then [new_row (next_id d) k] else [])"
  by (simp add: insert_pubkey_def split: option.split)

lemma ids_insert:
  "ids (snd (insert_pubkey k d)) = ids d \<union> (if row_by_key d k = None then {next_id d} else {})"
  by (auto simp: ids_def pubkeys_insert)

lemma fst_insert_pubkey:
  "fst (insert_pubkey k d) = (case row_by_key d k of Some r \<Rightarrow> row_id r | None \<Rightarrow> next_id d)"
  by (simp add: insert_pubkey_def split: option.split)

lemma row_by_key_insert:
  "row_by_key (snd (insert_pubkey k d)) k'
     = (if k' = k \<and> row_by_key d k = None then Some (new_row (next_id d) k) else row_by_key d k')"
  by (auto simp: row_by_key_def pubkeys_insert find_append split: option.split)

lemma row_by_id_insert:
  assumes "i \<in> ids d"
  shows "row_by_id (snd (insert_pubkey k d)) i = row_by_id d i"
proof -
  obtain r where "row_by_id d i = Some r" using assms row_by_id_None by fastforce
  then show ?thesis by (simp add: row_by_id_def pubkeys_insert find_append)
qed

lemma db_ok_insert:
  assumes ok: "db_ok d" and k: "length k = 32"
  shows "db_ok (snd (insert_pubkey k d))"
proof -
  let ?d = "snd (insert_pubkey k d)"
  have fresh: "next_id d \<notin> ids d" using db_okD(4) [OF ok] by (force simp: ids_def)
  have sub: "ids d \<subseteq> ids ?d" by (simp add: ids_insert)
  have key: "k \<notin> row_pubkey ` set (pubkeys d)" if "row_by_key d k = None"
    using that by (simp add: row_by_key_None)
  have "distinct (map row_id (pubkeys ?d)) \<and> distinct (map row_pubkey (pubkeys ?d))"
    using ok fresh key by (auto simp: db_ok_def pubkeys_insert ids_def)
  moreover have "\<forall>r \<in> set (pubkeys ?d). row_ok r \<and> 0 < row_id r \<and> row_id r < next_id ?d"
    using ok k by (auto simp: db_ok_def pubkeys_insert row_ok_new)
  moreover have "\<forall>(a, b) \<in> set (follows ?d). a \<in> ids ?d \<and> b \<in> ids ?d \<and> a \<noteq> b"
    using ok sub by (auto simp: db_ok_def)
  moreover have "\<forall>l \<in> set (pubkey_relays ?d). rel_pubkey_id l \<in> ids ?d \<and> rel_marker l \<in> markers"
    using ok sub by (auto simp: db_ok_def)
  ultimately show ?thesis using ok by (simp add: db_ok_def)
qed

interpretation pubkeys: get_or_create id_of insert_pubkey db_ok "\<lambda>k. length k = 32"
proof
  fix s :: db and k k' i
  show "length k = 32 \<Longrightarrow> db_ok s \<Longrightarrow> db_ok (snd (insert_pubkey k s))" by (rule db_ok_insert)
  show "id_of (snd (insert_pubkey k s)) k'
      = (if k' = k then Some (fst (insert_pubkey k s)) else id_of s k')"
    unfolding id_of_def row_by_key_insert fst_insert_pubkey
    by (cases "row_by_key s k") simp_all
  show "id_of s k = Some i \<Longrightarrow> fst (insert_pubkey k s) = i"
    by (auto simp: id_of_def fst_insert_pubkey)
  show "k = k'" if ok: "db_ok s" and k: "id_of s k = Some i" "id_of s k' = Some i"
  proof -
    obtain r r' where r: "row_by_key s k = Some r" "row_id r = i"
      and r': "row_by_key s k' = Some r'" "row_id r' = i"
      using k by (auto simp: id_of_def)
    have m: "r \<in> set (pubkeys s)" "row_pubkey r = k" "r' \<in> set (pubkeys s)" "row_pubkey r' = k'"
      using row_by_key_Some [OF r(1)] row_by_key_Some [OF r'(1)] by simp_all
    note uniq = row_by_id_mem [OF db_okD(1) [OF ok]]
    have "Some r = Some r'" using uniq [OF m(1)] uniq [OF m(3)] r(2) r'(2) by simp
    with m show ?thesis by simp
  qed
qed

lemma id_of_mem: "id_of d k = Some i \<Longrightarrow> i \<in> ids d"
  by (auto simp: id_of_def ids_def dest: row_by_key_Some)

lemma id_of_row: "db_ok d \<Longrightarrow> row_by_id d i = Some r \<Longrightarrow> id_of d (row_pubkey r) = Some i"
  using row_by_id_Some [of d i r] row_by_key_mem [OF db_okD(2)] by (auto simp: id_of_def)

section \<open>On the pool\<close>

lemma upsert_quiet:
  assumes "quiet P" "length k = 32"
  shows "upsert_pubkey P k w
    = (Inr (fst (insert_pubkey k (wdb w))),
       w\<lparr>wdb := snd (insert_pubkey k (wdb w)), wtick := Suc (wtick w)\<rparr>)"
  using assms by (simp add: upsert_pubkey_def PUBKEY_LEN_def exec_quiet split: prod.split)

lemma extends_insert: "extends d (snd (insert_pubkey k d))"
  by (auto simp: extends_def pubkeys_insert)

lemma keeps_upsert [keeps_intros]:
  assumes "rely P"
  shows "keeps (good d0) (upsert_pubkey P k)"
proof (cases "length k = 32")
  case True
  have "good d0 d'" if "good d0 d" "Inr (insert_pubkey k d) = Inr (x, d')" for d x d'
    using that db_ok_insert [OF _ True, of d] extends_insert [of d k]
    unfolding good_def by (metis extends_trans snd_conv sum.inject(2))
  then have "keeps (good d0) (exec P (\<lambda>n d. Inr (insert_pubkey k d)))"
    by (intro keeps_exec good_others [OF assms])
  with True show ?thesis by (simp add: upsert_pubkey_def PUBKEY_LEN_def)
qed (simp add: upsert_pubkey_def PUBKEY_LEN_def keeps_fail)

lemma keeps_set_fetch_status [keeps_intros]:
  assumes "rely P" "status_of st \<noteq> Some In_Progress"
  shows "keeps (good d0) (set_fetch_status P i st ts)"
  unfolding set_fetch_status_def
proof (rule keeps_exec)
  show "good d0 d \<Longrightarrow> good d0 (pg_others P n d)" for d n by (rule good_others [OF assms(1)])
  fix n d x d' assume g: "good d0 d" and s: "set_status_stmt i st ts n d = Inr (x, d')"
  show "good d0 d'"
  proof (cases "row_by_id d i")
    case None
    with s g show ?thesis by (simp add: set_status_stmt_def)
  next
    case (Some r)
    with s obtain st' where st': "status_of st = Some st'"
      and d': "d' = update_rows (\<lambda>r. row_id r = i)
        (\<lambda>r. r\<lparr>row_status := st', last_fetched_at := Some ts\<rparr>) d"
      by (auto simp: set_status_stmt_def split: option.splits)
    have kid: "keeps_identity (\<lambda>r. r\<lparr>row_status := st', last_fetched_at := Some ts\<rparr>)"
      by (simp add: keeps_identity_def)
    show ?thesis
      using g assms(2) st' unfolding d' good_def extends_update [OF kid]
      by (auto intro!: db_ok_update [OF _ kid] simp: row_ok_def)
  qed
qed

lemma id_of_extends:
  assumes "db_ok d" "extends d0 d" "id_of d0 k = Some i"
  shows "id_of d k = Some i"
proof -
  obtain r where r: "r \<in> set (pubkeys d0)" "row_pubkey r = k" "row_id r = i"
    using assms(3) by (auto simp: id_of_def dest: row_by_key_Some)
  then have "(i, k) \<in> (\<lambda>r. (row_id r, row_pubkey r)) ` set (pubkeys d)"
    using assms(2) unfolding extends_def by force
  then obtain r' where r': "r' \<in> set (pubkeys d)" "row_pubkey r' = k" "row_id r' = i" by auto
  then show ?thesis using row_by_key_mem [OF db_okD(2) [OF assms(1)] r'(1)] by (simp add: id_of_def)
qed

section \<open>Properties\<close>

lemma upsert_Inr:
  assumes "rely P" "db_ok (wdb w)" "upsert_pubkey P k w = (Inr i, w')"
  shows "length k = 32 \<and> good (wdb w) (wdb w') \<and> id_of (wdb w') k = Some i"
proof -
  have k: "length k = 32"
    using assms(3) by (auto simp: upsert_pubkey_def PUBKEY_LEN_def fail_def split: if_splits)
  let ?d = "pg_others P (wtick w) (wdb w)"
  have w: "insert_pubkey k ?d = (i, wdb w')"
    using assms(3) k exec_Inr [of P "\<lambda>n d. Inr (insert_pubkey k d)" w i w']
    by (auto simp: upsert_pubkey_def PUBKEY_LEN_def)
  have "db_ok ?d" using relyD [OF assms(1,2)] by blast
  then have "id_of (wdb w') k = Some i" using pubkeys.lookup_upsert [OF _ k, of ?d k] w by simp
  moreover have "good (wdb w) (wdb w')"
    using keeps_upsert [OF assms(1), of "wdb w" k] assms(2,3) good_refl
    unfolding keeps_def by (metis snd_conv)
  ultimately show ?thesis using k by simp
qed

text \<open>
  C31. A key's surrogate id is found or created once and for all: whatever other connections
  do and however long it takes, two successful calls with one key return the same id, two
  calls with different keys different ids, and the database stays well-formed.
\<close>

theorem upsert_pubkey_stable:
  assumes "rely P" and "db_ok (wdb w)" and "upsert_pubkey P k w = (Inr i, w1)"
    and "good (wdb w1) (wdb w2)" and "upsert_pubkey P k' w2 = (Inr j, w3)"
  shows "(i = j \<longleftrightarrow> k = k') \<and> db_ok (wdb w3)
    \<and> (\<exists>r \<in> set (pubkeys (wdb w3)). row_id r = i \<and> row_pubkey r = k)"
proof -
  have u1: "id_of (wdb w1) k = Some i" using upsert_Inr [OF assms(1-3)] by blast
  have ok2: "db_ok (wdb w2)" using assms(4) by (simp add: good_def)
  note u2 = upsert_Inr [OF assms(1) ok2 assms(5)]
  have ok3: "db_ok (wdb w3)" and ext: "extends (wdb w1) (wdb w3)"
    using u2 assms(4) extends_trans unfolding good_def by blast+
  have k: "id_of (wdb w3) k = Some i" by (rule id_of_extends [OF ok3 ext u1])
  have "i = j \<longleftrightarrow> k = k'" using k u2 pubkeys.lookup_inj [OF ok3 k, of k'] by auto
  moreover have "\<exists>r \<in> set (pubkeys (wdb w3)). row_id r = i \<and> row_pubkey r = k"
    using k row_by_key_Some by (fastforce simp: id_of_def)
  ultimately show ?thesis using ok3 by blast
qed

definition demo_world :: world where
  "demo_world = \<lparr>wdb = empty_db, wtick = 0, wmet = (\<lambda>_. 0)\<rparr>"

theorem upsert_pubkey_stable_witness:
  "\<exists>i w1 j w3. upsert_pubkey demo_pg (replicate 32 1) demo_world = (Inr i, w1)
    \<and> upsert_pubkey demo_pg (replicate 32 2) w1 = (Inr j, w3) \<and> i \<noteq> j"
proof -
  obtain i w1 where 1: "upsert_pubkey demo_pg (replicate 32 1) demo_world = (Inr i, w1)"
    using upsert_quiet [OF quiet_demo, of "replicate 32 1" demo_world] by simp
  obtain j w3 where 3: "upsert_pubkey demo_pg (replicate 32 2) w1 = (Inr j, w3)"
    using upsert_quiet [OF quiet_demo, of "replicate 32 2" w1] by simp
  have r: "rely demo_pg" by (rule rely_quiet [OF quiet_demo])
  have d: "db_ok (wdb demo_world)" by (simp add: demo_world_def db_ok_empty)
  have "good (wdb w1) (wdb w1)" using upsert_Inr [OF r d 1] good_refl by (simp add: good_def)
  then have "i \<noteq> j" using upsert_pubkey_stable [OF r d 1 _ 3] by simp
  with 1 3 show ?thesis by blast
qed

end
