(* ===== verification/Store_Follows.thy ===== *)
theory Store_Follows imports Store_Pubkeys begin

text \<open>
  \<open>src/store/follows.rs\<close>: the transactional writer of a follow list. It reads the applied
  event and the current edges, computes the difference, and applies it with the freshness
  update in one transaction. The lemmas show what a call leaves behind, that a failed call
  leaves nothing half done, and that it keeps the invariants of the database.
\<close>

section \<open>Statements\<close>

definition select_applied_event :: "int \<Rightarrow> byte list option stmt" where
  "select_applied_event i n d =
     (case row_by_id d i of None \<Rightarrow> Inl Sqlx_RowNotFound | Some r \<Rightarrow> Inr (applied_event_id r, d))"

lemma reads_applied_event: "reads (select_applied_event i)"
  by (auto simp: reads_def select_applied_event_def split: option.splits)

definition confirm_row :: "datetime \<Rightarrow> pubkey_row \<Rightarrow> pubkey_row" where
  "confirm_row now r = r\<lparr>row_status := Fetched, last_fetched_at := Some now,
     last_confirmed_at := Some now, fetch_count := fetch_count r + 1\<rparr>"

definition apply_row ::
  "datetime \<Rightarrow> byte list \<Rightarrow> datetime \<Rightarrow> bool \<Rightarrow> pubkey_row \<Rightarrow> pubkey_row" where
  "apply_row now event_id created_at changed r =
     r\<lparr>row_status := Fetched, applied_event_id := Some event_id,
       applied_created_at := Some created_at, last_fetched_at := Some now,
       last_confirmed_at := Some now, fetch_count := fetch_count r + 1,
       last_changed_at := (if changed then Some now else last_changed_at r),
       change_count := change_count r + (if changed then 1 else 0)\<rparr>"

definition delete_edge :: "int \<Rightarrow> int \<Rightarrow> db \<Rightarrow> db" where
  "delete_edge i j d = d\<lparr>follows := filter (\<lambda>e. e \<noteq> (i, j)) (follows d)\<rparr>"

text \<open>
  \<open>INSERT INTO follows .. ON CONFLICT DO NOTHING\<close>: the check constraint, then the primary
  key, then the references to \<open>pubkeys\<close>.
\<close>

definition insert_edge :: "int \<Rightarrow> int \<Rightarrow> db \<Rightarrow> sqlx_error + db" where
  "insert_edge i j d =
     (if i = j then Inl (Sqlx_Database ''follows_check'')
      else if (i, j) \<in> set (follows d) then Inr d
      else if i \<notin> ids d \<or> j \<notin> ids d then Inl (Sqlx_Database ''follows_fkey'')
      else Inr (d\<lparr>follows := follows d @ [(i, j)]\<rparr>))"

fun delete_edges :: "int \<Rightarrow> int list \<Rightarrow> db \<Rightarrow> db" where
  "delete_edges i [] d = d"
| "delete_edges i (j # js) d = delete_edges i js (delete_edge i j d)"

fun insert_edges :: "int \<Rightarrow> int list \<Rightarrow> db \<Rightarrow> sqlx_error + db" where
  "insert_edges i [] d = Inr d"
| "insert_edges i (j # js) d =
     (case insert_edge i j d of Inl e \<Rightarrow> Inl e | Inr d' \<Rightarrow> insert_edges i js d')"

text \<open>The transaction: the deletes, the inserts, the freshness update.\<close>

definition diff_tx ::
  "pg \<Rightarrow> int \<Rightarrow> byte list \<Rightarrow> datetime \<Rightarrow> int list \<Rightarrow> int list \<Rightarrow> bool \<Rightarrow> unit stmt" where
  "diff_tx P i event_id created_at removed added changed n d =
     (case insert_edges i added (delete_edges i removed d) of
        Inl e \<Rightarrow> Inl e
      | Inr d' \<Rightarrow> Inr ((), update_rows (\<lambda>r. row_id r = i)
          (apply_row (pg_now P n) event_id created_at changed) d'))"

section \<open>The writer\<close>

definition apply_follow_list ::
  "pg \<Rightarrow> int \<Rightarrow> byte list \<Rightarrow> datetime \<Rightarrow> int list \<Rightarrow> bool io" where
  "apply_follow_list P follower_id event_id created_at followee_ids =
     bind_io (exec P (select_applied_event follower_id)) (\<lambda>current_event.
     if current_event = Some event_id then
       bind_io (exec P (\<lambda>n d. Inr ((), update_rows (\<lambda>r. row_id r = follower_id)
         (confirm_row (pg_now P n)) d))) (\<lambda>_. ret False)
     else
       let new_set = remdups (filter (\<lambda>i. i \<noteq> follower_id) followee_ids)
       in bind_io (exec P (\<lambda>n d. Inr (followees_of d follower_id, d))) (\<lambda>current_rows.
          let current_set = remdups current_rows;
              added = pg_id_order P (filter (\<lambda>i. i \<notin> set current_set) new_set);
              removed = pg_id_order P (filter (\<lambda>i. i \<notin> set new_set) current_set);
              changed = (added \<noteq> [] \<or> removed \<noteq> [])
          in bind_io (exec P (diff_tx P follower_id event_id created_at removed added changed))
               (\<lambda>_. ret True)))"

section \<open>The edge difference\<close>

lemma keeps_identity_confirm [simp]: "keeps_identity (confirm_row now)"
  by (simp add: keeps_identity_def confirm_row_def)

lemma keeps_identity_apply [simp]: "keeps_identity (apply_row now ev ts ch)"
  by (simp add: keeps_identity_def apply_row_def)

lemma set_followees_of [simp]: "set (followees_of d i) = {j. (i, j) \<in> set (follows d)}"
  by (force simp: followees_of_def)

lemma delete_edges_simps [simp]:
  "pubkeys (delete_edges i js d) = pubkeys d"
  "next_id (delete_edges i js d) = next_id d"
  "pubkey_relays (delete_edges i js d) = pubkey_relays d"
  "follows (delete_edges i js d) = filter (\<lambda>e. e \<notin> Pair i ` set js) (follows d)"
  by (induction js arbitrary: d) (auto simp: delete_edge_def intro!: filter_cong)

lemma ids_delete_edges [simp]: "ids (delete_edges i js d) = ids d"
  by (simp add: ids_def)

definition same_rows :: "db \<Rightarrow> db \<Rightarrow> bool" where
  "same_rows d d' \<longleftrightarrow>
     pubkeys d' = pubkeys d \<and> next_id d' = next_id d \<and> pubkey_relays d' = pubkey_relays d"

lemma insert_edge_Inr:
  assumes "insert_edge i j d = Inr d'"
  shows "same_rows d d' \<and> set (follows d') = insert (i, j) (set (follows d))
    \<and> (distinct (follows d) \<longrightarrow> distinct (follows d')) \<and> i \<noteq> j
    \<and> ((i, j) \<notin> set (follows d) \<longrightarrow> i \<in> ids d \<and> j \<in> ids d)"
  using assms by (auto simp: insert_edge_def same_rows_def split: if_splits)

lemma ids_same_rows: "same_rows d d' \<Longrightarrow> ids d' = ids d"
  by (simp add: same_rows_def ids_def)

lemma insert_edges_Inr:
  assumes "insert_edges i js d = Inr d'"
  shows "same_rows d d' \<and> set (follows d') = Pair i ` set js \<union> set (follows d)
    \<and> (distinct (follows d) \<longrightarrow> distinct (follows d')) \<and> i \<notin> set js
    \<and> (\<forall>j \<in> set js. (i, j) \<notin> set (follows d) \<longrightarrow> i \<in> ids d \<and> j \<in> ids d)"
  using assms
proof (induction js arbitrary: d)
  case (Cons j js)
  then obtain d1 where d1: "insert_edge i j d = Inr d1" "insert_edges i js d1 = Inr d'"
    by (auto split: sum.splits)
  note one = insert_edge_Inr [OF d1(1)] and rest = Cons.IH [OF d1(2)]
  have ids: "ids d1 = ids d" using one ids_same_rows by blast
  have "same_rows d d'" using one rest by (simp add: same_rows_def)
  then show ?case using one rest unfolding ids by auto
qed (simp add: same_rows_def)

lemma insert_edges_total:
  assumes "i \<notin> set js" "i \<in> ids d" "set js \<subseteq> ids d"
  shows "\<exists>d'. insert_edges i js d = Inr d'"
  using assms
proof (induction js arbitrary: d)
  case (Cons j js)
  have "\<exists>d1. insert_edge i j d = Inr d1" using Cons.prems by (simp add: insert_edge_def)
  then obtain d1 where d1: "insert_edge i j d = Inr d1" by blast
  then have "ids d1 = ids d" using insert_edge_Inr ids_same_rows by blast
  with Cons d1 show ?case by simp
qed simp

text \<open>A successful difference keeps the database well-formed, whatever it was computed from.\<close>

lemma row_ok_apply: "row_ok r \<Longrightarrow> row_ok (apply_row now ev ts ch r)"
  by (simp add: row_ok_def apply_row_def)

lemma row_ok_confirm: "row_ok r \<Longrightarrow> row_ok (confirm_row now r)"
  by (simp add: row_ok_def confirm_row_def)

lemma good_edges:
  assumes "good d0 d" and "same_rows d d'" and "distinct (follows d')"
    and "\<forall>(a, b) \<in> set (follows d'). (a, b) \<in> set (follows d) \<or> a \<in> ids d \<and> b \<in> ids d \<and> a \<noteq> b"
  shows "good d0 d'"
proof -
  have "\<forall>(a, b) \<in> set (follows d'). a \<in> ids d \<and> b \<in> ids d \<and> a \<noteq> b"
    using assms(1,4) db_okD(6) [of d] by (fastforce simp: good_def)
  with assms(1-3) ids_same_rows [OF assms(2)] show ?thesis
    by (simp add: good_def db_ok_def extends_def same_rows_def)
qed

lemma diff_tx_Inr:
  assumes "diff_tx P i ev ts removed added ch n d = Inr (x, d')"
  obtains d2 where "insert_edges i added (delete_edges i removed d) = Inr d2"
    "d' = update_rows (\<lambda>r. row_id r = i) (apply_row (pg_now P n) ev ts ch) d2"
  using assms
  by (cases "insert_edges i added (delete_edges i removed d)") (auto simp: diff_tx_def)

lemma good_diff_tx:
  assumes "good d0 d" and "diff_tx P i ev ts removed added ch n d = Inr (x, d')"
  shows "good d0 d'"
proof -
  let ?d1 = "delete_edges i removed d"
  obtain d2 where d2: "insert_edges i added ?d1 = Inr d2"
    and d': "d' = update_rows (\<lambda>r. row_id r = i) (apply_row (pg_now P n) ev ts ch) d2"
    by (rule diff_tx_Inr [OF assms(2)])
  note ins = insert_edges_Inr [OF d2]
  have dist: "distinct (follows d)" using assms(1) by (simp add: good_def db_ok_def)
  then have "distinct (follows d2)" using ins by simp
  moreover have "same_rows d d2" using ins by (simp add: same_rows_def)
  moreover have "a \<in> ids d \<and> b \<in> ids d \<and> a \<noteq> b"
    if "(a, b) \<in> set (follows d2)" "(a, b) \<notin> set (follows d)" for a b
  proof -
    have "a = i" "b \<in> set added" using ins that by auto
    moreover have "i \<notin> set added" "\<forall>j \<in> set added. (i, j) \<notin> set (follows ?d1)
        \<longrightarrow> i \<in> ids ?d1 \<and> j \<in> ids ?d1" using ins by blast+
    ultimately show ?thesis using that by auto
  qed
  then have "\<forall>(a, b) \<in> set (follows d2). (a, b) \<in> set (follows d)
      \<or> a \<in> ids d \<and> b \<in> ids d \<and> a \<noteq> b" by blast
  ultimately have "good d0 d2" by (intro good_edges [OF assms(1)])
  then show ?thesis unfolding d' by (intro good_update) (simp_all add: row_ok_apply)
qed

lemma keeps_apply_follow_list [keeps_intros]:
  assumes "rely P"
  shows "keeps (good d0) (apply_follow_list P i ev ts fs)"
proof -
  note exec = keeps_good_exec [OF assms]
  have 1: "keeps (good d0) (exec P (select_applied_event i))"
    by (rule exec) (auto simp: select_applied_event_def split: option.splits)
  have 2: "keeps (good d0) (exec P (\<lambda>n d. Inr ((), update_rows (\<lambda>r. row_id r = i)
      (confirm_row (pg_now P n)) d)))"
    by (rule exec) (auto intro!: good_update row_ok_confirm)
  have 3: "keeps (good d0) (exec P (\<lambda>n d. Inr (followees_of d i, d)))"
    by (rule exec) auto
  have 4: "keeps (good d0) (exec P (diff_tx P i ev ts rm ad ch))" for rm ad ch
    by (rule exec) (rule good_diff_tx)
  show ?thesis
    unfolding apply_follow_list_def Let_def
    by (intro keeps_bind keeps_if keeps_ret 1 2 3 4)
qed

section \<open>What a call leaves behind\<close>

text \<open>\<open>replaced\<close>: the tables after follower \<open>i\<close>'s edges became \<open>N\<close>, its row updated by \<open>f\<close>.\<close>

definition replaced :: "int \<Rightarrow> int set \<Rightarrow> (pubkey_row \<Rightarrow> pubkey_row) \<Rightarrow> db \<Rightarrow> db \<Rightarrow> bool" where
  "replaced i N f d d' \<longleftrightarrow>
     set (follows d') = {e \<in> set (follows d). fst e \<noteq> i} \<union> Pair i ` N \<and>
     pubkeys d' = map (\<lambda>r. if row_id r = i then f r else r) (pubkeys d) \<and>
     next_id d' = next_id d \<and> pubkey_relays d' = pubkey_relays d"

lemma diff_tx_replaces:
  assumes "i \<in> ids d" "N \<subseteq> ids d" "i \<notin> N"
    and "set added = N - set (followees_of d i)" "set removed = set (followees_of d i) - N"
  shows "\<exists>d'. diff_tx P i ev ts removed added ch n d = Inr ((), d')
    \<and> replaced i N (apply_row (pg_now P n) ev ts ch) d d'"
proof -
  let ?d1 = "delete_edges i removed d"
  obtain d2 where d2: "insert_edges i added ?d1 = Inr d2"
    using insert_edges_total [of i added ?d1] assms by auto
  note ins = insert_edges_Inr [OF d2]
  have "set (follows d2) = {e \<in> set (follows d). fst e \<noteq> i} \<union> Pair i ` N"
    using ins assms(4,5) by (auto simp: image_iff)
  with d2 ins show ?thesis by (auto simp: diff_tx_def replaced_def same_rows_def)
qed

lemma row_by_id_ids: "row_by_id d i = Some r \<Longrightarrow> i \<in> ids d"
  by (metis option.distinct(1) row_by_id_None)

lemma apply_follow_list_new:
  assumes q: "quiet P" and r: "row_by_id (wdb w) i = Some r"
    and ev: "applied_event_id r \<noteq> Some ev" and fs: "set fs \<subseteq> ids (wdb w)"
  shows "\<exists>w'. apply_follow_list P i ev ts fs w = (Inr True, w')
    \<and> replaced i (set fs - {i})
        (apply_row (pg_now P (wtick w + 2)) ev ts (set (followees_of (wdb w) i) \<noteq> set fs - {i}))
        (wdb w) (wdb w')
    \<and> wtick w' = wtick w + 3 \<and> wmet w' = wmet w"
proof -
  let ?d = "wdb w" and ?N = "remdups (filter (\<lambda>j. j \<noteq> i) fs)"
  let ?C = "remdups (followees_of ?d i)"
  let ?ad = "pg_id_order P (filter (\<lambda>j. j \<notin> set ?C) ?N)"
  let ?rm = "pg_id_order P (filter (\<lambda>j. j \<notin> set ?N) ?C)"
  let ?ch = "?ad \<noteq> [] \<or> ?rm \<noteq> []"
  have o: "pg_orders_ok P" using q by (simp add: quiet_def)
  have ad: "set ?ad = (set fs - {i}) - set (followees_of ?d i)"
    and rm: "set ?rm = set (followees_of ?d i) - (set fs - {i})"
    by (auto simp: pg_id_order_set [OF o])
  have ch: "?ch = (set (followees_of ?d i) \<noteq> set fs - {i})"
    using ad rm by (metis Diff_eq_empty_iff empty_set set_empty subset_antisym order_refl)
  obtain d' where d': "diff_tx P i ev ts ?rm ?ad ?ch (wtick w + 2) ?d = Inr ((), d')"
    and rep: "replaced i (set fs - {i}) (apply_row (pg_now P (wtick w + 2)) ev ts ?ch) ?d d'"
    using diff_tx_replaces [OF row_by_id_ids [OF r] _ _ ad rm] fs by blast
  have "apply_follow_list P i ev ts fs w = (Inr True, w\<lparr>wdb := d', wtick := wtick w + 3\<rparr>)"
    using r ev d'
    by (simp add: apply_follow_list_def bind_io_def exec_quiet [OF q] select_applied_event_def
        Let_def ret_def)
  with rep show ?thesis unfolding ch by simp
qed

lemma apply_follow_list_same:
  assumes q: "quiet P" and r: "row_by_id (wdb w) i = Some r" and ev: "applied_event_id r = Some ev"
  shows "apply_follow_list P i ev ts fs w
    = (Inr False, w\<lparr>wdb := update_rows (\<lambda>r. row_id r = i) (confirm_row (pg_now P (wtick w + 1)))
         (wdb w), wtick := wtick w + 2\<rparr>)"
  using r ev
  by (simp add: apply_follow_list_def bind_io_def exec_quiet [OF q] select_applied_event_def ret_def)

section \<open>Properties\<close>

text \<open>
  C12. Applying a new event replaces the follower's edges by exactly the given followees
  without the follower itself, touches no other edge, no other row and no relay, stamps the
  row fetched, and counts a change exactly when the edge set differs.
\<close>

theorem apply_follow_list_replaces:
  assumes "quiet P" and "db_ok (wdb w)" and "row_by_id (wdb w) i = Some r"
    and "applied_event_id r \<noteq> Some ev" and "set fs \<subseteq> ids (wdb w)"
  shows "\<exists>w'. apply_follow_list P i ev ts fs w = (Inr True, w') \<and> db_ok (wdb w')
    \<and> (\<forall>a b. (a, b) \<in> set (follows (wdb w')) \<longleftrightarrow>
         (if a = i then b \<in> set fs \<and> b \<noteq> i else (a, b) \<in> set (follows (wdb w))))
    \<and> (\<forall>j. row_by_id (wdb w') j = (if j \<noteq> i then row_by_id (wdb w) j else
         (let now = pg_now P (wtick w + 2);
              changed = (set (followees_of (wdb w) i) \<noteq> set fs - {i})
          in Some (r\<lparr>row_status := Fetched, applied_event_id := Some ev,
               applied_created_at := Some ts, last_fetched_at := Some now,
               last_confirmed_at := Some now, fetch_count := fetch_count r + 1,
               last_changed_at := (if changed then Some now else last_changed_at r),
               change_count := change_count r + (if changed then 1 else 0)\<rparr>))))
    \<and> pubkey_relays (wdb w') = pubkey_relays (wdb w)"
proof -
  let ?now = "pg_now P (wtick w + 2)" and ?ch = "set (followees_of (wdb w) i) \<noteq> set fs - {i}"
  obtain w' where w': "apply_follow_list P i ev ts fs w = (Inr True, w')"
    and rep: "replaced i (set fs - {i}) (apply_row ?now ev ts ?ch) (wdb w) (wdb w')"
    using apply_follow_list_new [OF assms(1,3,4,5)] by blast
  have "good (wdb w) (wdb w')"
    using keeps_apply_follow_list [OF rely_quiet [OF assms(1)], of "wdb w" i ev ts fs]
      good_refl [OF assms(2)] w' unfolding keeps_def by (metis snd_conv)
  moreover have "row_by_id (wdb w') j
      = (if j \<noteq> i then row_by_id (wdb w) j else Some (apply_row ?now ev ts ?ch r))" for j
  proof -
    have "row_by_id (wdb w') j
        = row_by_id (update_rows (\<lambda>r. row_id r = i) (apply_row ?now ev ts ?ch) (wdb w)) j"
      using rep by (simp add: replaced_def row_by_id_def)
    then show ?thesis using assms(3) by (simp add: row_by_id_update_id)
  qed
  moreover have "(a, b) \<in> set (follows (wdb w')) \<longleftrightarrow>
      (if a = i then b \<in> set fs \<and> b \<noteq> i else (a, b) \<in> set (follows (wdb w)))" for a b
    using rep by (auto simp: replaced_def)
  ultimately show ?thesis
    using w' rep by (simp add: good_def replaced_def apply_row_def Let_def)
qed

text \<open>Three keys with ids 1, 2 and 3, none fetched yet.\<close>

definition demo_db :: db where
  "demo_db = \<lparr>pubkeys = [new_row 1 (replicate 32 1), new_row 2 (replicate 32 2),
     new_row 3 (replicate 32 3)], next_id = 4, follows = [], pubkey_relays = []\<rparr>"

definition demo_start :: world where
  "demo_start = \<lparr>wdb = demo_db, wtick = 0, wmet = (\<lambda>_. 0)\<rparr>"

lemma demo_db_ok: "db_ok demo_db"
  by (simp add: db_ok_def demo_db_def row_ok_new)

lemma demo_start_simps [simp]: "wdb demo_start = demo_db" "wtick demo_start = 0"
  by (simp_all add: demo_start_def)

lemma demo_row: "row_by_id demo_db 1 = Some (new_row 1 (replicate 32 1))"
  by (simp add: row_by_id_def demo_db_def)

lemma demo_ids: "ids demo_db = {1, 2, 3}"
  by (simp add: ids_def demo_db_def)

theorem apply_follow_list_replaces_witness:
  "\<exists>w'. apply_follow_list demo_pg 1 [9] 100 [2, 1, 3, 2] demo_start = (Inr True, w')
    \<and> (\<forall>b. (1, b) \<in> set (follows (wdb w')) \<longleftrightarrow> b \<in> {2, 3})"
  using apply_follow_list_replaces [OF quiet_demo, of demo_start 1 "new_row 1 (replicate 32 1)" "[9]"
      "[2, 1, 3, 2]" 100]
  by (auto simp: demo_row demo_db_ok demo_ids new_row_def)

text \<open>
  C32. A second call with the event that is applied already is a confirmation: it returns
  false and changes no edge, no change count and no applied event, whatever followees it
  is given; it only counts the fetch and stamps the row.
\<close>

theorem apply_follow_list_idempotent:
  assumes "quiet P" and "db_ok (wdb w)" and "apply_follow_list P i ev ts fs w = (Inr b, w1)"
  shows "\<exists>r w2. apply_follow_list P i ev ts' fs' w1 = (Inr False, w2)
    \<and> follows (wdb w2) = follows (wdb w1) \<and> pubkey_relays (wdb w2) = pubkey_relays (wdb w1)
    \<and> row_by_id (wdb w1) i = Some r \<and> row_status r = Fetched \<and> applied_event_id r = Some ev
    \<and> row_by_id (wdb w2) i = Some (r\<lparr>fetch_count := fetch_count r + 1,
        last_fetched_at := Some (pg_now P (wtick w1 + 1)),
        last_confirmed_at := Some (pg_now P (wtick w1 + 1))\<rparr>)
    \<and> (\<forall>j. j \<noteq> i \<longrightarrow> row_by_id (wdb w2) j = row_by_id (wdb w1) j)"
proof -
  have ex: "\<exists>r0. row_by_id (wdb w) i = Some r0"
  proof (rule ccontr)
    assume "\<not> ?thesis"
    then have "row_by_id (wdb w) i = None" by simp
    then show False using assms(3)
      by (simp add: apply_follow_list_def bind_io_def exec_quiet [OF assms(1)]
          select_applied_event_def)
  qed
  then obtain r0 where r0: "row_by_id (wdb w) i = Some r0" by blast
  obtain r where r: "row_by_id (wdb w1) i = Some r" "row_status r = Fetched"
    "applied_event_id r = Some ev"
  proof (cases "applied_event_id r0 = Some ev")
    case True
    then have "wdb w1 = update_rows (\<lambda>r. row_id r = i) (confirm_row (pg_now P (wtick w + 1))) (wdb w)"
      using apply_follow_list_same [OF assms(1) r0, of ev ts fs] assms(3) by auto
    with r0 True show ?thesis
      by (intro that [of "confirm_row (pg_now P (wtick w + 1)) r0"])
         (simp_all add: row_by_id_update_id confirm_row_def)
  next
    case False
    have "\<exists>d2 ad rm ch n. diff_tx P i ev ts rm ad ch n (wdb w) = Inr ((), wdb w1)"
      using assms(3) False r0
      by (auto simp: apply_follow_list_def bind_io_Inr exec_quiet [OF assms(1)] Let_def ret_def
          select_applied_event_def split: if_splits sum.splits) blast
    then obtain d2 ad rm n ch where d2: "insert_edges i ad (delete_edges i rm (wdb w)) = Inr d2"
      and w1: "wdb w1 = update_rows (\<lambda>r. row_id r = i) (apply_row (pg_now P n) ev ts ch) d2"
      using diff_tx_Inr by metis
    have "row_by_id d2 i = Some r0"
      using insert_edges_Inr [OF d2] r0 by (simp add: same_rows_def row_by_id_def)
    then show ?thesis
      by (intro that [of "apply_row (pg_now P n) ev ts ch r0"])
         (simp_all add: w1 row_by_id_update_id apply_row_def)
  qed
  show ?thesis
    using r apply_follow_list_same [OF assms(1) r(1,3), of ts' fs']
    by (auto simp: row_by_id_update_id confirm_row_def)
qed

theorem apply_follow_list_idempotent_witness:
  "\<exists>w1 w2. apply_follow_list demo_pg 1 [9] 100 [2] demo_start = (Inr True, w1)
    \<and> apply_follow_list demo_pg 1 [9] 100 [3] w1 = (Inr False, w2)
    \<and> follows (wdb w2) = follows (wdb w1)"
proof -
  obtain w1 where w1: "apply_follow_list demo_pg 1 [9] 100 [2] demo_start = (Inr True, w1)"
    using apply_follow_list_new [OF quiet_demo, of demo_start 1 _ "[9]" "[2]" 100]
    by (auto simp: demo_row demo_ids new_row_def)
  show ?thesis
    using w1 apply_follow_list_idempotent [OF quiet_demo _ w1, of 100 "[3]"]
    by (auto simp: demo_db_ok)
qed

section \<open>Failures\<close>

lemma diff_tx_replaced:
  assumes "diff_tx P i ev ts removed added ch n d = Inr (x, d')"
    and "set added = N - set (followees_of d i)" "set removed = set (followees_of d i) - N"
  shows "replaced i N (apply_row (pg_now P n) ev ts ch) d d'"
proof -
  obtain d2 where d2: "insert_edges i added (delete_edges i removed d) = Inr d2"
    and d': "d' = update_rows (\<lambda>r. row_id r = i) (apply_row (pg_now P n) ev ts ch) d2"
    by (rule diff_tx_Inr [OF assms(1)])
  note ins = insert_edges_Inr [OF d2]
  have "set (follows d2) = {e \<in> set (follows d). fst e \<noteq> i} \<union> Pair i ` N"
    using ins assms(2,3) by (auto simp: image_iff)
  with d' ins show ?thesis by (auto simp: replaced_def same_rows_def)
qed

text \<open>The writing half of the call: the difference against edges read before.\<close>

lemma diff_alone:
  assumes "alone P"
    and "ad = pg_id_order P (filter (\<lambda>j. j \<notin> set C) (remdups (filter (\<lambda>j. j \<noteq> i) fs)))"
    and "rm = pg_id_order P (filter (\<lambda>j. j \<notin> set (remdups (filter (\<lambda>j. j \<noteq> i) fs))) C)"
    and "C = remdups (followees_of (wdb w) i)"
    and "bind_io (exec P (diff_tx P i ev ts rm ad (ad \<noteq> [] \<or> rm \<noteq> []))) (\<lambda>_. ret True) w = (res, w')"
  obtains e where "res = Inl e" "wdb w' = wdb w"
  | n where "replaced i (set fs - {i}) (apply_row (pg_now P n) ev ts
        (set (followees_of (wdb w) i) \<noteq> set fs - {i})) (wdb w) (wdb w')"
      "res = Inr True \<or> (\<exists>e. res = Inl e)"
proof -
  have o: "pg_orders_ok P" using assms(1) by (simp add: alone_def)
  have ad: "set ad = (set fs - {i}) - set (followees_of (wdb w) i)"
    and rm: "set rm = set (followees_of (wdb w) i) - (set fs - {i})"
    unfolding assms(2-4) by (auto simp: pg_id_order_set [OF o])
  have ch: "(ad \<noteq> [] \<or> rm \<noteq> []) = (set (followees_of (wdb w) i) \<noteq> set fs - {i})"
    using ad rm by (metis Diff_eq_empty_iff empty_set set_empty subset_antisym order_refl)
  from assms(5) show ?thesis
    by (cases rule: exec_alone_write [OF assms(1)])
      (use that diff_tx_replaced [OF _ ad rm] in \<open>unfold ch, blast+\<close>)
qed

text \<open>
  C13. No failure leaves a list half applied: with any of the round trips refused, or done
  but reported as failed, the tables are as before (and the call failed), or the row is
  confirmed, or the whole replacement is there, edges and freshness together. A call that
  returns success has done it.
\<close>

theorem apply_follow_list_atomic:
  assumes "alone P" and "apply_follow_list P i ev ts fs w = (res, w')"
  shows "(wdb w' = wdb w \<and> (\<exists>e. res = Inl e))
    \<or> (\<exists>n. wdb w' = update_rows (\<lambda>r. row_id r = i) (confirm_row (pg_now P n)) (wdb w)
         \<and> (\<exists>r. row_by_id (wdb w) i = Some r \<and> applied_event_id r = Some ev)
         \<and> (res = Inr False \<or> (\<exists>e. res = Inl e)))
    \<or> (\<exists>n. replaced i (set fs - {i}) (apply_row (pg_now P n) ev ts
              (set (followees_of (wdb w) i) \<noteq> set fs - {i})) (wdb w) (wdb w')
         \<and> (res = Inr True \<or> (\<exists>e. res = Inl e)))"
  using assms(2) unfolding apply_follow_list_def
proof (cases rule: exec_alone_read [OF assms(1) reads_applied_event,
      consumes 1, case_names err ok])
  case (ok cur w1)
  note w1 = ok(2)
  have r: "\<exists>r. row_by_id (wdb w) i = Some r \<and> applied_event_id r = cur"
    using ok(1) by (auto simp: select_applied_event_def split: option.splits)
  show ?thesis
  proof (cases "cur = Some ev")
    case True
    from ok(3) show ?thesis unfolding if_P [OF True]
    proof (cases rule: exec_alone_update [OF assms(1), consumes 1, case_names err ok])
      case ok
      then show ?thesis using r True w1 by metis
    qed (use w1 in simp)
  next
    case False
    from ok(3) show ?thesis unfolding if_not_P [OF False] Let_def
    proof (cases rule: exec_alone_read [OF assms(1) reads_select,
        consumes 1, case_names err ok])
      case inner: (ok rows w2)
      then have rows: "rows = followees_of (wdb w2) i" and w2: "wdb w2 = wdb w" using inner w1 by auto
      show ?thesis
        by (rule diff_alone [OF assms(1) refl refl refl inner(3) [unfolded rows]])
          (use w2 in metis)+
    qed (use w1 in auto)
  qed
qed auto

text \<open>A server whose third answer is lost.\<close>

definition flaky_pg :: pg where
  "flaky_pg = demo_pg\<lparr>pg_fault := (\<lambda>n. if n = 2 then Lost_Ack Sqlx_Io else Fine)\<rparr>"

lemma alone_flaky: "alone flaky_pg"
  by (simp add: alone_def flaky_pg_def demo_pg_def pg_orders_ok_def)

theorem apply_follow_list_atomic_witness:
  "\<exists>res w'. apply_follow_list flaky_pg 1 [9] 100 [2] demo_start = (res, w')
    \<and> (wdb w' = demo_db \<or> (\<forall>b. (1, b) \<in> set (follows (wdb w')) \<longleftrightarrow> b = 2))"
proof -
  obtain res w' where r: "apply_follow_list flaky_pg 1 [9] 100 [2] demo_start = (res, w')"
    by (cases "apply_follow_list flaky_pg 1 [9] 100 [2] demo_start")
  show ?thesis
    using r apply_follow_list_atomic [OF alone_flaky r]
    by (auto simp: demo_row new_row_def replaced_def)
qed

text \<open>
  The writer is last-writer-wins, not newest-wins: it never looks at the \<open>created_at\<close> of
  the list that is applied, so a list that is older than the applied one, once handed over,
  replaces it, edges and recorded time alike.
\<close>

theorem apply_follow_list_last_writer:
  assumes "quiet P" and "db_ok (wdb w)" and "row_by_id (wdb w) i = Some r"
    and "applied_event_id r = Some newer" and "applied_created_at r = Some ts"
    and "older \<noteq> newer" and "ts' < ts" and "set fs \<subseteq> ids (wdb w)"
  shows "\<exists>w' r'. apply_follow_list P i older ts' fs w = (Inr True, w')
    \<and> (\<forall>b. (i, b) \<in> set (follows (wdb w')) \<longleftrightarrow> b \<in> set fs \<and> b \<noteq> i)
    \<and> row_by_id (wdb w') i = Some r' \<and> applied_created_at r' = Some ts'"
proof -
  have "applied_event_id r \<noteq> Some older" using assms(4,6) by simp
  then obtain w' where w': "apply_follow_list P i older ts' fs w = (Inr True, w')"
    and rep: "replaced i (set fs - {i}) (apply_row (pg_now P (wtick w + 2)) older ts'
        (set (followees_of (wdb w) i) \<noteq> set fs - {i})) (wdb w) (wdb w')"
    using apply_follow_list_new [OF assms(1,3) _ assms(8)] by blast
  let ?f = "apply_row (pg_now P (wtick w + 2)) older ts'
    (set (followees_of (wdb w) i) \<noteq> set fs - {i})"
  have "row_by_id (wdb w') i = row_by_id (update_rows (\<lambda>r. row_id r = i) ?f (wdb w)) i"
    using rep by (simp add: replaced_def row_by_id_def)
  then have "row_by_id (wdb w') i = Some (?f r)"
    using assms(3) by (simp add: row_by_id_update_id)
  moreover have "applied_created_at (?f r) = Some ts'" by (simp add: apply_row_def)
  moreover have "\<forall>b. (i, b) \<in> set (follows (wdb w')) \<longleftrightarrow> b \<in> set fs \<and> b \<noteq> i"
    using rep by (auto simp: replaced_def)
  ultimately show ?thesis using w' by blast
qed

theorem apply_follow_list_last_writer_witness:
  "\<exists>w1 w2. apply_follow_list demo_pg 1 [9] 200 [2] demo_start = (Inr True, w1)
    \<and> apply_follow_list demo_pg 1 [8] 100 [3] w1 = (Inr True, w2)
    \<and> (1, 3) \<in> set (follows (wdb w2)) \<and> (1, 2) \<notin> set (follows (wdb w2))"
proof -
  let ?f = "apply_row 2 [9] 200 True"
  obtain w1 where w1: "apply_follow_list demo_pg 1 [9] 200 [2] demo_start = (Inr True, w1)"
    and rep: "replaced 1 {2} ?f demo_db (wdb w1)"
    using apply_follow_list_new [OF quiet_demo, of demo_start 1 _ "[9]" "[2]" 200]
    by (auto simp: demo_row demo_ids new_row_def demo_pg_def) (simp add: demo_db_def)
  have "good demo_db (wdb w1)"
    using keeps_apply_follow_list [OF rely_quiet [OF quiet_demo], of demo_db 1 "[9]" 200 "[2]"]
      good_refl [OF demo_db_ok] w1 unfolding keeps_def by (metis demo_start_simps(1) snd_conv)
  then have ok: "db_ok (wdb w1)" "ids demo_db \<subseteq> ids (wdb w1)"
    using ids_extends by (auto simp: good_def)
  have row: "row_by_id (wdb w1) 1 = Some (?f (new_row 1 (replicate 32 1)))"
    using rep by (simp add: replaced_def row_by_id_def demo_db_def apply_row_def)
  have "set [3] \<subseteq> ids (wdb w1)" using ok(2) by (simp add: demo_ids)
  then show ?thesis
    using w1 apply_follow_list_last_writer [OF quiet_demo ok(1) row, of "[9]" 200 "[8]" 100 "[3]"]
    by (auto simp: apply_row_def)
qed

end
