(* ===== verification/Store_Relays.thy ===== *)
theory Store_Relays imports Store_Follows Ingest begin

text \<open>
  \<open>src/store/relays.rs\<close>: the full replacement of a key's relay list in one transaction, and
  the read of its write relays. The lemmas show that the read after the write returns the
  urls whose first marker is \<open>write\<close> or \<open>both\<close>, and that nobody else's list is touched.
\<close>

section \<open>Statements\<close>

definition delete_relays :: "int \<Rightarrow> db \<Rightarrow> db" where
  "delete_relays i d = d\<lparr>pubkey_relays := filter (\<lambda>l. rel_pubkey_id l \<noteq> i) (pubkey_relays d)\<rparr>"

definition has_relay :: "db \<Rightarrow> int \<Rightarrow> ustring \<Rightarrow> bool" where
  "has_relay d i url \<longleftrightarrow> (i, url) \<in> (\<lambda>l. (rel_pubkey_id l, rel_url l)) ` set (pubkey_relays d)"

text \<open>
  \<open>INSERT INTO pubkey_relays .. ON CONFLICT (pubkey_id, url) DO NOTHING\<close>, with the check on
  the marker and the reference to \<open>pubkeys\<close>.
\<close>

definition insert_relay :: "int \<Rightarrow> ustring \<Rightarrow> ustring \<Rightarrow> datetime \<Rightarrow> db \<Rightarrow> sqlx_error + db" where
  "insert_relay i url marker seen_at d =
     (if marker \<notin> {lit ''read'', lit ''write'', lit ''both''}
        then Inl (Sqlx_Database ''pubkey_relays_marker_check'')
      else if has_relay d i url then Inr d
      else if i \<notin> ids d then Inl (Sqlx_Database ''pubkey_relays_fkey'')
      else Inr (d\<lparr>pubkey_relays := pubkey_relays d @
        [\<lparr>rel_pubkey_id = i, rel_url = url, rel_marker = marker, rel_seen_at = seen_at\<rparr>]\<rparr>))"

fun insert_relays ::
  "int \<Rightarrow> (ustring \<times> ustring) list \<Rightarrow> datetime \<Rightarrow> db \<Rightarrow> sqlx_error + db" where
  "insert_relays i [] ts d = Inr d"
| "insert_relays i ((url, marker) # rs) ts d =
     (case insert_relay i url marker ts d of Inl e \<Rightarrow> Inl e | Inr d' \<Rightarrow> insert_relays i rs ts d')"

definition replace_relays_tx ::
  "int \<Rightarrow> (ustring \<times> ustring) list \<Rightarrow> datetime \<Rightarrow> unit stmt" where
  "replace_relays_tx i relays seen_at n d =
     (case insert_relays i relays seen_at (delete_relays i d) of
        Inl e \<Rightarrow> Inl e | Inr d' \<Rightarrow> Inr ((), d'))"

section \<open>The operations\<close>

definition apply_relay_list ::
  "pg \<Rightarrow> int \<Rightarrow> (ustring \<times> ustring) list \<Rightarrow> datetime \<Rightarrow> unit io" where
  "apply_relay_list P pubkey_id relays seen_at = exec P (replace_relays_tx pubkey_id relays seen_at)"

definition write_relays :: "db \<Rightarrow> int \<Rightarrow> ustring list" where
  "write_relays d i = map rel_url (filter (\<lambda>l. rel_pubkey_id l = i
     \<and> rel_marker l \<in> {lit ''write'', lit ''both''}) (pubkey_relays d))"

definition lookup_write_relays :: "pg \<Rightarrow> int \<Rightarrow> ustring list io" where
  "lookup_write_relays P pubkey_id = exec P (\<lambda>n d. Inr (pg_url_order P (write_relays d pubkey_id), d))"

section \<open>What they do\<close>

definition relay_keys :: "db \<Rightarrow> (int \<times> ustring) list" where
  "relay_keys d = map (\<lambda>l. (rel_pubkey_id l, rel_url l)) (pubkey_relays d)"

definition relays_ok :: "db \<Rightarrow> bool" where
  "relays_ok d \<longleftrightarrow> distinct (relay_keys d) \<and>
     (\<forall>l \<in> set (pubkey_relays d). rel_pubkey_id l \<in> ids d \<and> rel_marker l \<in> markers)"

definition same_graph :: "db \<Rightarrow> db \<Rightarrow> bool" where
  "same_graph d d' \<longleftrightarrow> pubkeys d' = pubkeys d \<and> next_id d' = next_id d \<and> follows d' = follows d"

lemma same_graph_trans: "same_graph d d' \<Longrightarrow> same_graph d' d'' \<Longrightarrow> same_graph d d''"
  by (simp add: same_graph_def)

lemma ids_same_graph: "same_graph d d' \<Longrightarrow> ids d' = ids d"
  by (simp add: same_graph_def ids_def)

lemma db_ok_relays: "db_ok d \<Longrightarrow> same_graph d d' \<Longrightarrow> relays_ok d' \<Longrightarrow> db_ok d'"
  by (simp add: db_ok_def relays_ok_def relay_keys_def same_graph_def ids_def)

text \<open>The marker stored for a key's url.\<close>

definition marker_at :: "db \<Rightarrow> int \<Rightarrow> ustring \<Rightarrow> ustring option" where
  "marker_at d i url =
     map_of (map (\<lambda>l. ((rel_pubkey_id l, rel_url l), rel_marker l)) (pubkey_relays d)) (i, url)"

lemma has_relay_iff: "has_relay d i url \<longleftrightarrow> marker_at d i url \<noteq> None"
  by (force simp: has_relay_def marker_at_def map_of_eq_None_iff image_iff)

lemma insert_relay_Inr:
  assumes "insert_relay i url mk ts d = Inr d'" and "relays_ok d"
  shows "same_graph d d' \<and> relays_ok d' \<and> mk \<in> markers
    \<and> marker_at d' j u = (if j = i \<and> u = url \<and> marker_at d i url = None then Some mk
        else marker_at d j u)"
proof (cases "has_relay d i url")
  case True
  then show ?thesis using assms
    by (auto simp: insert_relay_def same_graph_def has_relay_iff markers_def split: if_splits)
next
  case False
  then have d': "d' = d\<lparr>pubkey_relays := pubkey_relays d @
      [\<lparr>rel_pubkey_id = i, rel_url = url, rel_marker = mk, rel_seen_at = ts\<rparr>]\<rparr>"
    and ok: "i \<in> ids d" "mk \<in> markers"
    using assms(1) by (auto simp: insert_relay_def markers_def split: if_splits)
  have "relays_ok d'"
    using assms(2) ok False by (auto simp: d' relays_ok_def relay_keys_def ids_def has_relay_def)
  moreover have "marker_at d' j u = (if j = i \<and> u = url then Some mk else marker_at d j u)"
    using False by (auto simp: d' marker_at_def has_relay_iff map_add_def split: option.split)
  ultimately show ?thesis using ok False by (auto simp: d' same_graph_def has_relay_iff)
qed

lemma insert_relays_Inr:
  assumes "insert_relays i rs ts d = Inr d'" and "relays_ok d"
  shows "same_graph d d' \<and> relays_ok d' \<and> snd ` set rs \<subseteq> markers
    \<and> marker_at d' j u = (if j = i \<and> marker_at d i u = None then map_of rs u else marker_at d j u)"
  using assms
proof (induction rs arbitrary: d)
  case Nil
  then show ?case by (auto simp: same_graph_def)
next
  case (Cons r rs)
  obtain url mk where r: "r = (url, mk)" by (cases r)
  then obtain d1 where d1: "insert_relay i url mk ts d = Inr d1" "insert_relays i rs ts d1 = Inr d'"
    using Cons.prems(1) by (auto split: sum.splits)
  note one = insert_relay_Inr [OF d1(1) Cons.prems(2)]
  have ok: "relays_ok d1" using one by blast
  note rest = Cons.IH [OF d1(2) ok]
  have "same_graph d d'" using one rest same_graph_trans by blast
  moreover have "marker_at d' j u
      = (if j = i \<and> marker_at d i u = None then map_of (r # rs) u else marker_at d j u)"
    using rest one [of j u] one [of i u] by (auto simp: r)
  ultimately show ?case using one rest r by auto
qed

lemma insert_relays_total:
  assumes "i \<in> ids d" and "snd ` set rs \<subseteq> markers"
  shows "\<exists>d'. insert_relays i rs ts d = Inr d'"
  using assms
proof (induction rs arbitrary: d)
  case (Cons r rs)
  obtain url mk where r: "r = (url, mk)" by (cases r)
  have "\<exists>d1. insert_relay i url mk ts d = Inr d1 \<and> ids d1 = ids d"
    using Cons.prems r by (auto simp: insert_relay_def markers_def ids_def)
  then obtain d1 where "insert_relay i url mk ts d = Inr d1" "ids d1 = ids d" by blast
  with Cons r show ?case by simp
qed simp

lemma delete_relays_spec:
  assumes "relays_ok d"
  shows "same_graph d (delete_relays i d)" "relays_ok (delete_relays i d)"
    "marker_at (delete_relays i d) j u = (if j = i then None else marker_at d j u)"
proof -
  show "same_graph d (delete_relays i d)" by (simp add: delete_relays_def same_graph_def)
  show "relays_ok (delete_relays i d)"
    using assms by (auto simp: delete_relays_def relays_ok_def relay_keys_def ids_def
        distinct_map intro: inj_on_subset)
  have "map_of (map (\<lambda>l. ((rel_pubkey_id l, rel_url l), rel_marker l))
      (filter (\<lambda>l. rel_pubkey_id l \<noteq> i) ls)) (j, u)
    = (if j = i then None
       else map_of (map (\<lambda>l. ((rel_pubkey_id l, rel_url l), rel_marker l)) ls) (j, u))" for ls
    by (induction ls) auto
  from this [of "pubkey_relays d"]
  show "marker_at (delete_relays i d) j u = (if j = i then None else marker_at d j u)"
    by (simp add: marker_at_def delete_relays_def)
qed

lemma relays_ok_db: "db_ok d \<Longrightarrow> relays_ok d"
  by (simp add: db_ok_def relays_ok_def relay_keys_def)

lemma replace_relays_Inr:
  assumes "replace_relays_tx i rs ts n d = Inr (x, d')" and "db_ok d"
  shows "same_graph d d' \<and> db_ok d'
    \<and> marker_at d' j u = (if j = i then map_of rs u else marker_at d j u)"
proof -
  have ins: "insert_relays i rs ts (delete_relays i d) = Inr d'"
    using assms(1) by (auto simp: replace_relays_tx_def split: sum.splits)
  note del = delete_relays_spec [OF relays_ok_db [OF assms(2)]]
  note spec = insert_relays_Inr [OF ins del(2), of j u]
  have g: "same_graph d d'" using del(1) spec same_graph_trans by blast
  show ?thesis
    using g db_ok_relays [OF assms(2) g] spec del(3) [of i] by auto
qed

lemma keeps_apply_relay_list [keeps_intros]:
  assumes "rely P"
  shows "keeps (good d0) (apply_relay_list P i rs ts)"
  unfolding apply_relay_list_def
proof (rule keeps_good_exec [OF assms])
  fix n d x d' assume g: "good d0 d" and "replace_relays_tx i rs ts n d = Inr (x, d')"
  then have "same_graph d d'" "db_ok d'" using replace_relays_Inr by (auto simp: good_def)
  with g show "good d0 d'" by (simp add: good_def extends_def same_graph_def)
qed

lemma keeps_lookup_write_relays [keeps_intros]:
  "rely P \<Longrightarrow> keeps (good d0) (lookup_write_relays P i)"
  unfolding lookup_write_relays_def by (rule keeps_good_exec) auto

lemma set_write_relays:
  assumes "db_ok d"
  shows "set (write_relays d i) = {u. marker_at d i u \<in> {Some (lit ''write''), Some (lit ''both'')}}"
proof -
  have d: "distinct (map fst (map (\<lambda>l. ((rel_pubkey_id l, rel_url l), rel_marker l)) (pubkey_relays d)))"
    using assms by (simp add: db_ok_def o_def)
  have "marker_at d i u = Some mk \<longleftrightarrow>
      (\<exists>l \<in> set (pubkey_relays d). rel_pubkey_id l = i \<and> rel_url l = u \<and> rel_marker l = mk)" for u mk
    unfolding marker_at_def map_of_eq_Some_iff [OF d] by (auto simp: image_iff)
  then show ?thesis by (auto simp: write_relays_def)
qed

lemma distinct_write_relays: "db_ok d \<Longrightarrow> distinct (write_relays d i)"
  by (auto simp: write_relays_def db_ok_def distinct_map inj_on_def)

section \<open>Properties\<close>

lemma apply_relay_list_quiet:
  assumes "quiet P" and "db_ok (wdb w)" and "i \<in> ids (wdb w)" and "snd ` set rs \<subseteq> markers"
  shows "\<exists>d'. apply_relay_list P i rs ts w = (Inr (), w\<lparr>wdb := d', wtick := Suc (wtick w)\<rparr>)
    \<and> same_graph (wdb w) d' \<and> db_ok d'
    \<and> (\<forall>j u. marker_at d' j u = (if j = i then map_of rs u else marker_at (wdb w) j u))"
proof -
  have "ids (delete_relays i (wdb w)) = ids (wdb w)" by (simp add: delete_relays_def ids_def)
  then obtain d' where d': "replace_relays_tx i rs ts (wtick w) (wdb w) = Inr ((), d')"
    using insert_relays_total [of i "delete_relays i (wdb w)" rs ts] assms(3,4)
    by (auto simp: replace_relays_tx_def)
  then show ?thesis
    using replace_relays_Inr [OF d' assms(2)]
    by (auto simp: apply_relay_list_def exec_quiet [OF assms(1)])
qed

lemma marker_of_markers: "marker_of meta \<in> markers"
  by (cases meta rule: marker_of.cases) (auto simp: markers_def)

lemma extract_markers: "snd ` set (extract_relay_pairs E ev) \<subseteq> markers"
  by (auto simp: extract_relay_pairs_def marker_of_markers split: prod.splits)

text \<open>The first r-tag of a url decides: its marker, as the event has it.\<close>

definition first_meta :: "env \<Rightarrow> event \<Rightarrow> ustring \<Rightarrow> relay_metadata option option" where
  "first_meta E ev u = map_of (map (\<lambda>(url, meta). (sdk_url_str E url, meta)) (sdk_relay_list E ev)) u"

lemma map_of_extract:
  "map_of (extract_relay_pairs E ev) u = map_option marker_of (first_meta E ev u)"
proof -
  have "map_of (map (\<lambda>(url, meta). (sdk_url_str E url, marker_of meta)) xs) u
      = map_option marker_of (map_of (map (\<lambda>(url, meta). (sdk_url_str E url, meta)) xs) u)" for xs
    by (induction xs) auto
  then show ?thesis by (simp add: extract_relay_pairs_def first_meta_def)
qed

lemma marker_of_write: "marker_of meta \<in> {lit ''write'', lit ''both''} \<longleftrightarrow> meta \<noteq> Some Read"
  by (cases meta rule: marker_of.cases) auto

text \<open>
  C33. What the crawler stores of a relay-list event and reads back for the fallback are
  exactly the author's write relays: each url once whose first r-tag is marked write or not
  marked at all. The old list is gone, the other keys' lists and the graph are untouched.
\<close>

theorem relay_list_roundtrip:
  assumes "quiet P" and "db_ok (wdb w)" and "i \<in> ids (wdb w)"
    and "v = relay_list_from_event E ev"
  shows "\<exists>w1 us w2. apply_relay_list P i (vrl_relays v) (vrl_created_at v) w = (Inr (), w1)
    \<and> lookup_write_relays P i w1 = (Inr us, w2) \<and> distinct us
    \<and> set us = {u. first_meta E ev u \<in> {Some (Some Write), Some None}}
    \<and> (\<forall>j u. j \<noteq> i \<longrightarrow> marker_at (wdb w2) j u = marker_at (wdb w) j u)
    \<and> pubkeys (wdb w2) = pubkeys (wdb w) \<and> follows (wdb w2) = follows (wdb w) \<and> db_ok (wdb w2)"
proof -
  have v: "vrl_relays v = extract_relay_pairs E ev"
    using assms(4) by (simp add: relay_list_from_event_def)
  obtain d' where d': "apply_relay_list P i (vrl_relays v) (vrl_created_at v) w
        = (Inr (), w\<lparr>wdb := d', wtick := Suc (wtick w)\<rparr>)"
    and g: "same_graph (wdb w) d'" and ok: "db_ok d'"
    and m: "\<And>j u. marker_at d' j u
        = (if j = i then map_of (extract_relay_pairs E ev) u else marker_at (wdb w) j u)"
    using apply_relay_list_quiet [OF assms(1-3) extract_markers, of E ev "vrl_created_at v"]
    unfolding v by blast
  have o: "pg_orders_ok P" using assms(1) by (simp add: quiet_def)
  let ?us = "pg_url_order P (write_relays d' i)"
  have "distinct ?us"
    using distinct_write_relays [OF ok] o unfolding pg_orders_ok_def
    by (metis mset_eq_imp_distinct_iff)
  moreover have "set ?us = {u. first_meta E ev u \<in> {Some (Some Write), Some None}}"
  proof -
    have "(map_option marker_of x \<in> {Some (lit ''write''), Some (lit ''both'')})
        = (x \<in> {Some (Some Write), Some None})" for x
      by (cases x; cases "the x" rule: marker_of.cases) auto
    then show ?thesis
      by (simp add: pg_url_order_set [OF o] set_write_relays [OF ok] m map_of_extract)
  qed
  ultimately show ?thesis
    using d' g ok m
    by (simp add: lookup_write_relays_def exec_quiet [OF assms(1)] same_graph_def)
qed

theorem relay_list_roundtrip_witness:
  "\<exists>w1 us w2. apply_relay_list demo_pg 1 [([1], lit ''both'')] 100000000 demo_start = (Inr (), w1)
    \<and> lookup_write_relays demo_pg 1 w1 = (Inr us, w2) \<and> set us = {[1]}"
proof -
  let ?ev = "(demo_event 3 7 100 [])\<lparr>ev_kind := RelayList, ev_tags := [[[114], [1]]]\<rparr>"
  let ?v = "relay_list_from_event demo_env ?ev"
  have v: "vrl_relays ?v = [([1], lit ''both'')]" "vrl_created_at ?v = 100000000"
    by (simp_all add: relay_list_from_event_def extract_relay_pairs_def demo_env_def
        demo_event_def timestamp_to_datetime_def)
  have f: "first_meta demo_env ?ev u \<in> {Some (Some Write), Some None} \<longleftrightarrow> u = [1]" for u
    by (simp add: first_meta_def demo_env_def demo_event_def)
  have "1 \<in> ids (wdb demo_start)" by (simp add: demo_ids)
  then show ?thesis
    using relay_list_roundtrip [OF quiet_demo, of demo_start 1 ?v demo_env ?ev] demo_db_ok
    unfolding v f by auto
qed

text \<open>
  The replacement is all or nothing: under any failure the stored relays are the old
  ones or the new list's, for no key a mixture, and a reported success means the new ones.
\<close>

theorem apply_relay_list_atomic:
  assumes "alone P" and "db_ok (wdb w)" and "apply_relay_list P i rs ts w = (res, w')"
  shows "(wdb w' = wdb w \<and> (\<exists>e. res = Inl e))
    \<or> (\<forall>j u. marker_at (wdb w') j u = (if j = i then map_of rs u else marker_at (wdb w) j u))
       \<and> pubkeys (wdb w') = pubkeys (wdb w) \<and> follows (wdb w') = follows (wdb w)"
  using assms(3) unfolding apply_relay_list_def
proof (cases rule: exec_alone [OF assms(1), consumes 1, case_names err ok])
  case (ok x)
  then show ?thesis
    using replace_relays_Inr [OF ok(1) assms(2)] by (auto simp: same_graph_def)
qed auto

theorem apply_relay_list_atomic_witness:
  "\<exists>res w'. apply_relay_list flaky_pg 1 [([1], lit ''both'')] 5 demo_start = (res, w')
    \<and> (wdb w' = demo_db \<or> marker_at (wdb w') 1 [1] = Some (lit ''both''))"
proof -
  obtain res w' where r: "apply_relay_list flaky_pg 1 [([1], lit ''both'')] 5 demo_start = (res, w')"
    by (cases "apply_relay_list flaky_pg 1 [([1], lit ''both'')] 5 demo_start")
  have "db_ok (wdb demo_start)" by (simp add: demo_db_ok)
  from apply_relay_list_atomic [OF alone_flaky this r] r show ?thesis by auto
qed

end
