(* ===== verification/Frontier.thy ===== *)
theory Frontier imports Store_Relays begin

text \<open>
  \<open>src/crawl/frontier.rs\<close>: the crawl queue, which is the status column itself. Claiming
  leases rows, the three sweeps release leases or stale rows, and a failed fetch is retried
  a bounded number of times. The contract the sweeps share is the locale \<open>sweep\<close>.
\<close>

section \<open>Claiming\<close>

record claimed_author =
  ca_id :: int
  ca_pubkey :: "byte list"

definition claimed_author_of :: "pubkey_row \<Rightarrow> claimed_author" where
  "claimed_author_of r = \<lparr>ca_id = row_id r, ca_pubkey = row_pubkey r\<rparr>"

definition seed_anchor :: "pg \<Rightarrow> byte list \<Rightarrow> int io" where
  "seed_anchor P anchor_pubkey = upsert_pubkey P anchor_pubkey"

definition lease_row :: "datetime \<Rightarrow> pubkey_row \<Rightarrow> pubkey_row" where
  "lease_row now r = r\<lparr>row_status := In_Progress, claimed_at := Some now\<rparr>"

text \<open>
  \<open>SELECT id .. WHERE status = 'discovered' ORDER BY id LIMIT $1 FOR UPDATE SKIP LOCKED\<close>: rows
  another connection holds locked do not count towards the limit.
\<close>

definition claimable :: "pg \<Rightarrow> nat \<Rightarrow> db \<Rightarrow> pubkey_row list" where
  "claimable P n d = filter (\<lambda>r. \<not> pg_locked P n (row_id r))
     (sort_key row_id (filter (\<lambda>r. row_status r = Discovered) (pubkeys d)))"

definition claim_stmt :: "pg \<Rightarrow> int \<Rightarrow> claimed_author list stmt" where
  "claim_stmt P limit n d =
     (if limit < 0 then Inl (Sqlx_Database ''LIMIT must not be negative'')
      else let claimed = take (nat limit) (claimable P n d);
               d' = update_rows (\<lambda>r. row_id r \<in> row_id ` set claimed) (lease_row (pg_now P n)) d
           in Inr (map claimed_author_of (pg_row_order P claimed), d'))"

definition claim_batch :: "pg \<Rightarrow> int \<Rightarrow> claimed_author list io" where
  "claim_batch P limit = exec P (claim_stmt P limit)"

section \<open>Sweeps\<close>

definition release_row :: "pubkey_row \<Rightarrow> pubkey_row" where
  "release_row r = r\<lparr>row_status := Discovered, claimed_at := None, fetch_attempts := 0\<rparr>"

definition release_where :: "(pubkey_row \<Rightarrow> bool) \<Rightarrow> db \<Rightarrow> sqlx_error + nat \<times> db" where
  "release_where c d = Inr (rows_affected c d, update_rows c release_row d)"

definition before :: "datetime option \<Rightarrow> datetime \<Rightarrow> bool" where
  "before t limit = (case t of None \<Rightarrow> False | Some t \<Rightarrow> t < limit)"

definition orphaned :: "pubkey_row \<Rightarrow> bool" where
  "orphaned r \<longleftrightarrow> row_status r = In_Progress"

definition stale :: "datetime \<Rightarrow> int \<Rightarrow> pubkey_row \<Rightarrow> bool" where
  "stale now ttl_secs r \<longleftrightarrow>
     row_status r \<in> {Fetched, Not_Found, Failed} \<and>
     before (last_fetched_at r) (now - ttl_secs * 1000000)"

definition expired_lease :: "datetime \<Rightarrow> int \<Rightarrow> pubkey_row \<Rightarrow> bool" where
  "expired_lease now age_secs r \<longleftrightarrow>
     row_status r = In_Progress \<and> before (claimed_at r) (now - age_secs * 1000000)"

definition reclaim_stale_on_startup :: "pg \<Rightarrow> nat io" where
  "reclaim_stale_on_startup P = exec P (\<lambda>n. release_where orphaned)"

definition reclaim_stale_by_ttl :: "pg \<Rightarrow> int \<Rightarrow> nat io" where
  "reclaim_stale_by_ttl P ttl_secs = exec P (\<lambda>n. release_where (stale (pg_now P n) ttl_secs))"

definition reclaim_in_progress_older_than :: "pg \<Rightarrow> int \<Rightarrow> nat io" where
  "reclaim_in_progress_older_than P age_secs =
     exec P (\<lambda>n. release_where (expired_lease (pg_now P n) age_secs))"

section \<open>Retry or give up\<close>

text \<open>
  \<open>fetch_attempts\<close> is a \<open>SMALLINT\<close>: the statement fails when the bumped counter does not
  fit.
\<close>

definition attempt_row :: "int \<Rightarrow> datetime \<Rightarrow> pubkey_row \<Rightarrow> pubkey_row" where
  "attempt_row max_attempts now r =
     r\<lparr>fetch_attempts := fetch_attempts r + 1,
       row_status := (if fetch_attempts r + 1 \<ge> max_attempts then Failed else Discovered),
       last_fetched_at := (if fetch_attempts r + 1 \<ge> max_attempts then Some now
                           else last_fetched_at r),
       claimed_at := None\<rparr>"

definition attempt_stmt :: "int \<Rightarrow> int \<Rightarrow> datetime \<Rightarrow> unit stmt" where
  "attempt_stmt i max_attempts now n d =
     (case row_by_id d i of
        None \<Rightarrow> Inr ((), d)
      | Some r \<Rightarrow>
          if fetch_attempts r + 1 > 32767 then Inl (Sqlx_Database ''smallint out of range'')
          else Inr ((), update_rows (\<lambda>r. row_id r = i) (attempt_row max_attempts now) d))"

definition requeue_or_fail :: "pg \<Rightarrow> int \<Rightarrow> 16 word \<Rightarrow> datetime \<Rightarrow> unit io" where
  "requeue_or_fail P i max_attempts now = exec P (attempt_stmt i (sint max_attempts) now)"

section \<open>The invariants are kept\<close>

lemma keeps_identity_frontier [simp]:
  "keeps_identity (lease_row now)" "keeps_identity release_row"
  "keeps_identity (attempt_row mx now)"
  by (simp_all add: keeps_identity_def lease_row_def release_row_def attempt_row_def)

lemma row_ok_lease: "row_ok r \<Longrightarrow> row_ok (lease_row now r)"
  by (auto simp: row_ok_def lease_row_def)

lemma row_ok_release: "row_ok r \<Longrightarrow> row_ok (release_row r)"
  by (auto simp: row_ok_def release_row_def)

lemma row_ok_attempt: "row_ok r \<Longrightarrow> fetch_attempts r < 32767 \<Longrightarrow> row_ok (attempt_row mx now r)"
  by (auto simp: row_ok_def attempt_row_def)

lemma keeps_seed_anchor [keeps_intros]: "rely P \<Longrightarrow> keeps (good d0) (seed_anchor P k)"
  unfolding seed_anchor_def by (rule keeps_upsert)

lemma good_claim: "good d0 d \<Longrightarrow> claim_stmt P limit n d = Inr (x, d') \<Longrightarrow> good d0 d'"
  by (auto simp: claim_stmt_def Let_def row_ok_lease intro!: good_update split: if_splits)

lemma keeps_claim_batch [keeps_intros]: "rely P \<Longrightarrow> keeps (good d0) (claim_batch P limit)"
  unfolding claim_batch_def by (rule keeps_good_exec) (auto intro: good_claim)

lemma good_release: "good d0 d \<Longrightarrow> release_where c d = Inr (x, d') \<Longrightarrow> good d0 d'"
  by (auto simp: release_where_def row_ok_release intro!: good_update)

lemma keeps_reclaim [keeps_intros]:
  assumes "rely P"
  shows "keeps (good d0) (reclaim_stale_on_startup P)"
    "keeps (good d0) (reclaim_stale_by_ttl P ttl)"
    "keeps (good d0) (reclaim_in_progress_older_than P age)"
  unfolding reclaim_stale_on_startup_def reclaim_stale_by_ttl_def
    reclaim_in_progress_older_than_def
  by (rule keeps_good_exec [OF assms], rule good_release, assumption+)+

lemma good_attempt:
  assumes "good d0 d" and "attempt_stmt i mx now n d = Inr (x, d')"
  shows "good d0 d'"
proof (cases "row_by_id d i")
  case None
  with assms show ?thesis by (simp add: attempt_stmt_def)
next
  case (Some r)
  with assms(2) have a: "fetch_attempts r < 32767"
    and d': "d' = update_rows (\<lambda>r. row_id r = i) (attempt_row mx now) d"
    by (auto simp: attempt_stmt_def split: if_splits)
  have "r' = r" if "r' \<in> set (pubkeys d)" "row_id r' = i" for r'
    using that Some row_by_id_mem [of d r'] assms(1) by (auto simp: good_def db_ok_def)
  with a show ?thesis unfolding d' by (intro good_update assms(1)) (auto intro: row_ok_attempt)
qed

lemma keeps_requeue_or_fail [keeps_intros]:
  "rely P \<Longrightarrow> keeps (good d0) (requeue_or_fail P i mx now)"
  unfolding requeue_or_fail_def by (rule keeps_good_exec) (auto intro: good_attempt)

section \<open>What a sweep promises\<close>

text \<open>
  A sweep releases exactly the rows of its condition and reports how many; a released row
  no longer meets the condition, so a second sweep at the same moment finds nothing.
\<close>

definition swept :: "(pubkey_row \<Rightarrow> bool) \<Rightarrow> db \<Rightarrow> nat \<Rightarrow> db \<Rightarrow> bool" where
  "swept due d k d' \<longleftrightarrow>
     k = length (filter due (pubkeys d))
     \<and> (\<forall>i. row_by_id d' i = (case row_by_id d i of
          None \<Rightarrow> None
        | Some r \<Rightarrow> Some (if due r then r\<lparr>row_status := Discovered, claimed_at := None,
            fetch_attempts := 0\<rparr> else r)))
     \<and> filter due (pubkeys d') = [] \<and> follows d' = follows d \<and> pubkey_relays d' = pubkey_relays d"

locale sweep =
  fixes run :: "'t \<Rightarrow> db \<Rightarrow> sqlx_error + nat \<times> db"
    and due :: "'t \<Rightarrow> pubkey_row \<Rightarrow> bool"
  assumes run_def: "run t d = release_where (due t) d"
    and released: "\<not> due t (release_row r)"
begin

lemma run_swept:
  assumes "run t d = Inr (k, d')"
  shows "swept (due t) d k d'"
proof -
  have d': "d' = update_rows (due t) release_row d" and k: "k = rows_affected (due t) d"
    using assms by (simp_all add: run_def release_where_def)
  have none: "\<forall>r \<in> set (pubkeys d'). \<not> due t r" by (auto simp: d' released)
  have row: "row_by_id d' i = map_option (\<lambda>r. if due t r then release_row r else r) (row_by_id d i)" for i
    by (simp add: d' row_by_id_update)
  show ?thesis
    unfolding swept_def row
  proof (intro conjI allI)
    fix i
    show "map_option (\<lambda>r. if due t r then release_row r else r) (row_by_id d i)
        = (case row_by_id d i of None \<Rightarrow> None
           | Some r \<Rightarrow> Some (if due t r then r\<lparr>row_status := Discovered, claimed_at := None,
               fetch_attempts := 0\<rparr> else r))"
      by (cases "row_by_id d i") (simp_all add: release_row_def)
    show "filter (due t) (pubkeys d') = []" using none by (simp add: filter_empty_conv)
  qed (simp_all add: k rows_affected_def d')
qed

lemma run_twice:
  assumes "run t d = Inr (k, d')"
  shows "run t d' = Inr (0, d')"
proof -
  have d': "d' = update_rows (due t) release_row d"
    using assms by (simp add: run_def release_where_def)
  have none: "\<forall>r \<in> set (pubkeys d'). \<not> due t r" by (auto simp: d' released)
  then have "map (\<lambda>r. if due t r then release_row r else r) (pubkeys d') = pubkeys d'"
    by (intro map_idI) auto
  then have "update_rows (due t) release_row d' = d'" by (simp add: update_rows_def)
  moreover have "rows_affected (due t) d' = 0" using none rows_affected_none by blast
  ultimately show ?thesis by (simp add: run_def release_where_def)
qed

end

interpretation startup_sweep: sweep "\<lambda>t :: unit. release_where orphaned" "\<lambda>t. orphaned"
  by unfold_locales (simp_all add: orphaned_def release_row_def)

interpretation ttl_sweep: sweep "\<lambda>now. release_where (stale now ttl)" "\<lambda>now. stale now ttl" for ttl
  by unfold_locales (simp_all add: stale_def release_row_def)

interpretation lease_sweep: sweep "\<lambda>now. release_where (expired_lease now age)"
    "\<lambda>now. expired_lease now age" for age
  by unfold_locales (simp_all add: expired_lease_def release_row_def)

section \<open>What a claim returns\<close>

lemma set_claimable:
  "r \<in> set (claimable P n d) \<longleftrightarrow>
     r \<in> set (pubkeys d) \<and> row_status r = Discovered \<and> \<not> pg_locked P n (row_id r)"
  by (auto simp: claimable_def)

lemma sorted_claimable: "sorted (map row_id (claimable P n d))"
  by (simp add: claimable_def sorted_filter)

lemma distinct_claimable:
  assumes "db_ok d"
  shows "distinct (map row_id (claimable P n d))"
proof -
  have "distinct (pubkeys d)" "inj_on row_id (set (pubkeys d))"
    using db_okD(1) [OF assms] by (simp_all add: distinct_map)
  then show ?thesis by (simp add: claimable_def distinct_map inj_on_def)
qed

lemma claim_rest:
  assumes "db_ok d" and "r \<in> set (claimable P n d)" and "r \<notin> set (take k (claimable P n d))"
  shows "length (take k (claimable P n d)) = k
    \<and> (\<forall>c \<in> set (take k (claimable P n d)). row_id c < row_id r)"
proof -
  let ?xs = "claimable P n d"
  have r: "r \<in> set (drop k ?xs)"
    using assms(2,3) by (metis Un_iff append_take_drop_id set_append)
  then have len: "k < length ?xs" by (cases "k < length ?xs") auto
  have s: "sorted (map row_id (take k ?xs) @ map row_id (drop k ?xs))"
    using sorted_claimable [of P n d] by (metis append_take_drop_id map_append)
  have di: "distinct (map row_id (take k ?xs) @ map row_id (drop k ?xs))"
    using distinct_claimable [OF assms(1)] by (metis append_take_drop_id map_append)
  have "row_id c < row_id r" if c: "c \<in> set (take k ?xs)" for c
  proof -
    have "row_id c \<le> row_id r" using s r c by (auto simp: sorted_append)
    moreover have "row_id c \<noteq> row_id r" using di r c by fastforce
    ultimately show ?thesis by simp
  qed
  with len show ?thesis by simp
qed

lemma claim_spec:
  assumes "rely P" and "pg_orders_ok P" and "db_ok (wdb w)"
    and "claim_batch P limit w = (Inr cs, w')"
    and "d = pg_others P (wtick w) (wdb w)" and "now = pg_now P (wtick w)"
  shows "distinct (map ca_id cs) \<and> int (length cs) \<le> limit \<and> db_ok (wdb w')
    \<and> (\<forall>c \<in> set cs. \<exists>r. row_by_id d (ca_id c) = Some r \<and> row_pubkey r = ca_pubkey c
        \<and> row_status r = Discovered \<and> \<not> pg_locked P (wtick w) (ca_id c)
        \<and> row_by_id (wdb w') (ca_id c)
            = Some (r\<lparr>row_status := In_Progress, claimed_at := Some now\<rparr>))
    \<and> (\<forall>j. j \<notin> ca_id ` set cs \<longrightarrow> row_by_id (wdb w') j = row_by_id d j)
    \<and> (\<forall>r \<in> set (pubkeys d). row_status r = Discovered \<and> \<not> pg_locked P (wtick w) (row_id r)
        \<and> row_id r \<notin> ca_id ` set cs \<longrightarrow>
        int (length cs) = limit \<and> (\<forall>c \<in> set cs. ca_id c < row_id r))"
proof -
  let ?n = "wtick w" and ?k = "nat limit"
  let ?c = "take ?k (claimable P ?n d)"
  let ?cond = "\<lambda>r. row_id r \<in> row_id ` set ?c"
  have d: "db_ok d" using relyD [OF assms(1,3)] assms(5) by simp
  obtain d' where st: "claim_stmt P limit ?n d = Inr (cs, d')" and w': "wdb w' = d'"
    using exec_Inr [OF assms(4) [unfolded claim_batch_def]] unfolding assms(5) by auto
  then have lim: "0 \<le> limit" and cs: "cs = map claimed_author_of (pg_row_order P ?c)"
    and d': "d' = update_rows ?cond (lease_row now) d"
    by (auto simp: claim_stmt_def Let_def assms(6) split: if_splits)
  have m: "mset (pg_row_order P ?c) = mset ?c" using assms(2) by (simp add: pg_orders_ok_def)
  then have sc: "set (pg_row_order P ?c) = set ?c" and len: "length cs = length ?c"
    unfolding cs by (metis set_mset_mset, metis length_map size_mset)
  have ids: "ca_id ` set cs = row_id ` set ?c"
    by (simp add: cs sc image_image claimed_author_of_def)
  have "mset (map ca_id cs) = mset (map row_id ?c)"
    unfolding cs claimed_author_of_def by (simp add: o_def m)
  moreover have "distinct (map row_id ?c)"
    using distinct_claimable [OF d] by (simp add: take_map flip: take_map)
  ultimately have "distinct (map ca_id cs)" by (metis mset_eq_imp_distinct_iff)
  moreover have "int (length cs) \<le> limit" using len lim by simp
  moreover have "db_ok (wdb w')"
    using good_claim [OF good_refl [OF d] st] by (simp add: w' good_def)
  moreover have "\<exists>r. row_by_id d (ca_id c) = Some r \<and> row_pubkey r = ca_pubkey c
      \<and> row_status r = Discovered \<and> \<not> pg_locked P ?n (ca_id c)
      \<and> row_by_id (wdb w') (ca_id c) = Some (r\<lparr>row_status := In_Progress, claimed_at := Some now\<rparr>)"
    if "c \<in> set cs" for c
  proof -
    obtain r where r: "r \<in> set ?c" "c = claimed_author_of r" using \<open>c \<in> set cs\<close> by (auto simp: cs sc)
    then have mem: "r \<in> set (claimable P ?n d)" by (meson in_set_takeD)
    have row: "row_by_id d (row_id r) = Some r"
      using mem row_by_id_mem [OF db_okD(1) [OF d]] by (simp add: set_claimable)
    then have "row_by_id d' (row_id r) = Some (lease_row now r)"
      using r(1) by (simp add: d' row_by_id_update)
    with row mem r(2) show ?thesis by (simp add: set_claimable claimed_author_of_def lease_row_def w')
  qed
  moreover have "row_by_id (wdb w') j = row_by_id d j" if "j \<notin> ca_id ` set cs" for j
  proof (cases "row_by_id d j")
    case (Some r)
    then have "row_id r = j" using row_by_id_Some by blast
    with Some that show ?thesis unfolding ids by (auto simp: w' d' row_by_id_update)
  qed (simp add: w' d' row_by_id_update)
  moreover have "int (length cs) = limit \<and> (\<forall>c \<in> set cs. ca_id c < row_id r)"
    if r: "r \<in> set (pubkeys d)" "row_status r = Discovered" "\<not> pg_locked P ?n (row_id r)"
      "row_id r \<notin> ca_id ` set cs" for r
  proof -
    have "r \<in> set (claimable P ?n d)" using r by (simp add: set_claimable)
    moreover have "r \<notin> set ?c" using r(4) unfolding ids by blast
    ultimately have "length ?c = ?k" "\<forall>c \<in> set ?c. row_id c < row_id r"
      using claim_rest [OF d] by blast+
    then show ?thesis using len lim by (auto simp: cs sc claimed_author_of_def)
  qed
  ultimately show ?thesis by blast
qed

text \<open>
  C28. A claim leases the lowest-numbered discovered rows that nobody holds locked: each
  once, at most \<open>limit\<close> of them and fewer only if there are no more, with the key stored under
  the id; exactly these rows become leases stamped with the time of the claim, and no other
  row changes.
\<close>

theorem claim_batch_leases:
  assumes "rely P" and "pg_orders_ok P" and "db_ok (wdb w)"
    and "claim_batch P limit w = (Inr cs, w')"
    and "d = pg_others P (wtick w) (wdb w)" and "now = pg_now P (wtick w)"
  shows "distinct (map ca_id cs) \<and> int (length cs) \<le> limit \<and> db_ok (wdb w')
    \<and> (\<forall>c \<in> set cs. \<exists>r. row_by_id d (ca_id c) = Some r \<and> row_pubkey r = ca_pubkey c
        \<and> row_status r = Discovered \<and> \<not> pg_locked P (wtick w) (ca_id c)
        \<and> row_by_id (wdb w') (ca_id c)
            = Some (r\<lparr>row_status := In_Progress, claimed_at := Some now\<rparr>))
    \<and> (\<forall>j. j \<notin> ca_id ` set cs \<longrightarrow> row_by_id (wdb w') j = row_by_id d j)
    \<and> (\<forall>r \<in> set (pubkeys d). row_status r = Discovered \<and> \<not> pg_locked P (wtick w) (row_id r)
        \<and> row_id r \<notin> ca_id ` set cs \<longrightarrow>
        int (length cs) = limit \<and> (\<forall>c \<in> set cs. ca_id c < row_id r))"
  by (rule claim_spec [OF assms])

lemma demo_claim:
  "claim_batch demo_pg 2 demo_start
     = (Inr [\<lparr>ca_id = 1, ca_pubkey = replicate 32 1\<rparr>, \<lparr>ca_id = 2, ca_pubkey = replicate 32 2\<rparr>],
        demo_start\<lparr>wdb := update_rows (\<lambda>r. row_id r \<in> {1, 2}) (lease_row 0) demo_db, wtick := 1\<rparr>)"
proof -
  have "claimable demo_pg 0 demo_db
      = [new_row 1 (replicate 32 1), new_row 2 (replicate 32 2), new_row 3 (replicate 32 3)]"
    by (simp add: claimable_def demo_db_def demo_pg_def)
  then show ?thesis
    by (simp add: claim_batch_def exec_quiet [OF quiet_demo] claim_stmt_def claimed_author_of_def)
       (simp add: demo_pg_def claimed_author_of_def)
qed

theorem claim_batch_leases_witness:
  "\<exists>cs w'. claim_batch demo_pg 2 demo_start = (Inr cs, w') \<and> distinct (map ca_id cs)
    \<and> length cs \<le> 2 \<and> db_ok (wdb w')"
  using claim_batch_leases [OF rely_quiet [OF quiet_demo] _ _ demo_claim refl refl] demo_claim
    quiet_demo demo_db_ok
  by (auto simp: quiet_def)

lemma claimed_discovered:
  assumes "rely P" and "pg_orders_ok P" and "db_ok (wdb w)"
    and "claim_batch P limit w = (Inr cs, w')" and "c \<in> set cs"
  shows "\<exists>r. row_by_id (pg_others P (wtick w) (wdb w)) (ca_id c) = Some r \<and> row_status r = Discovered"
proof -
  let ?d = "pg_others P (wtick w) (wdb w)"
  have d: "db_ok ?d" using relyD [OF assms(1,3)] by simp
  obtain d' where "claim_stmt P limit (wtick w) ?d = Inr (cs, d')"
    using exec_Inr [OF assms(4) [unfolded claim_batch_def]] by auto
  then have "set cs = claimed_author_of ` set (take (nat limit) (claimable P (wtick w) ?d))"
    by (auto simp: claim_stmt_def Let_def pg_row_order_set [OF assms(2)] split: if_splits)
  then obtain r where r: "r \<in> set (claimable P (wtick w) ?d)" "c = claimed_author_of r"
    using assms(5) by (auto dest: in_set_takeD)
  then have "row_by_id ?d (row_id r) = Some r"
    using row_by_id_mem [OF db_okD(1) [OF d]] by (simp add: set_claimable)
  with r show ?thesis by (simp add: claimed_author_of_def set_claimable)
qed

text \<open>
  No double claim: as long as the rows of a first claim are still leased when a second
  connection's claim runs, whatever happened in between, the two claims have no row in
  common.
\<close>

theorem claims_disjoint:
  assumes "rely P" and "pg_orders_ok P" and "db_ok (wdb w)"
    and "claim_batch P limit w = (Inr cs, w')" and "db_ok (wdb w1)"
    and "\<forall>c \<in> set cs. \<exists>r. row_by_id (pg_others P (wtick w1) (wdb w1)) (ca_id c) = Some r
      \<and> row_status r = In_Progress"
    and "claim_batch P limit' w1 = (Inr cs', w2)"
  shows "ca_id ` set cs \<inter> ca_id ` set cs' = {}"
proof (rule ccontr)
  assume "\<not> ?thesis"
  then obtain c c' where c: "c \<in> set cs" "c' \<in> set cs'" "ca_id c = ca_id c'" by auto
  with claimed_discovered [OF assms(1,2,5,7) c(2)] assms(6) show False by fastforce
qed

theorem claims_disjoint_witness:
  "\<exists>cs w1 cs' w2. claim_batch demo_pg 2 demo_start = (Inr cs, w1)
    \<and> claim_batch demo_pg 2 w1 = (Inr cs', w2) \<and> ca_id ` set cs \<inter> ca_id ` set cs' = {}"
proof -
  have o: "pg_orders_ok demo_pg" using quiet_demo by (simp add: quiet_def)
  note r = rely_quiet [OF quiet_demo]
  obtain cs w1 where 1: "claim_batch demo_pg 2 demo_start = (Inr cs, w1)"
    and cs: "cs = [\<lparr>ca_id = 1, ca_pubkey = replicate 32 1\<rparr>, \<lparr>ca_id = 2, ca_pubkey = replicate 32 2\<rparr>]"
    and w1: "wdb w1 = update_rows (\<lambda>r. row_id r \<in> {1, 2}) (lease_row 0) demo_db"
    using demo_claim by simp
  obtain cs' w2 where 2: "claim_batch demo_pg 2 w1 = (Inr cs', w2)"
    by (simp add: claim_batch_def exec_quiet [OF quiet_demo] claim_stmt_def Let_def)
  have ok: "db_ok (wdb demo_start)" by (simp add: demo_db_ok)
  have ok1: "db_ok (wdb w1)"
    unfolding w1 by (rule db_ok_update [OF demo_db_ok]) (simp_all add: row_ok_lease)
  have "\<forall>c \<in> set cs. \<exists>r. row_by_id (wdb w1) (ca_id c) = Some r \<and> row_status r = In_Progress"
    by (simp add: cs w1 row_by_id_update row_by_id_def demo_db_def lease_row_def)
  then have "\<forall>c \<in> set cs. \<exists>r. row_by_id (pg_others demo_pg (wtick w1) (wdb w1)) (ca_id c) = Some r
      \<and> row_status r = In_Progress" by (simp add: demo_pg_def)
  from claims_disjoint [OF r o ok 1 ok1 this 2] 1 2 show ?thesis by blast
qed

section \<open>What the sweeps and the retry leave behind\<close>

text \<open>
  The three sweeps release exactly the rows they are meant for, and count them: all
  leases at startup; in a run, only leases older than the age given; by the TTL, only
  terminal rows whose last fetch is older. Every other row is unchanged, a younger lease
  above all, and a sweep repeated at the same moment finds nothing.
\<close>

theorem sweeps_release:
  assumes "quiet P" and "now = pg_now P (wtick w)"
  shows "(\<exists>k w'. reclaim_stale_on_startup P w = (Inr k, w')
      \<and> swept (\<lambda>r. row_status r = In_Progress) (wdb w) k (wdb w'))
    \<and> (\<exists>k w'. reclaim_in_progress_older_than P age w = (Inr k, w')
      \<and> swept (\<lambda>r. row_status r = In_Progress
           \<and> (\<exists>t. claimed_at r = Some t \<and> t < now - age * 1000000)) (wdb w) k (wdb w'))
    \<and> (\<exists>k w'. reclaim_stale_by_ttl P ttl w = (Inr k, w')
      \<and> swept (\<lambda>r. row_status r \<in> {Fetched, Not_Found, Failed}
           \<and> (\<exists>t. last_fetched_at r = Some t \<and> t < now - ttl * 1000000)) (wdb w) k (wdb w'))"
proof -
  have b: "before x l \<longleftrightarrow> (\<exists>t. x = Some t \<and> t < l)" for x l
    by (simp add: before_def split: option.split)
  have ex: "\<exists>k w'. exec P (\<lambda>n. release_where (c n)) w = (Inr k, w')
      \<and> release_where (c (wtick w)) (wdb w) = Inr (k, wdb w')" for c
    by (simp add: exec_quiet [OF assms(1)] release_where_def)
  note s1 = startup_sweep.run_swept and s2 = lease_sweep.run_swept and s3 = ttl_sweep.run_swept
  show ?thesis
    unfolding reclaim_stale_on_startup_def reclaim_in_progress_older_than_def
      reclaim_stale_by_ttl_def
    using ex [of "\<lambda>_. orphaned"] s1 [of "wdb w"]
      ex [of "\<lambda>n. expired_lease (pg_now P n) age"] s2 [of "pg_now P (wtick w)" age "wdb w"]
      ex [of "\<lambda>n. stale (pg_now P n) ttl"] s3 [of "pg_now P (wtick w)" ttl "wdb w"]
    unfolding orphaned_def [abs_def] expired_lease_def [abs_def] stale_def [abs_def] b assms(2)
    by meson
qed

text \<open>Key 1 leased at time 0 and key 2 not, an hour later.\<close>

definition hour_pg :: pg where
  "hour_pg = demo_pg\<lparr>pg_now := (\<lambda>n. 3600000000)\<rparr>"

lemma quiet_hour: "quiet hour_pg"
  using quiet_demo by (simp add: quiet_def hour_pg_def pg_orders_ok_def)

theorem sweeps_release_witness:
  "\<exists>w'. reclaim_in_progress_older_than hour_pg 60
      (demo_start\<lparr>wdb := update_rows (\<lambda>r. row_id r = 1) (lease_row 0) demo_db\<rparr>) = (Inr 1, w')
    \<and> map_option row_status (row_by_id (wdb w') 1) = Some Discovered"
proof -
  let ?w = "demo_start\<lparr>wdb := update_rows (\<lambda>r. row_id r = 1) (lease_row 0) demo_db\<rparr>"
  obtain k w' where k: "reclaim_in_progress_older_than hour_pg 60 ?w = (Inr k, w')"
    and sw: "swept (\<lambda>r. row_status r = In_Progress
           \<and> (\<exists>t. claimed_at r = Some t \<and> t < 3600000000 - 60 * 1000000)) (wdb ?w) k (wdb w')"
    using sweeps_release [OF quiet_hour refl, of ?w 60 60] by (auto simp: hour_pg_def)
  have "k = 1"
    using sw by (simp add: swept_def demo_db_def lease_row_def)
  moreover have "map_option row_status (row_by_id (wdb w') 1) = Some Discovered"
    using sw by (simp add: swept_def demo_db_def lease_row_def row_by_id_def)
  ultimately show ?thesis using k by blast
qed

lemma requeue_quiet:
  assumes "quiet P" and "row_by_id (wdb w) i = Some r" and "fetch_attempts r < 32767"
  shows "requeue_or_fail P i mx now w = (Inr (), w\<lparr>wdb := update_rows (\<lambda>r. row_id r = i)
    (attempt_row (sint mx) now) (wdb w), wtick := Suc (wtick w)\<rparr>)"
  using assms(2,3) by (simp add: requeue_or_fail_def exec_quiet [OF assms(1)] attempt_stmt_def)

text \<open>
  C29. A flaky key is given up after exactly the configured number of failures: \<open>k\<close> failed
  fetches add \<open>k\<close> to its counter and leave it discovered, with its last stamp, below the cap,
  and failed and stamped once the cap is reached; in both cases its lease is released, and no
  other row changes.
\<close>

theorem retries_bounded:
  assumes "quiet P" and "row_by_id (wdb w) i = Some r" and "0 < k"
    and "fetch_attempts r + int k \<le> 32767"
  shows "\<exists>w'. for_io (replicate k i) (\<lambda>i. requeue_or_fail P i mx now) w = (Inr (), w')
    \<and> row_by_id (wdb w') i = Some (
        let failed = (fetch_attempts r + int k \<ge> sint mx)
        in r\<lparr>row_status := (if failed then Failed else Discovered),
             last_fetched_at := (if failed then Some now else last_fetched_at r),
             claimed_at := None, fetch_attempts := fetch_attempts r + int k\<rparr>)
    \<and> (\<forall>j. j \<noteq> i \<longrightarrow> row_by_id (wdb w') j = row_by_id (wdb w) j)
    \<and> follows (wdb w') = follows (wdb w)"
  using assms(2-4)
proof (induction k arbitrary: w r)
  case (Suc k)
  let ?w1 = "w\<lparr>wdb := update_rows (\<lambda>r. row_id r = i) (attempt_row (sint mx) now) (wdb w),
    wtick := Suc (wtick w)\<rparr>"
  let ?r1 = "attempt_row (sint mx) now r"
  have step: "requeue_or_fail P i mx now w = (Inr (), ?w1)"
    using requeue_quiet [OF assms(1) Suc.prems(1)] Suc.prems(3) by simp
  have r1: "row_by_id (wdb ?w1) i = Some ?r1" using Suc.prems(1) by (simp add: row_by_id_update_id)
  have oth: "row_by_id (wdb ?w1) j = row_by_id (wdb w) j" if "j \<noteq> i" for j
    using that by (simp add: row_by_id_update_id)
  show ?case
  proof (cases k)
    case 0
    with step r1 oth show ?thesis
      by (simp add: bind_io_def ret_def attempt_row_def Let_def)
  next
    case (Suc n)
    have a: "fetch_attempts ?r1 = fetch_attempts r + 1" by (simp add: attempt_row_def)
    have lf: "fetch_attempts r + 1 + int k \<ge> sint mx" if "fetch_attempts r + 1 \<ge> sint mx"
      using that by simp
    obtain w' where w': "for_io (replicate k i) (\<lambda>i. requeue_or_fail P i mx now) ?w1 = (Inr (), w')"
      and row: "row_by_id (wdb w') i = Some (
        let failed = (fetch_attempts ?r1 + int k \<ge> sint mx)
        in ?r1\<lparr>row_status := (if failed then Failed else Discovered),
             last_fetched_at := (if failed then Some now else last_fetched_at ?r1),
             claimed_at := None, fetch_attempts := fetch_attempts ?r1 + int k\<rparr>)"
      and rest: "\<forall>j. j \<noteq> i \<longrightarrow> row_by_id (wdb w') j = row_by_id (wdb ?w1) j"
        "follows (wdb w') = follows (wdb ?w1)"
      using Suc.IH [OF r1] Suc.prems(3) Suc a by auto
    have "row_by_id (wdb w') i = Some (
        let failed = (fetch_attempts r + int (Suc k) \<ge> sint mx)
        in r\<lparr>row_status := (if failed then Failed else Discovered),
             last_fetched_at := (if failed then Some now else last_fetched_at r),
             claimed_at := None, fetch_attempts := fetch_attempts r + int (Suc k)\<rparr>)"
      using row lf by (auto simp: Let_def attempt_row_def)
    with step w' rest oth show ?thesis by (simp add: bind_io_def)
  qed
qed simp

theorem retries_bounded_witness:
  "\<exists>w'. for_io (replicate 3 1) (\<lambda>i. requeue_or_fail demo_pg i 3 50) demo_start = (Inr (), w')
    \<and> map_option row_status (row_by_id (wdb w') 1) = Some Failed"
  using retries_bounded [OF quiet_demo, of demo_start 1 _ 3 3 50]
  by (auto simp: demo_row new_row_def Let_def)

end
