(* ===== verification/Apply.thy ===== *)
theory Apply imports Relay_Seam Store_Relays Frontier begin

text \<open>
  \<open>src/crawl/apply.rs\<close>: one claimed batch from the fetched union to the settled rows. The
  injected closures are arguments: the outcome of the union fetch, and the two fetches of the
  NIP-65 fallback as functions. \<open>settled\<close> says what a batch may do to the tables; the lemmas
  show that it does that and no more, with the lease of every claimed row resolved.
\<close>

section \<open>The operations\<close>

definition apply_validated :: "env \<Rightarrow> pg \<Rightarrow> validated_follow_list \<Rightarrow> bool io" where
  "apply_validated E P vfl =
     bind_io (upsert_pubkey P (sdk_to_bytes E (vfl_follower vfl))) (\<lambda>follower_id.
     bind_io (map_io (upsert_pubkey P) (map (sdk_to_bytes E) (vfl_followees vfl))) (\<lambda>followee_ids.
     apply_follow_list P follower_id (sdk_id_bytes E (vfl_event_id vfl)) (vfl_created_at vfl)
       followee_ids))"

text \<open>
  The arguments the batch passes through. The health registry is shared, so its content is
  given per moment; \<open>b_fallback_fetch\<close> and \<open>b_relay_list_fetch\<close> are the injected closures.
\<close>

record batch_args =
  b_kind :: kind
  b_now :: timestamp
  b_clamp :: u64
  b_follow_cap :: nat
  b_max_attempts :: "16 word"
  b_fallback_enabled :: bool
  b_max_write_relays :: nat
  b_health :: "nat \<Rightarrow> health"
  b_fallback_fetch :: "pubkey \<Rightarrow> ustring list \<Rightarrow> relay_error + event list"
  b_relay_list_fetch :: "pubkey \<Rightarrow> relay_error + event list"

definition moment :: "nat io" where
  "moment w = (Inr (wtick w), w)"

text \<open>\<open>sort_by\<close> is stable, the healthier relay first.\<close>

definition healthier_first :: "health \<Rightarrow> ustring list \<Rightarrow> ustring list" where
  "healthier_first H relays = sort_key (\<lambda>r. - score H r) relays"

definition resolve_write_relays ::
  "env \<Rightarrow> pg \<Rightarrow> batch_args \<Rightarrow> claimed_author \<Rightarrow> pubkey \<Rightarrow> ustring list io" where
  "resolve_write_relays E P B claimed author =
     bind_io (lookup_write_relays P (ca_id claimed)) (\<lambda>known.
     if known \<noteq> [] then ret known
     else
       bind_io
         (case b_relay_list_fetch B author of
            Inl _ \<Rightarrow> ret known
          | Inr raw \<Rightarrow>
              bind_io (tally (resolve_relay_list E raw author (b_now B) (b_clamp B))) (\<lambda>found.
              case found of
                None \<Rightarrow> ret known
              | Some vrl \<Rightarrow>
                  bind_io (upsert_pubkey P (sdk_to_bytes E author)) (\<lambda>pubkey_id.
                  bind_io (apply_relay_list P pubkey_id (vrl_relays vrl) (vrl_created_at vrl)) (\<lambda>_.
                  lookup_write_relays P pubkey_id))))
         (\<lambda>fresh. if fresh \<noteq> [] then ret fresh else lookup_write_relays P (ca_id claimed)))"

definition fallback_recover ::
  "env \<Rightarrow> pg \<Rightarrow> batch_args \<Rightarrow> claimed_author \<Rightarrow> pubkey \<Rightarrow> validated_follow_list option io" where
  "fallback_recover E P B claimed author =
     bind_io (resolve_write_relays E P B claimed author) (\<lambda>write_relays.
     if write_relays = [] then ret None
     else
       bind_io moment (\<lambda>t.
       let chosen = take (b_max_write_relays B) (healthier_first (b_health B t) write_relays)
       in case b_fallback_fetch B author chosen of
            Inl _ \<Rightarrow> ret None
          | Inr raw \<Rightarrow>
              bind_io (tally (acquire_validated_lists E {author} (b_kind B) (b_now B) (b_clamp B)
                  (b_follow_cap B) (Inr raw))) (\<lambda>resolved.
              ret (case resolved of
                     Inl _ \<Rightarrow> None
                   | Inr v \<Rightarrow> if v = [] then None else Some (last v)))))"

text \<open>A \<open>HashMap\<close> filled by \<open>insert\<close>: a later entry replaces an earlier one.\<close>

definition index_by_author :: "validated_follow_list list \<Rightarrow> pubkey \<Rightarrow> validated_follow_list option" where
  "index_by_author vs = foldl (\<lambda>m v. m(vfl_follower v \<mapsto> v)) (\<lambda>_. None) vs"

definition settle_author ::
  "env \<Rightarrow> pg \<Rightarrow> batch_args \<Rightarrow> (pubkey \<Rightarrow> validated_follow_list option) \<Rightarrow> datetime \<Rightarrow> claimed_author
   \<Rightarrow> nat io" where
  "settle_author E P B by_author stamp claimed =
     (case sdk_from_slice E (ca_pubkey claimed) of
        None \<Rightarrow> bind_io (set_fetch_status P (ca_id claimed) ''not_found'' stamp) (\<lambda>_. ret 0)
      | Some author \<Rightarrow>
          (case by_author author of
             Some vfl \<Rightarrow> bind_io (apply_validated E P vfl) (\<lambda>_. ret 1)
           | None \<Rightarrow>
               bind_io (if b_fallback_enabled B then fallback_recover E P B claimed author else ret None)
                 (\<lambda>recovered.
                 case recovered of
                   Some vfl \<Rightarrow>
                     bind_io (apply_validated E P vfl) (\<lambda>_.
                     bind_io (tally (\<lambda>m. ((), count_by ''nip65_recovered'' 1 m))) (\<lambda>_. ret 1))
                 | None \<Rightarrow>
                     bind_io (set_fetch_status P (ca_id claimed) ''not_found'' stamp) (\<lambda>_. ret 0))))"

fun settle_batch ::
  "env \<Rightarrow> pg \<Rightarrow> batch_args \<Rightarrow> (pubkey \<Rightarrow> validated_follow_list option) \<Rightarrow> datetime
   \<Rightarrow> claimed_author list \<Rightarrow> nat \<Rightarrow> nat io" where
  "settle_batch E P B by_author stamp [] applied = ret applied"
| "settle_batch E P B by_author stamp (claimed # cs) applied =
     bind_io (settle_author E P B by_author stamp claimed) (\<lambda>k.
     settle_batch E P B by_author stamp cs (applied + k))"

definition process_batch ::
  "env \<Rightarrow> pg \<Rightarrow> batch_args \<Rightarrow> claimed_author list \<Rightarrow> relay_error + event list \<Rightarrow> nat io" where
  "process_batch E P B batch union_fetch =
     (if batch = [] then ret 0
      else
        let requested = set (List.map_filter (\<lambda>c. sdk_from_slice E (ca_pubkey c)) batch);
            stamp = timestamp_to_datetime E (b_now B)
        in bind_io (tally (acquire_validated_lists E requested (b_kind B) (b_now B) (b_clamp B)
             (b_follow_cap B) union_fetch)) (\<lambda>result.
           case result of
             Inl _ \<Rightarrow>
               bind_io (for_io batch (\<lambda>c. requeue_or_fail P (ca_id c) (b_max_attempts B) stamp))
                 (\<lambda>_. ret 0)
           | Inr validated \<Rightarrow>
               settle_batch E P B (index_by_author validated) stamp batch 0))"

section \<open>The invariants are kept\<close>

lemma keeps_moment [keeps_intros]: "keeps_at I moment"
  by (simp add: keeps_at_def moment_def)

lemma keeps_apply_validated [keeps_intros]:
  "rely P \<Longrightarrow> keeps (good d0) (apply_validated E P v)"
  unfolding apply_validated_def by (intro keeps_intros)

lemma keeps_resolve_write_relays [keeps_intros]:
  "rely P \<Longrightarrow> keeps (good d0) (resolve_write_relays E P B c a)"
  unfolding resolve_write_relays_def
  by (cases "b_relay_list_fetch B a") (auto intro!: keeps_intros split: option.split)

lemma keeps_fallback_recover [keeps_intros]:
  "rely P \<Longrightarrow> keeps (good d0) (fallback_recover E P B c a)"
  unfolding fallback_recover_def Let_def
  by (auto intro!: keeps_intros split: sum.split)

lemma keeps_settle_author [keeps_intros]:
  "rely P \<Longrightarrow> keeps (good d0) (settle_author E P B f ts c)"
  unfolding settle_author_def
  by (auto intro!: keeps_intros split: option.split simp: status_of_def)

lemma keeps_settle_batch [keeps_intros]:
  "rely P \<Longrightarrow> keeps (good d0) (settle_batch E P B f ts cs n)"
  by (induction cs arbitrary: n) (auto intro!: keeps_intros)

lemma keeps_process_batch [keeps_intros]:
  "rely P \<Longrightarrow> keeps (good d0) (process_batch E P B cs u)"
  unfolding process_batch_def Let_def
  by (auto intro!: keeps_intros split: sum.split)

section \<open>What a batch may do to the tables\<close>

text \<open>
  Outside the rows \<open>I\<close> nothing changes but that keys seen for the first time are added, as
  discovered rows without edges.
\<close>

definition settled :: "int set \<Rightarrow> db \<Rightarrow> db \<Rightarrow> bool" where
  "settled I d d' \<longleftrightarrow> good d d' \<and>
     (\<forall>j \<in> ids d - I. row_by_id d' j = row_by_id d j) \<and>
     (\<forall>j \<in> ids d' - ids d. \<exists>r. row_by_id d' j = Some r \<and> row_status r = Discovered) \<and>
     (\<forall>a b. a \<notin> I \<longrightarrow> ((a, b) \<in> set (follows d') \<longleftrightarrow> (a, b) \<in> set (follows d)))"

lemma settledD:
  assumes "settled I d d'"
  shows "db_ok d'" "extends d d'" "ids d \<subseteq> ids d'"
    "j \<in> ids d \<Longrightarrow> j \<notin> I \<Longrightarrow> row_by_id d' j = row_by_id d j"
    "j \<in> ids d' \<Longrightarrow> j \<notin> ids d \<Longrightarrow> \<exists>r. row_by_id d' j = Some r \<and> row_status r = Discovered"
    "a \<notin> I \<Longrightarrow> (a, b) \<in> set (follows d') \<longleftrightarrow> (a, b) \<in> set (follows d)"
  using assms ids_extends by (auto simp: settled_def good_def)

lemma settled_refl: "db_ok d \<Longrightarrow> settled I d d"
  by (simp add: settled_def good_refl)

lemma settled_mono: "settled I d d' \<Longrightarrow> I \<subseteq> J \<Longrightarrow> settled J d d'"
  unfolding settled_def by blast

lemma settled_trans:
  assumes 1: "settled I d d1" and 2: "settled J d1 d2" and J: "J \<subseteq> ids d"
  shows "settled (I \<union> J) d d2"
  unfolding settled_def
proof (intro conjI ballI allI impI)
  show "good d d2"
    using settledD(1) [OF 2] extends_trans [OF settledD(2) [OF 1] settledD(2) [OF 2]]
    by (simp add: good_def)
  show "row_by_id d2 j = row_by_id d j" if "j \<in> ids d - (I \<union> J)" for j
    using that settledD(4) [OF 1, of j] settledD(4) [OF 2, of j] settledD(3) [OF 1] by auto
  show "\<exists>r. row_by_id d2 j = Some r \<and> row_status r = Discovered" if j: "j \<in> ids d2 - ids d" for j
  proof (cases "j \<in> ids d1")
    case True
    then obtain r where "row_by_id d1 j = Some r" "row_status r = Discovered"
      using j settledD(5) [OF 1, of j] by auto
    moreover have "j \<notin> J" using j J by auto
    ultimately show ?thesis using settledD(4) [OF 2 True] by simp
  qed (use j settledD(5) [OF 2, of j] in auto)
  show "(a, b) \<in> set (follows d2) \<longleftrightarrow> (a, b) \<in> set (follows d)" if "a \<notin> I \<union> J" for a b
    using that settledD(6) [OF 1, of a b] settledD(6) [OF 2, of a b] by auto
qed

lemma settled_insert:
  assumes "db_ok d" "length k = 32"
  shows "settled {} d (snd (insert_pubkey k d))"
proof -
  have "row_by_id (snd (insert_pubkey k d)) j = Some (new_row (next_id d) k)"
    if "row_by_key d k = None" "j = next_id d" "j \<notin> ids d" for j
    using that row_by_id_None [of d j] by (simp add: row_by_id_def pubkeys_insert find_append)
  then show ?thesis
    using assms db_ok_insert [OF assms] extends_insert [of d k] row_by_id_insert [of _ d k]
    by (auto simp: settled_def good_def ids_insert split: if_splits)
qed

lemma settled_graph:
  assumes "same_graph d d'" "db_ok d'"
  shows "settled I d d'"
proof -
  have "extends d d'" "ids d' = ids d" "row_by_id d' = row_by_id d" "follows d' = follows d"
    using assms(1) by (auto simp: same_graph_def extends_def ids_def row_by_id_def fun_eq_iff)
  then show ?thesis using assms(2) by (simp add: settled_def good_def)
qed

lemma settled_update:
  assumes "db_ok d" "keeps_identity f" "\<And>r. row_by_id d i = Some r \<Longrightarrow> row_ok r \<Longrightarrow> row_ok (f r)"
  shows "settled {i} d (update_rows (\<lambda>r. row_id r = i) f d)"
proof -
  have "r' \<in> set (pubkeys d) \<Longrightarrow> row_id r' = i \<Longrightarrow> row_by_id d i = Some r'" for r'
    using row_by_id_mem [OF db_okD(1) [OF assms(1)], of r'] by auto
  then have "good d (update_rows (\<lambda>r. row_id r = i) f d)"
    using assms by (intro good_update good_refl) auto
  then show ?thesis using assms(2) by (simp add: settled_def row_by_id_update_id)
qed

lemma settled_replaced:
  assumes "replaced i N f d d'" "keeps_identity f" "good d d'"
  shows "settled {i} d d'" "row_by_id d' i = map_option f (row_by_id d i)"
proof -
  have r: "row_by_id d' = row_by_id (update_rows (\<lambda>r. row_id r = i) f d)"
    using assms(1) by (simp add: replaced_def row_by_id_def fun_eq_iff)
  have "ids d' = ids (update_rows (\<lambda>r. row_id r = i) f d)" using assms(1) by (simp add: replaced_def ids_def)
  then have "ids d' = ids d" using assms(2) by simp
  then show "settled {i} d d'"
    using assms by (auto simp: settled_def r row_by_id_update_id replaced_def)
  show "row_by_id d' i = map_option f (row_by_id d i)" using assms(2) by (simp add: r row_by_id_update_id)
qed

section \<open>Applying one list\<close>

lemma id_of_update: "keeps_identity f \<Longrightarrow> id_of (update_rows c f d) = id_of d"
proof
  fix k assume f: "keeps_identity f"
  show "id_of (update_rows c f d) k = id_of d k"
    using f by (cases "row_by_key d k") (auto simp: id_of_def row_by_key_update keeps_identity_def)
qed

lemma some_image:
  assumes "Some ` A = f ` B"
  shows "b \<in> A \<longleftrightarrow> (\<exists>k \<in> B. f k = Some b)"
proof -
  have "b \<in> A \<longleftrightarrow> Some b \<in> f ` B" by (auto simp flip: assms)
  also have "\<dots> \<longleftrightarrow> (\<exists>k \<in> B. f k = Some b)" by (metis imageE imageI)
  finally show ?thesis .
qed

lemma keepsD: "keeps I c \<Longrightarrow> I (wdb w) \<Longrightarrow> c w = (x, w') \<Longrightarrow> I (wdb w')"
  unfolding keeps_def by (metis snd_conv)

text \<open>The row after its owner's list was applied, and its edges.\<close>

definition list_applied ::
  "env \<Rightarrow> validated_follow_list \<Rightarrow> int \<Rightarrow> pubkey_row \<Rightarrow> db \<Rightarrow> db \<Rightarrow> bool" where
  "list_applied E v i r d d' \<longleftrightarrow>
     (\<exists>r'. row_by_id d' i = Some r' \<and> row_status r' = Fetched \<and> last_fetched_at r' \<noteq> None
       \<and> applied_event_id r' = Some (sdk_id_bytes E (vfl_event_id v))
       \<and> (\<forall>b. (i, b) \<in> set (follows d') \<longleftrightarrow>
            (if applied_event_id r = Some (sdk_id_bytes E (vfl_event_id v))
             then (i, b) \<in> set (follows d)
             else b \<noteq> i \<and> (\<exists>k \<in> set (vfl_followees v). id_of d' (sdk_to_bytes E k) = Some b))))
     \<and> (\<forall>k \<in> set (vfl_followees v). id_of d' (sdk_to_bytes E k) \<noteq> None)"

end
