(* ===== verification/Interference.thy ===== *)
theory Interference imports Apply begin

text \<open>
  Several batches are in flight at once, and the driver and the timers write to the same
  tables between any two round trips of a batch. \<open>peer I d d'\<close> is what all the others do as
  seen by the owner of the rows \<open>I\<close>: they keep the tables well-formed, lose no row, and leave
  those rows and their edges alone. \<open>shared I P\<close> is a server on which only such things happen
  in between; the rules below run the store's operations on it. That a batch is itself such a
  peer to every other one is shown in \<open>Batch\<close>.
\<close>

section \<open>Computations that return\<close>

definition delivers :: "'a io \<Rightarrow> world \<Rightarrow> ('a \<Rightarrow> world \<Rightarrow> bool) \<Rightarrow> bool" where
  "delivers c w Q \<longleftrightarrow> (\<exists>x w'. c w = (Inr x, w') \<and> Q x w')"

named_theorems delivers_intros

lemma delivers_ret [delivers_intros]: "Q x w \<Longrightarrow> delivers (ret x) w Q"
  by (simp add: delivers_def ret_def)

lemma delivers_bind [delivers_intros]:
  "delivers c w (\<lambda>x w1. delivers (k x) w1 Q) \<Longrightarrow> delivers (bind_io c k) w Q"
  by (fastforce simp: delivers_def bind_io_def)

lemma delivers_tally [delivers_intros]:
  "Q (fst (f (wmet w))) (w\<lparr>wmet := snd (f (wmet w))\<rparr>) \<Longrightarrow> delivers (tally f) w Q"
  by (simp add: delivers_def tally_def case_prod_beta)

lemma delivers_moment [delivers_intros]: "Q (wtick w) w \<Longrightarrow> delivers moment w Q"
  by (simp add: delivers_def moment_def)

lemma delivers_mono: "delivers c w Q \<Longrightarrow> (\<And>x w'. Q x w' \<Longrightarrow> R x w') \<Longrightarrow> delivers c w R"
  by (fastforce simp: delivers_def)

lemma delivers_eq: "c w = (Inr x, w') \<Longrightarrow> Q x w' \<Longrightarrow> delivers c w Q"
  by (simp add: delivers_def)

lemma delivers_then:
  "delivers c w Q \<Longrightarrow> (\<And>x w1. Q x w1 \<Longrightarrow> delivers (k x) w1 R) \<Longrightarrow> delivers (bind_io c k) w R"
  by (intro delivers_bind) (erule delivers_mono, blast)

section \<open>What the others leave alone\<close>

definition peer :: "int set \<Rightarrow> db \<Rightarrow> db \<Rightarrow> bool" where
  "peer I d d' \<longleftrightarrow> good d d' \<and> (\<forall>i \<in> I. row_by_id d' i = row_by_id d i)
     \<and> (\<forall>i \<in> I. \<forall>b. (i, b) \<in> set (follows d') \<longleftrightarrow> (i, b) \<in> set (follows d))"

lemma peerD:
  assumes "peer I d d'"
  shows "db_ok d'" "extends d d'" "ids d \<subseteq> ids d'" "i \<in> I \<Longrightarrow> row_by_id d' i = row_by_id d i"
    "i \<in> I \<Longrightarrow> (i, b) \<in> set (follows d') \<longleftrightarrow> (i, b) \<in> set (follows d)"
  using assms ids_extends by (auto simp: peer_def good_def)

lemma peer_refl: "db_ok d \<Longrightarrow> peer I d d"
  by (simp add: peer_def good_refl)

lemma peer_mono: "peer I d d' \<Longrightarrow> J \<subseteq> I \<Longrightarrow> peer J d d'"
  by (auto simp: peer_def)

lemma peer_trans: "peer I d d1 \<Longrightarrow> peer I d1 d2 \<Longrightarrow> peer I d d2"
  by (auto simp: peer_def good_def intro: extends_trans)

text \<open>Who settles his own rows is a peer to the owners of others.\<close>

lemma settled_peer:
  assumes "settled J d d'" and "I \<inter> J = {}" and "I \<subseteq> ids d"
  shows "peer I d d'"
  unfolding peer_def
proof (intro conjI ballI allI)
  show "good d d'" using assms(1) by (simp add: settled_def)
  show "row_by_id d' i = row_by_id d i" if "i \<in> I" for i
    using settledD(4) [OF assms(1)] that assms(2,3) by blast
  show "(i, b) \<in> set (follows d') \<longleftrightarrow> (i, b) \<in> set (follows d)" if "i \<in> I" for i b
    using settledD(6) [OF assms(1)] that assms(2) by blast
qed

text \<open>
  \<open>spares I P\<close>: whatever the others do between two round trips is peer to the owner of \<open>I\<close>.
  That is so when all of it consists of trips of owners of other rows.
\<close>

definition spares :: "int set \<Rightarrow> pg \<Rightarrow> bool" where
  "spares I P \<longleftrightarrow> (\<forall>n d. db_ok d \<and> I \<subseteq> ids d \<longrightarrow> peer I d (pg_others P n d))"

definition bystander :: "int set \<Rightarrow> db \<Rightarrow> db \<Rightarrow> bool" where
  "bystander I d d' \<longleftrightarrow> (\<exists>J. I \<inter> J = {} \<and> settled J d d')"

lemma bystanders_peer:
  assumes "(bystander I)\<^sup>*\<^sup>* d d'" and "db_ok d" and "I \<subseteq> ids d"
  shows "peer I d d'"
  using assms(1)
proof induction
  case (step d1 d2)
  then obtain J where J: "settled J d1 d2" "I \<inter> J = {}" by (auto simp: bystander_def)
  have "I \<subseteq> ids d1" using peerD(3) [OF step.IH] assms(3) by blast
  then show ?case using peer_trans [OF step.IH settled_peer [OF J]] by blast
qed (rule peer_refl [OF assms(2)])

lemma spares_bystanders:
  "(\<And>n d. db_ok d \<Longrightarrow> I \<subseteq> ids d \<Longrightarrow> (bystander I)\<^sup>*\<^sup>* d (pg_others P n d)) \<Longrightarrow> spares I P"
  by (simp add: spares_def bystanders_peer)

text \<open>
  The driver and the timers are such others too, as far as their statements pass over the rows.
\<close>

lemma peer_update:
  assumes ok: "db_ok d" and f: "keeps_identity f" "\<And>r. row_ok r \<Longrightarrow> row_ok (f r)"
    and c: "\<And>i r. i \<in> I \<Longrightarrow> row_by_id d i = Some r \<Longrightarrow> \<not> c r"
  shows "peer I d (update_rows c f d)"
  unfolding peer_def
proof (intro conjI ballI allI)
  show "good d (update_rows c f d)" by (intro good_update good_refl ok f)
  show "row_by_id (update_rows c f d) i = row_by_id d i" if "i \<in> I" for i
    using c [OF that] f(1) by (cases "row_by_id d i") (auto simp: row_by_id_update)
qed simp

definition shared :: "int set \<Rightarrow> pg \<Rightarrow> bool" where
  "shared I P \<longleftrightarrow> (\<forall>n. pg_fault P n = Fine) \<and> pg_orders_ok P \<and> spares I P"

lemma shared_quiet: "quiet P \<Longrightarrow> shared I P"
  by (simp add: quiet_def shared_def spares_def peer_refl)

text \<open>
  A round trip on such a server: whatever the others left of the tables, the statement runs
  on it.
\<close>

lemma exec_shared:
  assumes "shared I P" and "db_ok (wdb w)" and "I \<subseteq> ids (wdb w)"
    and "\<And>d. peer I (wdb w) d \<Longrightarrow> I \<subseteq> ids d \<Longrightarrow>
      \<exists>x d'. s (wtick w) d = Inr (x, d') \<and> Q x (w\<lparr>wtick := Suc (wtick w), wdb := d'\<rparr>)"
  shows "delivers (exec P s) w Q"
proof -
  let ?d = "pg_others P (wtick w) (wdb w)"
  have f: "pg_fault P (wtick w) = Fine" and p: "peer I (wdb w) ?d"
    using assms(1-3) by (auto simp: shared_def spares_def)
  have "I \<subseteq> ids ?d" using peerD(3) [OF p] assms(3) by blast
  then obtain x d' where "s (wtick w) ?d = Inr (x, d')" "Q x (w\<lparr>wtick := Suc (wtick w), wdb := d'\<rparr>)"
    using assms(4) [OF p] by blast
  then show ?thesis using f by (simp add: delivers_def exec_def Let_def)
qed

section \<open>The store under interference\<close>

lemma upsert_shared:
  assumes "shared I P" and "db_ok (wdb w)" and "I \<subseteq> ids (wdb w)" and k: "length k = 32"
  shows "delivers (upsert_pubkey P k) w (\<lambda>i w'. peer I (wdb w) (wdb w')
    \<and> id_of (wdb w') k = Some i \<and> wmet w' = wmet w)"
proof -
  have "delivers (exec P (\<lambda>n d. Inr (insert_pubkey k d))) w (\<lambda>i w'. peer I (wdb w) (wdb w')
    \<and> id_of (wdb w') k = Some i \<and> wmet w' = wmet w)"
  proof (rule exec_shared [OF assms(1-3)])
    fix d assume d: "peer I (wdb w) d" "I \<subseteq> ids d"
    have ok: "db_ok d" by (rule peerD(1) [OF d(1)])
    have "peer I (wdb w) (snd (insert_pubkey k d))"
      using peer_trans [OF d(1) settled_peer [OF settled_insert [OF ok k] _ d(2)]] by simp
    moreover have "id_of (snd (insert_pubkey k d)) k = Some (fst (insert_pubkey k d))"
      using pubkeys.lookup_upsert [OF ok k, of k] by simp
    ultimately show "\<exists>x d'. Inr (insert_pubkey k d) = Inr (x, d') \<and> peer I (wdb w) (wdb (w\<lparr>wtick := Suc (wtick w), wdb := d'\<rparr>))
      \<and> id_of (wdb (w\<lparr>wtick := Suc (wtick w), wdb := d'\<rparr>)) k = Some x
      \<and> wmet (w\<lparr>wtick := Suc (wtick w), wdb := d'\<rparr>) = wmet w"
      by (intro exI [of _ "fst (insert_pubkey k d)"] exI [of _ "snd (insert_pubkey k d)"]) simp
  qed
  then show ?thesis using k by (simp add: upsert_pubkey_def PUBKEY_LEN_def)
qed

lemma upsert_all_shared:
  assumes sh: "shared I P" and "db_ok (wdb w)" and "I \<subseteq> ids (wdb w)" and "\<forall>k \<in> set ks. length k = 32"
  shows "delivers (map_io (upsert_pubkey P) ks) w (\<lambda>fs w'. peer I (wdb w) (wdb w')
    \<and> map (id_of (wdb w')) ks = map Some fs \<and> wmet w' = wmet w)"
  using assms(2-4)
proof (induction ks arbitrary: w)
  case (Cons k ks)
  have k: "length k = 32" using Cons.prems(3) by simp
  show ?case unfolding map_io.simps
  proof (rule delivers_then [OF upsert_shared [OF sh Cons.prems(1,2) k]])
    fix i and w1 :: world
    assume a: "peer I (wdb w) (wdb w1) \<and> id_of (wdb w1) k = Some i \<and> wmet w1 = wmet w"
    then have p: "peer I (wdb w) (wdb w1)" by simp
    have I1: "I \<subseteq> ids (wdb w1)" using peerD(3) [OF p] Cons.prems(2) by blast
    note IH = Cons.IH [OF peerD(1) [OF p] I1]
    show "delivers (bind_io (map_io (upsert_pubkey P) ks) (\<lambda>ys. ret (i # ys))) w1
      (\<lambda>fs w'. peer I (wdb w) (wdb w') \<and> map (id_of (wdb w')) (k # ks) = map Some fs \<and> wmet w' = wmet w)"
    proof (rule delivers_then [OF IH])
      show "\<forall>k \<in> set ks. length k = 32" using Cons.prems(3) by simp
      fix fs and w2 :: world
      assume b: "peer I (wdb w1) (wdb w2) \<and> map (id_of (wdb w2)) ks = map Some fs \<and> wmet w2 = wmet w1"
      then have "id_of (wdb w2) k = Some i" using a id_of_extends [OF peerD(1,2)] by blast
      then show "delivers (ret (i # fs)) w2 (\<lambda>fs w'. peer I (wdb w) (wdb w')
          \<and> map (id_of (wdb w')) (k # ks) = map Some fs \<and> wmet w' = wmet w)"
        using a b peer_trans by (intro delivers_ret) auto
    qed
  qed
qed (simp add: delivers_ret peer_refl)

lemma update_shared:
  assumes "shared I P" and "db_ok (wdb w)" and "I \<subseteq> ids (wdb w)" and i: "i \<in> I"
    and r: "row_by_id (wdb w) i = Some r"
    and s: "\<And>n d. row_by_id d i = Some r \<Longrightarrow> s n d = Inr (x, update_rows (\<lambda>r. row_id r = i) (f n) d)"
    and f: "\<And>n. keeps_identity (f n)" "\<And>n r. row_ok r \<Longrightarrow> row_ok (f n r)"
  shows "delivers (exec P s) w (\<lambda>y w'. y = x \<and> peer (I - {i}) (wdb w) (wdb w')
    \<and> row_by_id (wdb w') i = Some (f (wtick w) r) \<and> wmet w' = wmet w
    \<and> (\<forall>b. (i, b) \<in> set (follows (wdb w')) \<longleftrightarrow> (i, b) \<in> set (follows (wdb w))))"
proof (rule exec_shared [OF assms(1-3)])
  fix d assume d: "peer I (wdb w) d" "I \<subseteq> ids d"
  let ?d' = "update_rows (\<lambda>r. row_id r = i) (f (wtick w)) d"
  have r1: "row_by_id d i = Some r" using peerD(4) [OF d(1) i] r by simp
  have "settled {i} d ?d'"
    by (rule settled_update [OF peerD(1) [OF d(1)] f(1)]) (rule f(2))
  then have "peer (I - {i}) d ?d'" by (rule settled_peer) (use d(2) in auto)
  then have "peer (I - {i}) (wdb w) ?d'" using peer_trans peer_mono [OF d(1)] by blast
  moreover have "row_by_id ?d' i = Some (f (wtick w) r)"
    using r1 by (simp add: row_by_id_update_id [OF f(1)])
  ultimately show "\<exists>y d'. s (wtick w) d = Inr (y, d') \<and> y = x
    \<and> peer (I - {i}) (wdb w) (wdb (w\<lparr>wtick := Suc (wtick w), wdb := d'\<rparr>))
    \<and> row_by_id (wdb (w\<lparr>wtick := Suc (wtick w), wdb := d'\<rparr>)) i = Some (f (wtick w) r)
    \<and> wmet (w\<lparr>wtick := Suc (wtick w), wdb := d'\<rparr>) = wmet w
    \<and> (\<forall>b. (i, b) \<in> set (follows (wdb (w\<lparr>wtick := Suc (wtick w), wdb := d'\<rparr>))) \<longleftrightarrow> (i, b) \<in> set (follows (wdb w)))"
    using s [OF r1] peerD(5) [OF d(1) i] by (intro exI [of _ x] exI [of _ ?d']) simp
qed

lemma read_shared:
  assumes "shared I P" and "db_ok (wdb w)" and "I \<subseteq> ids (wdb w)"
    and s: "\<And>n d. peer I (wdb w) d \<Longrightarrow> s n d = Inr (f d, d)"
  shows "delivers (exec P s) w (\<lambda>x w'. peer I (wdb w) (wdb w') \<and> x = f (wdb w') \<and> wmet w' = wmet w)"
  by (rule exec_shared [OF assms(1-3)]) (simp add: s)

text \<open>
  A follow list is applied in three round trips. Others may write between them, yet not to the
  row or its edges, so the difference computed from the second still fits the tables of the
  third.
\<close>

lemma diff_shared:
  assumes sh: "shared I P" and "db_ok (wdb w)" and "I \<subseteq> ids (wdb w)" and i: "i \<in> I"
    and r: "row_by_id (wdb w) i = Some r" and N: "N \<subseteq> ids (wdb w)" "i \<notin> N"
    and ad: "set added = N - set (followees_of (wdb w) i)"
    and rm: "set removed = set (followees_of (wdb w) i) - N"
  shows "delivers (exec P (diff_tx P i ev ts removed added ch)) w (\<lambda>_ w'.
    peer (I - {i}) (wdb w) (wdb w') \<and> wmet w' = wmet w
    \<and> row_by_id (wdb w') i = Some (apply_row (pg_now P (wtick w)) ev ts ch r)
    \<and> (\<forall>b. (i, b) \<in> set (follows (wdb w')) \<longleftrightarrow> b \<in> N))"
proof (rule exec_shared [OF assms(1-3)])
  fix d assume d: "peer I (wdb w) d" "I \<subseteq> ids d"
  let ?f = "apply_row (pg_now P (wtick w)) ev ts ch"
  have ok: "db_ok d" by (rule peerD(1) [OF d(1)])
  have f: "set (followees_of d i) = set (followees_of (wdb w) i)"
    using peerD(5) [OF d(1) i] by simp
  have "N \<subseteq> ids d" "i \<in> ids d" using N(1) peerD(3) [OF d(1)] d(2) i by auto
  then obtain d' where d': "diff_tx P i ev ts removed added ch (wtick w) d = Inr ((), d')"
    and rep: "replaced i N ?f d d'"
    using diff_tx_replaces [of i d N added removed P ev ts ch "wtick w"] N(2) ad rm f by auto
  note set = settled_replaced [OF rep keeps_identity_apply good_diff_tx [OF good_refl [OF ok] d']]
  have "peer (I - {i}) d d'" by (rule settled_peer [OF set(1)]) (use d(2) in auto)
  then have "peer (I - {i}) (wdb w) d'" using peer_trans peer_mono [OF d(1)] by blast
  moreover have "row_by_id d' i = Some (?f r)" using set(2) r peerD(4) [OF d(1) i] by simp
  moreover have "(i, b) \<in> set (follows d') \<longleftrightarrow> b \<in> N" for b using rep by (auto simp: replaced_def)
  ultimately show "\<exists>x d'. diff_tx P i ev ts removed added ch (wtick w) d = Inr (x, d')
    \<and> peer (I - {i}) (wdb w) (wdb (w\<lparr>wtick := Suc (wtick w), wdb := d'\<rparr>))
    \<and> wmet (w\<lparr>wtick := Suc (wtick w), wdb := d'\<rparr>) = wmet w
    \<and> row_by_id (wdb (w\<lparr>wtick := Suc (wtick w), wdb := d'\<rparr>)) i = Some (?f r)
    \<and> (\<forall>b. (i, b) \<in> set (follows (wdb (w\<lparr>wtick := Suc (wtick w), wdb := d'\<rparr>))) \<longleftrightarrow> b \<in> N)"
    using d' by (intro exI [of _ "()"] exI [of _ d']) simp
qed

text \<open>What the writer promises of the follower's row and edges.\<close>

definition follows_applied ::
  "int \<Rightarrow> byte list \<Rightarrow> int set \<Rightarrow> pubkey_row \<Rightarrow> db \<Rightarrow> db \<Rightarrow> bool" where
  "follows_applied i ev N r d d' \<longleftrightarrow>
     (\<exists>r'. row_by_id d' i = Some r' \<and> row_status r' = Fetched \<and> last_fetched_at r' \<noteq> None
       \<and> applied_event_id r' = Some ev)
     \<and> (\<forall>b. (i, b) \<in> set (follows d') \<longleftrightarrow>
          (if applied_event_id r = Some ev then (i, b) \<in> set (follows d) else b \<in> N))"

lemma apply_follow_list_shared:
  assumes sh: "shared I P" and ok: "db_ok (wdb w)" and I: "I \<subseteq> ids (wdb w)" and i: "i \<in> I"
    and r: "row_by_id (wdb w) i = Some r" and fs: "set fs \<subseteq> ids (wdb w)"
  shows "delivers (apply_follow_list P i ev ts fs) w (\<lambda>_ w'. peer (I - {i}) (wdb w) (wdb w')
    \<and> follows_applied i ev (set fs - {i}) r (wdb w) (wdb w') \<and> wmet w' = wmet w)"
  unfolding apply_follow_list_def
proof (rule delivers_then [OF read_shared [OF sh ok I, where f = "\<lambda>d. applied_event_id (the (row_by_id d i))"]])
  show "select_applied_event i n d = Inr (applied_event_id (the (row_by_id d i)), d)"
    if "peer I (wdb w) d" for n d
    using peerD(4) [OF that i] r by (simp add: select_applied_event_def)
next
  fix x and w1 :: world
  let ?N = "set fs - {i}" and ?d = "wdb w"
  assume "peer I ?d (wdb w1) \<and> x = applied_event_id (the (row_by_id (wdb w1) i)) \<and> wmet w1 = wmet w"
  then have p1: "peer I ?d (wdb w1)" and x: "x = applied_event_id r" and m1: "wmet w1 = wmet w"
    using r peerD(4) [OF _ i] by auto
  have r1: "row_by_id (wdb w1) i = Some r" using peerD(4) [OF p1 i] r by simp
  have I1: "I \<subseteq> ids (wdb w1)" "set fs \<subseteq> ids (wdb w1)" using I fs peerD(3) [OF p1] by auto
  note ok1 = peerD(1) [OF p1]
  show "delivers (if x = Some ev then bind_io (exec P (\<lambda>n d. Inr ((), update_rows (\<lambda>r. row_id r = i)
         (confirm_row (pg_now P n)) d))) (\<lambda>_. ret False)
     else let new_set = remdups (filter (\<lambda>j. j \<noteq> i) fs)
       in bind_io (exec P (\<lambda>n d. Inr (followees_of d i, d))) (\<lambda>current_rows.
          let current_set = remdups current_rows;
              added = pg_id_order P (filter (\<lambda>i. i \<notin> set current_set) new_set);
              removed = pg_id_order P (filter (\<lambda>i. i \<notin> set new_set) current_set);
              changed = (added \<noteq> [] \<or> removed \<noteq> [])
          in bind_io (exec P (diff_tx P i ev ts removed added changed)) (\<lambda>_. ret True))) w1
    (\<lambda>_ w'. peer (I - {i}) ?d (wdb w') \<and> follows_applied i ev ?N r ?d (wdb w') \<and> wmet w' = wmet w)"
  proof (cases "x = Some ev")
    case True
    show ?thesis unfolding if_P [OF True]
    proof (rule delivers_then [OF update_shared [OF sh ok1 I1(1) i r1, where f = "\<lambda>n. confirm_row (pg_now P n)"]])
      fix y and w2 :: world
      assume "y = () \<and> peer (I - {i}) (wdb w1) (wdb w2)
        \<and> row_by_id (wdb w2) i = Some (confirm_row (pg_now P (wtick w1)) r) \<and> wmet w2 = wmet w1
        \<and> (\<forall>b. (i, b) \<in> set (follows (wdb w2)) \<longleftrightarrow> (i, b) \<in> set (follows (wdb w1)))"
      then show "delivers (ret False) w2 (\<lambda>_ w'. peer (I - {i}) ?d (wdb w')
          \<and> follows_applied i ev ?N r ?d (wdb w') \<and> wmet w' = wmet w)"
        using peer_trans [OF peer_mono [OF p1], of "I - {i}" "wdb w2"] peerD(5) [OF p1 i] True x m1
        by (intro delivers_ret) (auto simp: follows_applied_def confirm_row_def)
    qed (simp_all add: row_ok_confirm)
  next
    case False
    show ?thesis unfolding if_not_P [OF False] Let_def
    proof (rule delivers_then [OF read_shared [OF sh ok1 I1(1), where f = "\<lambda>d. followees_of d i"]])
      fix cs and w2 :: world
      assume "peer I (wdb w1) (wdb w2) \<and> cs = followees_of (wdb w2) i \<and> wmet w2 = wmet w1"
      then have p2: "peer I (wdb w1) (wdb w2)" and cs: "cs = followees_of (wdb w2) i"
        and m2: "wmet w2 = wmet w" using m1 by simp_all
      let ?ns = "remdups (filter (\<lambda>j. j \<noteq> i) fs)"
      let ?ad = "pg_id_order P (filter (\<lambda>i. i \<notin> set (remdups cs)) ?ns)"
      let ?rm = "pg_id_order P (filter (\<lambda>i. i \<notin> set ?ns) (remdups cs))"
      have o: "pg_orders_ok P" using sh by (simp add: shared_def)
      have ad: "set ?ad = ?N - set (followees_of (wdb w2) i)"
        and rm: "set ?rm = set (followees_of (wdb w2) i) - ?N"
        by (auto simp: pg_id_order_set [OF o] cs)
      have r2: "row_by_id (wdb w2) i = Some r" using peerD(4) [OF p2 i] r1 by simp
      have I2: "I \<subseteq> ids (wdb w2)" "?N \<subseteq> ids (wdb w2)" using I1 peerD(3) [OF p2] by auto
      have p02: "peer (I - {i}) ?d (wdb w2)" using peer_mono [OF peer_trans [OF p1 p2]] by blast
      show "delivers (bind_io (exec P (diff_tx P i ev ts ?rm ?ad (?ad \<noteq> [] \<or> ?rm \<noteq> []))) (\<lambda>_. ret True)) w2
        (\<lambda>_ w'. peer (I - {i}) ?d (wdb w') \<and> follows_applied i ev ?N r ?d (wdb w') \<and> wmet w' = wmet w)"
        by (rule delivers_then [OF diff_shared [OF sh peerD(1) [OF p2] I2(1) i r2 I2(2) _ ad rm]])
          (use False x m2 peer_trans [OF p02] in \<open>auto simp: follows_applied_def apply_row_def intro!: delivers_ret\<close>)
    qed simp
  qed
qed

lemma relays_shared:
  assumes sh: "shared I P" and ok: "db_ok (wdb w)" and I: "I \<subseteq> ids (wdb w)" and i: "i \<in> ids (wdb w)"
    and mk: "snd ` set rs \<subseteq> markers"
  shows "delivers (apply_relay_list P i rs ts) w (\<lambda>_ w'. peer I (wdb w) (wdb w') \<and> wmet w' = wmet w)"
  unfolding apply_relay_list_def
proof (rule exec_shared [OF sh ok I])
  fix d assume d: "peer I (wdb w) d" "I \<subseteq> ids d"
  have ok': "db_ok d" by (rule peerD(1) [OF d(1)])
  have "i \<in> ids (delete_relays i d)" using peerD(3) [OF d(1)] i by (auto simp: delete_relays_def ids_def)
  then obtain d' where d': "replace_relays_tx i rs ts (wtick w) d = Inr ((), d')"
    using insert_relays_total [OF _ mk, of i "delete_relays i d" ts] by (auto simp: replace_relays_tx_def)
  have "same_graph d d'" "db_ok d'" using replace_relays_Inr [OF d' ok'] by auto
  then have "peer I d d'" using settled_peer [OF settled_graph, of d d' I "{}"] d(2) by simp
  then have "peer I (wdb w) d'" using peer_trans [OF d(1)] by blast
  then show "\<exists>x d'. replace_relays_tx i rs ts (wtick w) d = Inr (x, d')
    \<and> peer I (wdb w) (wdb (w\<lparr>wtick := Suc (wtick w), wdb := d'\<rparr>))
    \<and> wmet (w\<lparr>wtick := Suc (wtick w), wdb := d'\<rparr>) = wmet w"
    using d' by (intro exI [of _ "()"] exI [of _ d']) simp
qed

lemma lookup_shared:
  "shared I P \<Longrightarrow> db_ok (wdb w) \<Longrightarrow> I \<subseteq> ids (wdb w) \<Longrightarrow>
    delivers (lookup_write_relays P i) w (\<lambda>_ w'. peer I (wdb w) (wdb w') \<and> wmet w' = wmet w)"
  unfolding lookup_write_relays_def
  by (rule delivers_mono [OF read_shared [where f = "\<lambda>d. pg_url_order P (write_relays d i)"]]) simp_all

lemma not_found_shared:
  assumes "shared I P" and "db_ok (wdb w)" and "I \<subseteq> ids (wdb w)" and i: "i \<in> I"
    and r: "row_by_id (wdb w) i = Some r"
  shows "delivers (set_fetch_status P i ''not_found'' ts) w (\<lambda>_ w'. peer (I - {i}) (wdb w) (wdb w')
    \<and> row_by_id (wdb w') i = Some (r\<lparr>row_status := Not_Found, last_fetched_at := Some ts\<rparr>)
    \<and> wmet w' = wmet w \<and> (\<forall>b. (i, b) \<in> set (follows (wdb w')) \<longleftrightarrow> (i, b) \<in> set (follows (wdb w))))"
  unfolding set_fetch_status_def
  by (rule delivers_mono [OF update_shared [OF assms, where x = "()"
        and f = "\<lambda>_ r. r\<lparr>row_status := Not_Found, last_fetched_at := Some ts\<rparr>"]])
    (simp_all add: set_status_stmt_def status_of_def keeps_identity_def row_ok_def)

section \<open>Applying one list under interference\<close>

text \<open>
  \<open>apply_validated\<close> makes four round trips and one per followee. Keys are resolved before the
  list is applied; the ids they got stay theirs, whatever is added in between.
\<close>

lemma apply_validated_shared:
  assumes sh: "shared I P" and K: "keys_ok E" and ok: "db_ok (wdb w)" and I: "I \<subseteq> ids (wdb w)"
    and i: "i \<in> I" and r: "row_by_id (wdb w) i = Some r"
    and key: "row_pubkey r = sdk_to_bytes E (vfl_follower v)"
  shows "delivers (apply_validated E P v) w (\<lambda>_ w'. peer (I - {i}) (wdb w) (wdb w')
    \<and> list_applied E v i r (wdb w) (wdb w') \<and> wmet w' = wmet w)"
  unfolding apply_validated_def
proof (rule delivers_then [OF upsert_shared [OF sh ok I to_bytes_length [OF K]]])
  fix i' and w1 :: world
  let ?d = "wdb w" and ?ev = "sdk_id_bytes E (vfl_event_id v)"
  let ?ks = "map (sdk_to_bytes E) (vfl_followees v)"
  assume "peer I ?d (wdb w1) \<and> id_of (wdb w1) (sdk_to_bytes E (vfl_follower v)) = Some i' \<and> wmet w1 = wmet w"
  then have p1: "peer I ?d (wdb w1)" and i': "id_of (wdb w1) (sdk_to_bytes E (vfl_follower v)) = Some i'"
    and m1: "wmet w1 = wmet w" by simp_all
  have r1: "row_by_id (wdb w1) i = Some r" using peerD(4) [OF p1 i] r by simp
  then have eq: "i' = i" using id_of_row [OF peerD(1) [OF p1] r1] i' key by simp
  have I1: "I \<subseteq> ids (wdb w1)" using I peerD(3) [OF p1] by blast
  have len: "\<forall>k \<in> set ?ks. length k = 32" using to_bytes_length [OF K] by simp
  show "delivers (bind_io (map_io (upsert_pubkey P) ?ks) (\<lambda>followee_ids.
      apply_follow_list P i' ?ev (vfl_created_at v) followee_ids)) w1
    (\<lambda>_ w'. peer (I - {i}) ?d (wdb w') \<and> list_applied E v i r ?d (wdb w') \<and> wmet w' = wmet w)"
    unfolding eq
  proof (rule delivers_then [OF upsert_all_shared [OF sh peerD(1) [OF p1] I1 len]])
    fix fs and w2 :: world
    assume "peer I (wdb w1) (wdb w2) \<and> map (id_of (wdb w2)) ?ks = map Some fs \<and> wmet w2 = wmet w1"
    then have p2: "peer I ?d (wdb w2)" and fs: "map (id_of (wdb w2)) ?ks = map Some fs"
      and m2: "wmet w2 = wmet w" using peer_trans [OF p1] m1 by simp_all
    note ok2 = peerD(1) [OF p2]
    have r2: "row_by_id (wdb w2) i = Some r" using peerD(4) [OF p2 i] r by simp
    have im: "Some ` set fs = id_of (wdb w2) ` set ?ks" using fs by (metis list.set_map)
    have fs_iff: "b \<in> set fs \<longleftrightarrow> (\<exists>k \<in> set (vfl_followees v). id_of (wdb w2) (sdk_to_bytes E k) = Some b)" for b
      using some_image [OF im, of b] by simp
    then have fs_ids: "set fs \<subseteq> ids (wdb w2)" using id_of_mem by (metis subsetI)
    have all: "id_of (wdb w2) (sdk_to_bytes E k) \<noteq> None" if "k \<in> set (vfl_followees v)" for k
      using that im by (metis image_eqI list.set_map imageE option.distinct(1))
    have I2: "I \<subseteq> ids (wdb w2)" using I peerD(3) [OF p2] by blast
    show "delivers (apply_follow_list P i ?ev (vfl_created_at v) fs) w2
      (\<lambda>_ w'. peer (I - {i}) ?d (wdb w') \<and> list_applied E v i r ?d (wdb w') \<and> wmet w' = wmet w)"
    proof (rule delivers_mono [OF apply_follow_list_shared [OF sh ok2 I2 i r2 fs_ids]])
      fix x and w3 :: world
      assume a: "peer (I - {i}) (wdb w2) (wdb w3)
        \<and> follows_applied i ?ev (set fs - {i}) r (wdb w2) (wdb w3) \<and> wmet w3 = wmet w2"
      then have p3: "peer (I - {i}) (wdb w2) (wdb w3)" by simp
      have same: "id_of (wdb w3) (sdk_to_bytes E k) = id_of (wdb w2) (sdk_to_bytes E k)"
        if "k \<in> set (vfl_followees v)" for k
        using all [OF that] id_of_extends [OF peerD(1,2) [OF p3]] by fastforce
      have "list_applied E v i r ?d (wdb w3)"
        using a all same fs_iff peerD(5) [OF p2 i] unfolding list_applied_def follows_applied_def
        by (auto split: if_splits)
      then show "peer (I - {i}) ?d (wdb w3) \<and> list_applied E v i r ?d (wdb w3) \<and> wmet w3 = wmet w"
        using a m2 peer_trans [OF peer_mono [OF p2] p3] by auto
    qed
  qed
qed

section \<open>Leases\<close>

definition holds_lease :: "int set \<Rightarrow> db \<Rightarrow> bool" where
  "holds_lease I d \<longleftrightarrow> (\<forall>i \<in> I. \<exists>r. row_by_id d i = Some r \<and> row_status r = In_Progress)"

lemma holds_lease_row: "holds_lease I d \<Longrightarrow> i \<in> I \<Longrightarrow> row_by_id d i = Some r \<Longrightarrow> row_status r = In_Progress"
  by (auto simp: holds_lease_def)

lemma holds_lease_ids: "holds_lease I d \<Longrightarrow> I \<subseteq> ids d"
  using row_by_id_ids by (fastforce simp: holds_lease_def)

lemma holds_lease_peer: "holds_lease I d \<Longrightarrow> peer I d d' \<Longrightarrow> holds_lease I d'"
  by (simp add: holds_lease_def peerD(4))

lemma claimable_discovered: "r \<in> set (claimable P n d) \<Longrightarrow> r \<in> set (pubkeys d) \<and> row_status r = Discovered"
  by (auto simp: claimable_def)

text \<open>The queue's statements, one by one: a claim takes discovered rows only.\<close>

lemma claim_spares:
  assumes "db_ok d" and "holds_lease I d" and o: "pg_orders_ok P" and c: "claim_stmt P limit n d = Inr (cs, d')"
  shows "peer I d d'" "I \<inter> ca_id ` set cs = {}"
proof -
  let ?C = "take (nat limit) (claimable P n d)"
  have d': "d' = update_rows (\<lambda>r. row_id r \<in> row_id ` set ?C) (lease_row (pg_now P n)) d"
    and cs: "cs = map claimed_author_of (pg_row_order P ?C)"
    using c by (auto simp: claim_stmt_def Let_def split: if_splits)
  have free: "row_id r \<notin> I" if "r \<in> set ?C" for r
    using claimable_discovered [OF in_set_takeD [OF that]] holds_lease_row [OF assms(2), of "row_id r" r]
      row_by_id_mem [OF db_okD(1) [OF assms(1)], of r] by auto
  show "peer I d d'" unfolding d'
  proof (rule peer_update [OF assms(1)])
    show "row_id r \<notin> row_id ` set ?C" if "i \<in> I" "row_by_id d i = Some r" for i r
      using that free row_by_id_Some [OF that(2)] by (metis imageE)
  qed (simp_all add: row_ok_lease)
  have "ca_id ` set cs = row_id ` set ?C"
    unfolding cs set_map pg_row_order_set [OF o] by (simp add: claimed_author_of_def image_image)
  then show "I \<inter> ca_id ` set cs = {}" using free by (metis disjoint_iff imageE)
qed

lemma sweep_spares:
  assumes "db_ok d" and "release_where c d = Inr (k, d')" and "\<And>i r. i \<in> I \<Longrightarrow> row_by_id d i = Some r \<Longrightarrow> \<not> c r"
  shows "peer I d d'"
proof -
  have "d' = update_rows c release_row d" using assms(2) by (simp add: release_where_def)
  then show ?thesis using peer_update [OF assms(1) _ row_ok_release assms(3)] by simp
qed

lemma sweep_releases:
  assumes "release_where c d = Inr (k, d')" and "row_by_id d i = Some r" and "c r"
  shows "row_by_id d' i = Some (release_row r)"
  using assms by (auto simp: release_where_def row_by_id_update)

lemma seed_spares: "db_ok d \<Longrightarrow> holds_lease I d \<Longrightarrow> length anchor = 32 \<Longrightarrow> peer I d (snd (insert_pubkey anchor d))"
  using settled_peer [OF settled_insert] holds_lease_ids by simp

text \<open>
  C19. Which leases the queue's own operations leave alone. A claim neither returns nor changes a
  row that is in progress; the staleness sweep and the seeding of the anchor leave such rows and
  their edges as they are. The in-run reclaim leaves alone the leases that are not older than
  its limit, and releases the older ones, whether or not a batch is still at work on them; the
  start-up sweep, which runs before any batch, releases all.
\<close>

theorem queue_spares_leases:
  assumes "db_ok d" and "holds_lease I d"
  shows "(\<forall>P limit n cs d'. pg_orders_ok P \<and> claim_stmt P limit n d = Inr (cs, d')
       \<longrightarrow> peer I d d' \<and> I \<inter> ca_id ` set cs = {})
    \<and> (\<forall>t ttl_secs k d'. release_where (stale t ttl_secs) d = Inr (k, d') \<longrightarrow> peer I d d')
    \<and> (\<forall>anchor. length anchor = 32 \<longrightarrow> peer I d (snd (insert_pubkey anchor d)))
    \<and> (\<forall>now age_secs k d'. release_where (expired_lease now age_secs) d = Inr (k, d') \<longrightarrow>
         peer {i \<in> I. \<forall>r. row_by_id d i = Some r \<longrightarrow> \<not> before (claimed_at r) (now - age_secs * 1000000)} d d'
         \<and> (\<forall>i \<in> I. \<forall>r. row_by_id d i = Some r \<and> before (claimed_at r) (now - age_secs * 1000000)
              \<longrightarrow> row_by_id d' i = Some (release_row r)))
    \<and> (\<forall>k d'. release_where orphaned d = Inr (k, d') \<longrightarrow>
         (\<forall>i \<in> I. \<forall>r. row_by_id d i = Some r \<longrightarrow> row_by_id d' i = Some (release_row r)))"
proof (intro conjI allI impI ballI)
  note lease = holds_lease_row [OF assms(2)]
  show "peer I d d'" "I \<inter> ca_id ` set cs = {}"
    if "pg_orders_ok P \<and> claim_stmt P limit n d = Inr (cs, d')" for P limit n cs d'
    using claim_spares [OF assms] that by blast+
  show "peer I d d'" if "release_where (stale t ttl_secs) d = Inr (k, d')" for t ttl_secs k d'
    by (rule sweep_spares [OF assms(1) that]) (use lease in \<open>auto simp: stale_def\<close>)
  show "peer I d (snd (insert_pubkey anchor d))" if "length anchor = 32" for anchor
    by (rule seed_spares [OF assms that])
  fix k d'
  show "peer {i \<in> I. \<forall>r. row_by_id d i = Some r \<longrightarrow> \<not> before (claimed_at r) (now - age_secs * 1000000)} d d'"
    if "release_where (expired_lease now age_secs) d = Inr (k, d')" for now age_secs
    by (rule sweep_spares [OF assms(1) that]) (auto simp: expired_lease_def)
  fix i r assume i: "i \<in> I"
  show "row_by_id d' i = Some (release_row r)" if "release_where (expired_lease now age_secs) d = Inr (k, d')"
    "row_by_id d i = Some r \<and> before (claimed_at r) (now - age_secs * 1000000)" for now age_secs
    by (rule sweep_releases [OF that(1)]) (use that(2) lease [OF i] in \<open>auto simp: expired_lease_def\<close>)
  show "row_by_id d' i = Some (release_row r)" if "release_where orphaned d = Inr (k, d')" "row_by_id d i = Some r"
    by (rule sweep_releases [OF that]) (use that(2) lease [OF i] in \<open>simp add: orphaned_def\<close>)
qed

theorem queue_spares_leases_witness:
  "\<exists>d cs d'. holds_lease {1} d \<and> claim_stmt demo_pg 5 0 d = Inr (cs, d') \<and> cs \<noteq> []
    \<and> peer {1} d d' \<and> 1 \<notin> ca_id ` set cs"
proof -
  let ?d = "update_rows (\<lambda>r. row_id r = 1) (lease_row 10) demo_db"
  have ok: "db_ok ?d"
    using good_update [OF good_refl [OF demo_db_ok], of "lease_row 10" "\<lambda>r. row_id r = 1"]
    by (simp add: row_ok_lease good_def)
  have l: "holds_lease {1} ?d"
    by (simp add: holds_lease_def row_by_id_update demo_row lease_row_def)
  have o: "pg_orders_ok demo_pg" using quiet_demo by (simp add: quiet_def)
  have "row_id r \<noteq> 1 \<Longrightarrow> r \<in> set (pubkeys demo_db) \<Longrightarrow> r \<in> set (claimable demo_pg 0 ?d)" for r
    by (auto simp: claimable_def demo_db_def demo_pg_def new_row_def lease_row_def)
  then have "claimable demo_pg 0 ?d \<noteq> []" by (force simp: demo_db_def new_row_def)
  then obtain cs d' where c: "claim_stmt demo_pg 5 0 ?d = Inr (cs, d')" "cs \<noteq> []"
    by (auto simp: claim_stmt_def Let_def demo_pg_def)
  have "peer {1} ?d d' \<and> {1} \<inter> ca_id ` set cs = {}"
    using conjunct1 [OF queue_spares_leases [OF ok l], rule_format, OF conjI [OF o c(1)]] .
  then show ?thesis using l c by blast
qed

end
