(* ===== verification/Batch_Writes.thy ===== *)
theory Batch_Writes imports Interference begin

text \<open>
  Which writes a batch makes, shown once for every invariant: the locale \<open>batch_writes\<close> lists
  the store calls of \<open>src/crawl/apply.rs\<close> with the arguments the batch gives them, and proves
  that an invariant these calls keep is kept by the whole batch, however it ends. Two
  invariants interpret it: that no key is added but through a verified list (\<open>discovery\<close>), and
  whatever an owner of the claimed rows may do to the tables (\<open>ownership\<close>).
\<close>

section \<open>The lists a batch applies\<close>

definition passed_gate :: "env \<Rightarrow> batch_args \<Rightarrow> pubkey set \<Rightarrow> event list \<Rightarrow> validated_follow_list \<Rightarrow> bool" where
  "passed_gate E B req raw v \<longleftrightarrow> (\<exists>m. v \<in> set (fst (ingest_events E raw (b_kind B) req (b_now B)
     (b_clamp B) (b_follow_cap B) m)))"

lemma ingest_follower:
  assumes "orders_ok E" "v \<in> set (fst (ingest_events E raw k req now clamp cap m))"
  shows "vfl_follower v \<in> req \<and>
    (\<exists>ev \<in> set raw. acceptable E k req ev \<and> ev_pubkey ev = vfl_follower v
       \<and> set (vfl_followees v) \<subseteq> set (sdk_public_keys E ev))"
proof -
  obtain a w where w: "max_by winner_cmp (filter (in_clamp now clamp)
        (filter (\<lambda>e. ev_pubkey e = a) (survivors E k req raw))) = Some w"
    and v: "v = follow_list_from_event E w (followee_loop (ev_pubkey w) (sdk_public_keys E w) {} [])"
    using assms set_ingest_events [OF assms(1)] by (auto simp: resolve_group_Some)
  have "w \<in> set (survivors E k req raw)" using max_by_in [OF w] by simp
  then have "w \<in> set raw" "acceptable E k req w" using set_survivors_subset by blast+
  moreover have "set (vfl_followees v) \<subseteq> set (sdk_public_keys E w)"
    by (auto simp: v follow_list_from_event_def set_followee_loop followees_def)
  ultimately show ?thesis by (auto simp: v follow_list_from_event_def acceptable_def)
qed

definition claims_row :: "db \<Rightarrow> claimed_author \<Rightarrow> bool" where
  "claims_row d c \<longleftrightarrow> (\<exists>r. row_by_id d (ca_id c) = Some r \<and> row_pubkey r = ca_pubkey c)"

definition authors_of :: "env \<Rightarrow> claimed_author list \<Rightarrow> pubkey set" where
  "authors_of E batch = set (List.map_filter (\<lambda>c. sdk_from_slice E (ca_pubkey c)) batch)"

lemma in_authors_of: "a \<in> authors_of E batch \<longleftrightarrow> (\<exists>c \<in> set batch. sdk_from_slice E (ca_pubkey c) = Some a)"
  by (simp add: authors_of_def set_map_filter_iff)

lemma index_by_author_mem:
  assumes "index_by_author vs a = Some v"
  shows "v \<in> set vs \<and> vfl_follower v = a"
proof -
  have "foldl (\<lambda>m v. m(vfl_follower v \<mapsto> v)) m vs a = Some v \<Longrightarrow>
      (v \<in> set vs \<and> vfl_follower v = a) \<or> m a = Some v" for m
    by (induction vs arbitrary: m) (fastforce split: if_splits)+
  then show ?thesis using assms by (fastforce simp: index_by_author_def)
qed

text \<open>The index holds the batch's lists under their authors.\<close>

lemma index_by_author_Some:
  assumes "distinct (map vfl_follower vs)"
  shows "index_by_author vs a = Some v \<longleftrightarrow> v \<in> set vs \<and> vfl_follower v = a"
proof -
  have "foldl (\<lambda>m v. m(vfl_follower v \<mapsto> v)) m vs = m ++ map_of (map (\<lambda>v. (vfl_follower v, v)) vs)"
    if "distinct (map vfl_follower vs)" for m
    using that
  proof (induction vs arbitrary: m)
    case (Cons x vs)
    have "map_of (map (\<lambda>v. (vfl_follower v, v)) vs) (vfl_follower x) = None"
      using Cons.prems by (force simp: map_of_eq_None_iff)
    then show ?case using Cons by (auto simp: fun_eq_iff map_add_def split: option.split)
  qed simp
  then have i: "index_by_author vs = map_of (map (\<lambda>v. (vfl_follower v, v)) vs)"
    using assms by (simp add: index_by_author_def flip: empty_def)
  have "distinct (map fst (map (\<lambda>v. (vfl_follower v, v)) vs))" using assms by (simp add: o_def)
  then show ?thesis by (auto simp: i map_of_eq_Some_iff)
qed

lemma relay_list_markers:
  assumes "fst (resolve_relay_list E raw a now clamp m) = Some vrl"
  shows "snd ` set (vrl_relays vrl) \<subseteq> markers"
proof -
  obtain ev where "vrl = relay_list_from_event E ev"
    using assms by (auto simp: resolve_relay_list_def Let_def split: prod.splits option.splits)
  then show ?thesis using extract_markers [of E ev] by (simp add: relay_list_from_event_def)
qed

text \<open>The keys a batch may add: what verified events of its authors name, from its own answers.\<close>

definition answered :: "batch_args \<Rightarrow> relay_error + event list \<Rightarrow> event set" where
  "answered B union_fetch = (case union_fetch of Inl _ \<Rightarrow> {} | Inr raw \<Rightarrow> set raw)
     \<union> {ev. \<exists>a relays raw. b_fallback_fetch B a relays = Inr raw \<and> ev \<in> set raw}"

definition discoverable ::
  "env \<Rightarrow> batch_args \<Rightarrow> claimed_author list \<Rightarrow> event set \<Rightarrow> byte list set" where
  "discoverable E B batch events =
     ca_pubkey ` set batch \<union>
     {sdk_to_bytes E k | k. \<exists>ev \<in> events. \<exists>c \<in> set batch. sdk_verify E ev \<and> ev_kind ev = b_kind B
        \<and> sdk_from_slice E (ca_pubkey c) = Some (ev_pubkey ev) \<and> k \<in> set (sdk_public_keys E ev)}"

definition list_keys :: "env \<Rightarrow> validated_follow_list \<Rightarrow> byte list set" where
  "list_keys E v = insert (sdk_to_bytes E (vfl_follower v)) (sdk_to_bytes E ` set (vfl_followees v))"

lemma gate_keys:
  assumes K: "keys_ok E" and O: "orders_ok E"
    and v: "v \<in> set (fst (ingest_events E raw (b_kind B) req now clamp cap m))"
    and req: "vfl_follower v \<in> authors_of E batch"
    and raw: "set raw \<subseteq> events"
  shows "list_keys E v \<subseteq> discoverable E B batch events"
proof -
  obtain ev where ev: "vfl_follower v \<in> req" "ev \<in> set raw" "acceptable E (b_kind B) req ev"
      "ev_pubkey ev = vfl_follower v" "set (vfl_followees v) \<subseteq> set (sdk_public_keys E ev)"
    using ingest_follower [OF O v] by blast
  obtain c where c: "c \<in> set batch" "sdk_from_slice E (ca_pubkey c) = Some (vfl_follower v)"
    using req by (auto simp: in_authors_of)
  have "sdk_to_bytes E (vfl_follower v) = ca_pubkey c" by (rule to_from_bytes [OF K c(2)])
  then have "sdk_to_bytes E (vfl_follower v) \<in> discoverable E B batch events"
    using c(1) by (auto simp: discoverable_def)
  moreover have "sdk_to_bytes E k \<in> discoverable E B batch events" if "k \<in> set (vfl_followees v)" for k
  proof -
    have "sdk_verify E ev \<and> ev_kind ev = b_kind B" "k \<in> set (sdk_public_keys E ev)"
        "sdk_from_slice E (ca_pubkey c) = Some (ev_pubkey ev)" "ev \<in> events"
      using ev c(2) raw that by (auto simp: acceptable_def)
    with c(1) show ?thesis unfolding discoverable_def by blast
  qed
  ultimately show ?thesis by (auto simp: list_keys_def)
qed

text \<open>A list the batch may apply: of a claimed author, naming only keys the batch may add.\<close>

definition from_batch ::
  "env \<Rightarrow> batch_args \<Rightarrow> claimed_author list \<Rightarrow> relay_error + event list \<Rightarrow> validated_follow_list \<Rightarrow> bool" where
  "from_batch E B batch u v \<longleftrightarrow> vfl_follower v \<in> authors_of E batch
     \<and> list_keys E v \<subseteq> discoverable E B batch (answered B u)"

lemma from_batch_gate:
  assumes "keys_ok E" and "orders_ok E"
    and "v \<in> set (fst (ingest_events E raw (b_kind B) req now clamp cap m))"
    and "vfl_follower v \<in> authors_of E batch" and "set raw \<subseteq> answered B u"
  shows "from_batch E B batch u v"
  using gate_keys [OF assms] assms(4) by (simp add: from_batch_def)

section \<open>An invariant through a batch\<close>

definition returns :: "'a io \<Rightarrow> ('a \<Rightarrow> bool) \<Rightarrow> bool" where
  "returns c R \<longleftrightarrow> (\<forall>w x w'. c w = (Inr x, w') \<longrightarrow> R x)"

lemma keeps_bind_returns:
  "keeps_at I c \<Longrightarrow> returns c R \<Longrightarrow> (\<And>x. R x \<Longrightarrow> keeps_at I (k x)) \<Longrightarrow> keeps_at I (bind_io c k)"
  by (rule keeps_bind_within) (auto simp: returns_def)

lemma keeps_given: "(A \<Longrightarrow> keeps_at I c) \<Longrightarrow> keeps_at (\<lambda>n d. A \<longrightarrow> I n d) c"
  by (auto simp: keeps_at_def)

lemma returns_ret: "R x \<Longrightarrow> returns (ret x) R"
  by (simp add: returns_def ret_def)

lemma returns_bind: "(\<And>x. returns (k x) R) \<Longrightarrow> returns (bind_io c k) R"
  by (auto simp: returns_def bind_io_Inr)

lemma returns_tally_ret: "(\<And>m. R (g (fst (f m)))) \<Longrightarrow> returns (bind_io (tally f) (\<lambda>x. ret (g x))) R"
  by (auto simp: returns_def tally_def bind_io_def ret_def split: prod.splits) (metis fst_conv)

lemma returns_tally: "(\<And>m. R (fst (f m))) \<Longrightarrow> returns (tally f) R"
  by (auto simp: returns_def tally_def split: prod.splits) (metis fst_conv)

locale batch_writes =
  fixes E :: env and P :: pg and B :: batch_args and batch :: "claimed_author list"
    and u :: "relay_error + event list" and I :: "nat \<Rightarrow> db \<Rightarrow> bool"
  assumes upsert: "keys_ok E \<Longrightarrow> a \<in> authors_of E batch \<Longrightarrow> keeps_at I (upsert_pubkey P (sdk_to_bytes E a))"
    and relays: "keeps_at I (apply_relay_list P i rs ts)"
    and lookup: "keeps_at I (lookup_write_relays P i)"
    and status: "c \<in> set batch \<Longrightarrow> keeps_at I (set_fetch_status P (ca_id c) ''not_found'' ts)"
    and requeue: "c \<in> set batch \<Longrightarrow> keeps_at I (requeue_or_fail P (ca_id c) mx ts)"
    and applies: "keys_ok E \<Longrightarrow> from_batch E B batch u v \<Longrightarrow> keeps_at I (apply_validated E P v)"
begin

lemmas steps = keeps_bind keeps_ret keeps_tally keeps_moment keeps_if keeps_for relays lookup status
  requeue

lemma resolve_write_relays:
  assumes "keys_ok E" and "author \<in> authors_of E batch"
  shows "keeps_at I (resolve_write_relays E P B c author)"
  unfolding resolve_write_relays_def
  by (cases "b_relay_list_fetch B author") (auto intro!: steps upsert assms split: option.split)

lemma fallback_recover:
  assumes "keys_ok E" and "author \<in> authors_of E batch"
  shows "keeps_at I (fallback_recover E P B c author)"
  unfolding fallback_recover_def Let_def
  by (auto intro!: steps resolve_write_relays assms split: sum.split)

lemma fallback_lists:
  assumes K: "keys_ok E" and O: "orders_ok E" and a: "author \<in> authors_of E batch"
  shows "returns (fallback_recover E P B c author) (\<lambda>res. \<forall>v. res = Some v \<longrightarrow> from_batch E B batch u v)"
proof -
  let ?R = "\<lambda>res. \<forall>v. res = Some v \<longrightarrow> from_batch E B batch u v"
  have gate: "from_batch E B batch u (last vs)"
    if "b_fallback_fetch B author relays = Inr raw" "vs \<noteq> []"
      "vs = fst (ingest_events E raw (b_kind B) {author} (b_now B) (b_clamp B) (b_follow_cap B) m)"
    for relays raw vs m
  proof (rule from_batch_gate [OF K O])
    show v: "last vs \<in> set (fst (ingest_events E raw (b_kind B) {author} (b_now B) (b_clamp B)
        (b_follow_cap B) m))" using that(2,3) last_in_set by metis
    show "set raw \<subseteq> answered B u" using that(1) by (auto simp: answered_def)
    show "vfl_follower (last vs) \<in> authors_of E batch" using ingest_follower [OF O v] a by simp
  qed
  have asked: "returns (case b_fallback_fetch B author relays of
            Inl _ \<Rightarrow> ret None
          | Inr raw \<Rightarrow>
              bind_io (tally (acquire_validated_lists E {author} (b_kind B) (b_now B) (b_clamp B)
                  (b_follow_cap B) (Inr raw))) (\<lambda>resolved.
              ret (case resolved of
                     Inl _ \<Rightarrow> None
                   | Inr v \<Rightarrow> if v = [] then None else Some (last v)))) ?R" for relays
  proof (cases "b_fallback_fetch B author relays")
    case (Inr raw)
    show ?thesis unfolding Inr sum.case
      by (rule returns_tally_ret)
        (use gate [OF Inr] in \<open>auto simp: acquire_validated_lists_def case_prod_beta\<close>)
  qed (simp add: returns_ret)
  show ?thesis
    unfolding fallback_recover_def Let_def
  proof (rule returns_bind)
    show "returns (if us = [] then ret None else bind_io moment (\<lambda>t.
        case b_fallback_fetch B author (take (b_max_write_relays B) (healthier_first (b_health B t) us)) of
            Inl _ \<Rightarrow> ret None
          | Inr raw \<Rightarrow>
              bind_io (tally (acquire_validated_lists E {author} (b_kind B) (b_now B) (b_clamp B)
                  (b_follow_cap B) (Inr raw))) (\<lambda>resolved.
              ret (case resolved of
                     Inl _ \<Rightarrow> None
                   | Inr v \<Rightarrow> if v = [] then None else Some (last v))))) ?R" for us
      by (cases "us = []") (simp_all add: returns_ret returns_bind asked)
  qed
qed

lemma settle_author:
  assumes K: "keys_ok E" and O: "orders_ok E" and c: "c \<in> set batch"
    and f: "\<And>a v. f a = Some v \<Longrightarrow> from_batch E B batch u v"
  shows "keeps_at I (settle_author E P B f stamp c)"
proof (cases "sdk_from_slice E (ca_pubkey c)")
  case None
  then show ?thesis using c unfolding settle_author_def by (auto intro!: steps)
next
  case (Some author)
  have a: "author \<in> authors_of E batch" using c Some by (auto simp: in_authors_of)
  have fr: "returns (if b_fallback_enabled B then fallback_recover E P B c author else ret None)
      (\<lambda>res. \<forall>v. res = Some v \<longrightarrow> from_batch E B batch u v)"
    using fallback_lists [OF K O a, of c] by (simp add: returns_def ret_def)
  have rest: "keeps_at I (case recovered of
             Some vfl \<Rightarrow> bind_io (apply_validated E P vfl) (\<lambda>_.
               bind_io (tally (\<lambda>m. ((), count_by ''nip65_recovered'' 1 m))) (\<lambda>_. ret 1))
           | None \<Rightarrow> bind_io (set_fetch_status P (ca_id c) ''not_found'' stamp) (\<lambda>_. ret 0))"
    if "\<forall>v. recovered = Some v \<longrightarrow> from_batch E B batch u v" for recovered
    using that c by (auto intro!: steps applies [OF K] split: option.split)
  have fb: "keeps_at I (if b_fallback_enabled B then fallback_recover E P B c author else ret None)"
    by (intro steps fallback_recover [OF K a])
  show ?thesis
  proof (cases "f author")
    case None
    show ?thesis unfolding settle_author_def Some None option.case
      by (rule keeps_bind_returns [OF fb fr rest])
  next
    case (Some v)
    show ?thesis unfolding settle_author_def \<open>sdk_from_slice E (ca_pubkey c) = Some author\<close> Some option.case
      by (intro steps applies [OF K] f [OF Some])
  qed
qed

lemma settle_batch:
  assumes "keys_ok E" and "orders_ok E" and "set cs \<subseteq> set batch"
    and "\<And>a v. f a = Some v \<Longrightarrow> from_batch E B batch u v"
  shows "keeps_at I (settle_batch E P B f stamp cs n)"
  using assms(3) by (induction cs arbitrary: n) (auto intro!: steps settle_author assms(1,2,4))

lemma process_batch:
  assumes K: "keys_ok E" and O: "orders_ok E"
  shows "keeps_at I (process_batch E P B batch u)"
proof -
  let ?acq = "tally (acquire_validated_lists E (authors_of E batch) (b_kind B) (b_now B) (b_clamp B)
    (b_follow_cap B) u)"
  have "from_batch E B batch u v" if acq: "fst (acquire_validated_lists E (authors_of E batch) (b_kind B)
      (b_now B) (b_clamp B) (b_follow_cap B) u m) = Inr vs" and v: "v \<in> set vs" for m vs v
  proof -
    obtain raw where u: "u = Inr raw" and vs: "vs = fst (ingest_events E raw (b_kind B)
        (authors_of E batch) (b_now B) (b_clamp B) (b_follow_cap B) m)"
      using acq by (cases u) (auto simp: acquire_validated_lists_def case_prod_beta)
    show ?thesis
      by (rule from_batch_gate [OF K O v [unfolded vs]])
        (use ingest_follower [OF O v [unfolded vs]] in \<open>simp_all add: answered_def u\<close>)
  qed
  then have r: "returns ?acq (\<lambda>res. \<forall>vs v. res = Inr vs \<and> v \<in> set vs \<longrightarrow> from_batch E B batch u v)"
    by (intro returns_tally) blast
  have settle: "keeps_at I (settle_batch E P B (index_by_author vs) ts batch 0)"
    if "\<And>v. v \<in> set vs \<Longrightarrow> from_batch E B batch u v" for vs ts
    by (rule settle_batch [OF K O order_refl]) (use that index_by_author_mem in blast)
  show ?thesis
    unfolding process_batch_def Let_def authors_of_def [symmetric]
    by (rule keeps_if, rule keeps_ret, rule keeps_bind_returns [OF _ r])
      (auto intro!: steps settle split: sum.split)
qed

end

section \<open>Where new keys come from\<close>

definition keys_of :: "db \<Rightarrow> byte list set" where
  "keys_of d = row_pubkey ` set (pubkeys d)"

definition keys_in :: "byte list set \<Rightarrow> db \<Rightarrow> bool" where
  "keys_in K d \<longleftrightarrow> keys_of d \<subseteq> K"

lemma keys_of_update: "keeps_identity f \<Longrightarrow> keys_of (update_rows c f d) = keys_of d"
  by (metis keys_of_def list.set_map map_row_key_update)

lemma keeps_within_exec:
  assumes "alone P" and "\<And>n d x d'. s n d = Inr (x, d') \<Longrightarrow> keys_of d' \<subseteq> keys_of d \<union> K"
  shows "keeps (keys_in K) (exec P s)"
proof (rule keeps_exec)
  show "keys_in K d \<Longrightarrow> keys_in K (pg_others P n d)" for n d using assms(1) by (simp add: alone_def)
  show "keys_in K d'" if "keys_in K d" "s n d = Inr (x, d')" for n d x d'
    using assms(2) [OF that(2)] that(1) unfolding keys_in_def by blast
qed

lemma keeps_within_same:
  "alone P \<Longrightarrow> (\<And>n d x d'. s n d = Inr (x, d') \<Longrightarrow> keys_of d' = keys_of d) \<Longrightarrow> keeps (keys_in K) (exec P s)"
  by (rule keeps_within_exec) auto

lemma keys_in_upsert:
  assumes "alone P" "k \<in> K"
  shows "keeps (keys_in K) (upsert_pubkey P k)"
  unfolding upsert_pubkey_def
  by (intro keeps_if keeps_fail keeps_within_exec [OF assms(1)])
    (use assms(2) in \<open>auto simp: keys_of_def insert_pubkey_def split: option.splits\<close>)

lemma keys_of_diff: "diff_tx P i ev ts rm ad ch n d = Inr (x, d') \<Longrightarrow> keys_of d' = keys_of d"
proof (erule diff_tx_Inr)
  fix d2 assume a: "insert_edges i ad (delete_edges i rm d) = Inr d2"
    and d': "d' = update_rows (\<lambda>r. row_id r = i) (apply_row (pg_now P n) ev ts ch) d2"
  show "keys_of d' = keys_of d"
    using insert_edges_Inr [OF a] keys_of_update [of "apply_row (pg_now P n) ev ts ch" "\<lambda>r. row_id r = i" d2]
    unfolding d' by (simp add: same_rows_def keys_of_def)
qed

lemma keys_in_apply_follow_list:
  assumes "alone P"
  shows "keeps (keys_in K) (apply_follow_list P i ev ts fs)"
proof -
  note exec = keeps_within_same [OF assms]
  have 1: "keeps (keys_in K) (exec P (select_applied_event i))"
    by (rule exec) (auto simp: select_applied_event_def split: option.splits)
  have 2: "keeps (keys_in K) (exec P (\<lambda>n d. Inr ((), update_rows (\<lambda>r. row_id r = i)
      (confirm_row (pg_now P n)) d)))"
    by (rule exec) (use keys_of_update in fastforce)
  have 3: "keeps (keys_in K) (exec P (\<lambda>n d. Inr (followees_of d i, d)))"
    by (rule exec) auto
  have 4: "keeps (keys_in K) (exec P (diff_tx P i ev ts rm ad ch))" for rm ad ch
    by (rule exec) (rule keys_of_diff)
  show ?thesis
    unfolding apply_follow_list_def Let_def
    by (intro keeps_bind keeps_if keeps_ret 1 2 3 4)
qed

lemma keys_in_apply_validated:
  assumes "alone P" "sdk_to_bytes E (vfl_follower v) \<in> K" "sdk_to_bytes E ` set (vfl_followees v) \<subseteq> K"
  shows "keeps (keys_in K) (apply_validated E P v)"
  unfolding apply_validated_def
  by (intro keeps_bind keeps_map keys_in_upsert keys_in_apply_follow_list assms(1,2)) (use assms(3) in auto)

lemma keys_in_set_fetch_status: "alone P \<Longrightarrow> keeps (keys_in K) (set_fetch_status P i st ts)"
  unfolding set_fetch_status_def
proof (rule keeps_within_same)
  fix n d x d' assume "set_status_stmt i st ts n d = Inr (x, d')"
  then show "keys_of d' = keys_of d"
    by (auto simp: set_status_stmt_def keys_of_update keeps_identity_def split: option.splits)
qed

lemma keys_in_requeue: "alone P \<Longrightarrow> keeps (keys_in K) (requeue_or_fail P i mx ts)"
  unfolding requeue_or_fail_def
proof (rule keeps_within_same)
  fix n d x d' assume "attempt_stmt i (sint mx) ts n d = Inr (x, d')"
  then show "keys_of d' = keys_of d"
    by (auto simp: attempt_stmt_def keys_of_update split: option.splits if_splits)
qed

lemma keys_in_lookup: "alone P \<Longrightarrow> keeps (keys_in K) (lookup_write_relays P i)"
  unfolding lookup_write_relays_def by (rule keeps_within_same) auto

lemma keys_of_insert_relays: "insert_relays i rs ts d = Inr d' \<Longrightarrow> keys_of d' = keys_of d"
  by (induction i rs ts d rule: insert_relays.induct)
    (auto simp: insert_relay_def keys_of_def split: sum.splits if_splits)

lemma keys_in_apply_relay_list: "alone P \<Longrightarrow> keeps (keys_in K) (apply_relay_list P i rs ts)"
  unfolding apply_relay_list_def
  by (rule keeps_within_same)
    (auto simp: replace_relays_tx_def delete_relays_def keys_of_def dest!: keys_of_insert_relays
      split: sum.splits)

text \<open>
  On a server of its own, a batch that may only add the keys of \<open>K\<close> adds none but those.
\<close>

definition keys_guard ::
  "env \<Rightarrow> pg \<Rightarrow> batch_args \<Rightarrow> claimed_author list \<Rightarrow> relay_error + event list \<Rightarrow> byte list set \<Rightarrow> bool" where
  "keys_guard E P B batch u K \<longleftrightarrow> alone P \<and> discoverable E B batch (answered B u) \<subseteq> K"

interpretation discovery: batch_writes E P B batch u "\<lambda>_ d. keys_guard E P B batch u K \<longrightarrow> keys_in K d"
  for E P B batch u K
proof
  let ?I = "\<lambda>d. keys_guard E P B batch u K \<longrightarrow> keys_in K d"
  show "keeps ?I (upsert_pubkey P (sdk_to_bytes E a))"
    if E: "keys_ok E" and "a \<in> authors_of E batch" for a
  proof (rule keeps_given)
    assume g: "keys_guard E P B batch u K"
    obtain c where "c \<in> set batch" "sdk_from_slice E (ca_pubkey c) = Some a"
      using \<open>a \<in> authors_of E batch\<close> by (auto simp: in_authors_of)
    then have "sdk_to_bytes E a \<in> K"
      using g to_from_bytes [OF E] by (auto simp: keys_guard_def discoverable_def)
    then show "keeps (keys_in K) (upsert_pubkey P (sdk_to_bytes E a))"
      using g by (intro keys_in_upsert) (simp_all add: keys_guard_def)
  qed
  show "keeps ?I (apply_validated E P v)" if "keys_ok E" "from_batch E B batch u v" for v
    using that by (intro keeps_given keys_in_apply_validated)
      (auto simp: keys_guard_def from_batch_def list_keys_def)
qed (rule keeps_given, simp add: keys_guard_def keys_in_apply_relay_list keys_in_lookup
    keys_in_set_fetch_status keys_in_requeue)+

section \<open>What the owner of the claimed rows does\<close>

text \<open>
  The history of a run: from round trip \<open>n\<close> on the tables \<open>d\<close>, the others moved before each
  round trip, and each trip of its own was a move of \<open>G\<close>.
\<close>

inductive trips :: "pg \<Rightarrow> (db \<Rightarrow> db \<Rightarrow> bool) \<Rightarrow> nat \<Rightarrow> db \<Rightarrow> nat \<Rightarrow> db \<Rightarrow> bool"
  for P :: pg and G :: "db \<Rightarrow> db \<Rightarrow> bool" and n :: nat and d :: db where
  start: "trips P G n d n d"
| trip: "trips P G n d m e \<Longrightarrow> G (pg_others P m e) e' \<Longrightarrow> trips P G n d (Suc m) e'"

definition owned :: "pg \<Rightarrow> claimed_author list \<Rightarrow> nat \<Rightarrow> db \<Rightarrow> nat \<Rightarrow> db \<Rightarrow> bool" where
  "owned P batch n0 d0 n d \<longleftrightarrow> good d0 d \<and> trips P (settled (ca_id ` set batch)) n0 d0 n d"

definition claims :: "pg \<Rightarrow> claimed_author list \<Rightarrow> db \<Rightarrow> bool" where
  "claims P batch d0 \<longleftrightarrow> (\<forall>n d. good d0 d \<longrightarrow> good d0 (pg_others P n d)) \<and> (\<forall>c \<in> set batch. claims_row d0 c)"

lemma claims_row_good: "good d d' \<Longrightarrow> claims_row d c \<Longrightarrow> claims_row d' c"
proof -
  assume g: "good d d'" and "claims_row d c"
  then obtain r where r: "row_by_id d (ca_id c) = Some r" "row_pubkey r = ca_pubkey c"
    by (auto simp: claims_row_def)
  from row_by_id_Some [OF r(1)] g obtain r'
    where "r' \<in> set (pubkeys d')" "row_id r' = ca_id c" "row_pubkey r' = ca_pubkey c"
    using r(2) by (force simp: good_def extends_def)
  then show "claims_row d' c"
    using g row_by_id_mem [OF db_okD(1), of d' r'] by (auto simp: good_def claims_row_def)
qed

lemma owned_exec:
  assumes o: "claims P batch d0" and J: "J \<subseteq> ca_id ` set batch"
    and s: "\<And>n d x d'. db_ok d \<Longrightarrow> s n d = Inr (x, d') \<Longrightarrow> settled J d d'"
  shows "keeps_at (owned P batch n0 d0) (exec P s)"
proof (rule keeps_at_exec)
  fix n d assume I: "owned P batch n0 d0 n d"
  let ?d = "pg_others P n d"
  have g: "good d0 ?d" using o I by (simp add: claims_def owned_def)
  then have ok: "db_ok ?d" by (simp add: good_def)
  have own: "owned P batch n0 d0 (Suc n) d'" if "settled (ca_id ` set batch) ?d d'" for d'
    unfolding owned_def
  proof
    show "good d0 d'" using g settledD(1,2) [OF that] extends_trans by (auto simp: good_def)
    show "trips P (settled (ca_id ` set batch)) n0 d0 (Suc n) d'"
      by (rule trip) (use I that in \<open>simp_all add: owned_def\<close>)
  qed
  show "owned P batch n0 d0 (Suc n) ?d" by (rule own [OF settled_refl [OF ok]])
  show "owned P batch n0 d0 (Suc n) d'" if "s n ?d = Inr (x, d')" for x d'
    by (rule own [OF settled_mono [OF s [OF ok that] J]])
qed

lemma settled_diff_tx:
  assumes ok: "db_ok d" and "diff_tx P i ev ts removed added ch n d = Inr (x, d')"
  shows "settled {i} d d'"
proof -
  let ?f = "apply_row (pg_now P n) ev ts ch"
  let ?N = "set added \<union> ({j. (i, j) \<in> set (follows d)} - set removed)"
  obtain d2 where d2: "insert_edges i added (delete_edges i removed d) = Inr d2"
    and d': "d' = update_rows (\<lambda>r. row_id r = i) ?f d2"
    by (rule diff_tx_Inr [OF assms(2)])
  have "set (follows d2) = {e \<in> set (follows d). fst e \<noteq> i} \<union> Pair i ` ?N"
    using insert_edges_Inr [OF d2] by (auto simp: image_iff)
  then have "replaced i ?N ?f d d'"
    using insert_edges_Inr [OF d2] by (simp add: d' replaced_def same_rows_def)
  then show ?thesis
    by (rule settled_replaced(1) [OF _ keeps_identity_apply good_diff_tx [OF good_refl [OF ok] assms(2)]])
qed

lemma owned_upsert:
  assumes "claims P batch d0"
  shows "keeps_at (owned P batch n0 d0) (upsert_pubkey P k)"
proof (cases "length k = 32")
  case True
  have "keeps_at (owned P batch n0 d0) (exec P (\<lambda>n d. Inr (insert_pubkey k d)))"
    by (rule owned_exec [OF assms, of "{}"]) (use settled_insert [OF _ True] in force)+
  with True show ?thesis by (simp add: upsert_pubkey_def PUBKEY_LEN_def)
qed (simp add: upsert_pubkey_def PUBKEY_LEN_def keeps_fail)

lemma owned_upsert_id:
  assumes o: "claims P batch d0" and c: "c \<in> set batch" and I: "owned P batch n0 d0 n (wdb w)"
    and u: "upsert_pubkey P (ca_pubkey c) w = (Inr i, w')"
  shows "i = ca_id c"
proof -
  have k: "length (ca_pubkey c) = 32"
    using u by (auto simp: upsert_pubkey_def PUBKEY_LEN_def fail_def split: if_splits)
  let ?d = "pg_others P (wtick w) (wdb w)"
  have g: "good d0 ?d" using o I by (simp add: claims_def owned_def)
  then have d: "db_ok ?d" "claims_row ?d c"
    using o c claims_row_good [OF g] by (simp_all add: claims_def good_def)
  have "insert_pubkey (ca_pubkey c) ?d = (i, wdb w')"
    using u k exec_Inr [of P "\<lambda>n d. Inr (insert_pubkey (ca_pubkey c) d)" w i w']
    by (auto simp: upsert_pubkey_def PUBKEY_LEN_def)
  moreover have "id_of ?d (ca_pubkey c) = Some (ca_id c)"
    using d(2) id_of_row [OF d(1)] unfolding claims_row_def by metis
  ultimately show ?thesis by (auto simp: id_of_def insert_pubkey_def)
qed

lemma owned_apply_follow_list:
  assumes o: "claims P batch d0" and i: "i \<in> ca_id ` set batch"
  shows "keeps_at (owned P batch n0 d0) (apply_follow_list P i ev ts fs)"
proof -
  note exec = owned_exec [OF o]
  have 1: "keeps_at (owned P batch n0 d0) (exec P (select_applied_event i))"
    by (rule exec [of "{}"]) (auto simp: select_applied_event_def settled_refl split: option.splits)
  have 2: "keeps_at (owned P batch n0 d0) (exec P (\<lambda>n d. Inr ((), update_rows (\<lambda>r. row_id r = i)
      (confirm_row (pg_now P n)) d)))"
    by (rule exec [of "{i}"]) (use i settled_update row_ok_confirm in auto)
  have 3: "keeps_at (owned P batch n0 d0) (exec P (\<lambda>n d. Inr (followees_of d i, d)))"
    by (rule exec [of "{}"]) (auto simp: settled_refl)
  have 4: "keeps_at (owned P batch n0 d0) (exec P (diff_tx P i ev ts rm ad ch))" for rm ad ch
    by (rule exec [of "{i}"]) (use i settled_diff_tx in auto)
  show ?thesis
    unfolding apply_follow_list_def Let_def
    by (intro keeps_bind keeps_if keeps_ret 1 2 3 4)
qed

lemma owned_apply_validated:
  assumes o: "claims P batch d0" and K: "keys_ok E" and a: "vfl_follower v \<in> authors_of E batch"
  shows "keeps_at (owned P batch n0 d0) (apply_validated E P v)"
  unfolding apply_validated_def
proof (rule keeps_bind_within [OF owned_upsert [OF o]])
  fix w i and w' :: world
  assume I: "owned P batch n0 d0 (wtick w) (wdb w)" and u: "upsert_pubkey P (sdk_to_bytes E (vfl_follower v)) w = (Inr i, w')"
  obtain c where c: "c \<in> set batch" "sdk_from_slice E (ca_pubkey c) = Some (vfl_follower v)"
    using a by (auto simp: in_authors_of)
  have "i = ca_id c"
    by (rule owned_upsert_id [OF o c(1) I]) (use u to_from_bytes [OF K c(2)] in simp)
  then show "keeps_at (owned P batch n0 d0) (bind_io (map_io (upsert_pubkey P) (map (sdk_to_bytes E) (vfl_followees v)))
      (\<lambda>followee_ids. apply_follow_list P i (sdk_id_bytes E (vfl_event_id v)) (vfl_created_at v) followee_ids))"
    by (intro keeps_bind keeps_map owned_upsert [OF o] owned_apply_follow_list [OF o]) (use c(1) in simp)
qed

lemma owned_status:
  assumes "claims P batch d0" and "c \<in> set batch"
  shows "keeps_at (owned P batch n0 d0) (set_fetch_status P (ca_id c) ''not_found'' ts)"
  unfolding set_fetch_status_def
proof (rule owned_exec [OF assms(1), of "{ca_id c}"])
  let ?f = "\<lambda>r. r\<lparr>row_status := Not_Found, last_fetched_at := Some ts\<rparr>"
  fix n d x d' assume ok: "db_ok d" and s: "set_status_stmt (ca_id c) ''not_found'' ts n d = Inr (x, d')"
  have "settled {ca_id c} d (update_rows (\<lambda>r. row_id r = ca_id c) ?f d)"
    by (rule settled_update [OF ok]) (simp_all add: keeps_identity_def row_ok_def)
  then show "settled {ca_id c} d d'"
    using s ok by (auto simp: set_status_stmt_def status_of_def settled_refl split: option.splits)
qed (use assms(2) in auto)

lemma owned_requeue:
  assumes "claims P batch d0" and "c \<in> set batch"
  shows "keeps_at (owned P batch n0 d0) (requeue_or_fail P (ca_id c) mx ts)"
  unfolding requeue_or_fail_def
proof (rule owned_exec [OF assms(1), of "{ca_id c}"])
  fix n d x d' assume ok: "db_ok d" and s: "attempt_stmt (ca_id c) (sint mx) ts n d = Inr (x, d')"
  show "settled {ca_id c} d d'"
  proof (cases "row_by_id d (ca_id c)")
    case None
    then show ?thesis using s settled_refl [OF ok] by (simp add: attempt_stmt_def)
  next
    case (Some r)
    then have "fetch_attempts r < 32767" and d': "d' = update_rows (\<lambda>r. row_id r = ca_id c)
        (attempt_row (sint mx) ts) d"
      using s by (auto simp: attempt_stmt_def split: if_splits)
    then show ?thesis unfolding d' using Some by (intro settled_update [OF ok]) (auto intro: row_ok_attempt)
  qed
qed (use assms(2) in auto)

interpretation ownership: batch_writes E P B batch u "\<lambda>n d. claims P batch d0 \<longrightarrow> owned P batch n0 d0 n d"
  for E P B batch u n0 d0
proof
  let ?I = "\<lambda>n d. claims P batch d0 \<longrightarrow> owned P batch n0 d0 n d"
  show "keeps_at ?I (apply_relay_list P i rs ts)" for i rs ts
    unfolding apply_relay_list_def
    by (rule keeps_given, rule owned_exec [of P batch d0 "{}"])
      (use settled_graph replace_relays_Inr in blast)+
  show "keeps_at ?I (lookup_write_relays P i)" for i
    unfolding lookup_write_relays_def
    by (rule keeps_given, rule owned_exec [of P batch d0 "{}"]) (auto simp: settled_refl)
  show "keeps_at ?I (apply_validated E P v)" if "keys_ok E" "from_batch E B batch u v" for v
    by (rule keeps_given, erule owned_apply_validated) (use that in \<open>simp_all add: from_batch_def\<close>)
qed (rule keeps_given, simp add: owned_upsert owned_status owned_requeue)+

text \<open>
  So every trip a batch makes settles some of its own rows, whoever else is at work, as long as
  the tables it started from are not lost.
\<close>

lemma batch_trips_from:
  assumes "\<And>n d. good (wdb w) d \<Longrightarrow> good (wdb w) (pg_others P n d)" and "keys_ok E" and "orders_ok E"
    and "db_ok (wdb w)" and "\<forall>c \<in> set batch. claims_row (wdb w) c" and "process_batch E P B batch u w = (res, w')"
  shows "trips P (settled (ca_id ` set batch)) (wtick w) (wdb w) (wtick w') (wdb w')"
proof -
  let ?I = "\<lambda>n d. claims P batch (wdb w) \<longrightarrow> owned P batch (wtick w) (wdb w) n d"
  have "?I (wtick w) (wdb w)" using assms(4) by (simp add: owned_def good_refl trips.start)
  then have "?I (wtick (snd (process_batch E P B batch u w))) (wdb (snd (process_batch E P B batch u w)))"
    using ownership.process_batch [OF assms(2,3), of P batch "wdb w" "wtick w" B u]
    unfolding keeps_at_def by blast
  then show ?thesis using assms(1,5,6) by (simp add: claims_def owned_def)
qed

lemma batch_trips:
  assumes "rely P" and "keys_ok E" and "orders_ok E" and "db_ok (wdb w)"
    and "\<forall>c \<in> set batch. claims_row (wdb w) c" and "process_batch E P B batch u w = (res, w')"
  shows "trips P (settled (ca_id ` set batch)) (wtick w) (wdb w) (wtick w') (wdb w')"
  by (rule batch_trips_from [OF good_others [OF assms(1)] assms(2-)])

lemma trips_good:
  assumes "trips P (settled J) n d m e" and "rely P" and "db_ok d"
  shows "good d e"
  using assms(1)
proof induction
  case (trip m e e')
  have "good d (pg_others P m e)" by (rule good_others [OF assms(2) trip.IH])
  then show ?case using settledD(1,2) [OF trip.hyps(2)] extends_trans by (auto simp: good_def)
qed (rule good_refl [OF assms(3)])

lemma trips_alone:
  assumes "trips P (settled J) n d m e" and "alone P" and "db_ok d" and "J \<subseteq> ids d"
  shows "settled J d e"
  using assms(1)
proof induction
  case (trip m e e')
  then have "settled J e e'" using assms(2) by (simp add: alone_def)
  then show ?case using settled_trans [OF trip.IH _ assms(4)] by simp
qed (rule settled_refl [OF assms(3)])

end
