(* ===== verification/Batch.thy ===== *)
theory Batch imports Batch_Writes begin

text \<open>
  What \<open>process_batch\<close> does with a whole batch, whatever the other batches, the driver and the
  timers do to the tables between its round trips, as long as they leave the claimed rows
  alone: every claimed row is settled by its own author's outcome, a failed fetch charges
  every author one attempt, and no key enters the database but through a verified list. A
  batch is such a peer to every other one.
\<close>

section \<open>One author\<close>

text \<open>Not found anywhere: the status and its stamp, and nothing else of the row.\<close>

definition missed :: "datetime \<Rightarrow> int \<Rightarrow> pubkey_row \<Rightarrow> db \<Rightarrow> db \<Rightarrow> bool" where
  "missed stamp i r d d' \<longleftrightarrow>
     row_by_id d' i = Some (r\<lparr>row_status := Not_Found, last_fetched_at := Some stamp\<rparr>)
     \<and> (\<forall>b. (i, b) \<in> set (follows d') \<longleftrightarrow> (i, b) \<in> set (follows d))"

definition recovered ::
  "env \<Rightarrow> batch_args \<Rightarrow> claimed_author \<Rightarrow> pubkey_row \<Rightarrow> db \<Rightarrow> db \<Rightarrow> bool" where
  "recovered E B c r d d' \<longleftrightarrow>
     (\<exists>author relays raw v. b_fallback_enabled B \<and> sdk_from_slice E (ca_pubkey c) = Some author
        \<and> length relays \<le> b_max_write_relays B
        \<and> b_fallback_fetch B author relays = Inr raw
        \<and> passed_gate E B {author} raw v \<and> list_applied E v (ca_id c) r d d')"

definition author_outcome ::
  "env \<Rightarrow> batch_args \<Rightarrow> (pubkey \<Rightarrow> validated_follow_list option) \<Rightarrow> datetime \<Rightarrow> claimed_author
   \<Rightarrow> pubkey_row \<Rightarrow> db \<Rightarrow> db \<Rightarrow> bool" where
  "author_outcome E B by_author stamp c r d d' \<longleftrightarrow>
     (case Option.bind (sdk_from_slice E (ca_pubkey c)) by_author of
        Some v \<Rightarrow> list_applied E v (ca_id c) r d d'
      | None \<Rightarrow> missed stamp (ca_id c) r d d' \<or> recovered E B c r d d')"

definition has_list :: "db \<Rightarrow> claimed_author \<Rightarrow> bool" where
  "has_list d c \<longleftrightarrow> (case row_by_id d (ca_id c) of None \<Rightarrow> False | Some r \<Rightarrow> row_status r = Fetched)"

section \<open>Framing\<close>

text \<open>An author's outcome is not disturbed by what others do before or after.\<close>

lemma list_applied_frame:
  assumes 1: "peer {i} d d1" and l: "list_applied E v i r d1 d2" and 2: "peer {i} d2 d3"
  shows "list_applied E v i r d d3"
proof -
  have "\<forall>k \<in> set (vfl_followees v). id_of d3 (sdk_to_bytes E k) = id_of d2 (sdk_to_bytes E k)"
    using l id_of_extends [OF peerD(1,2) [OF 2]] by (fastforce simp: list_applied_def)
  moreover have "row_by_id d3 i = row_by_id d2 i" using peerD(4) [OF 2] by simp
  moreover have "(i, b) \<in> set (follows d1) \<longleftrightarrow> (i, b) \<in> set (follows d)"
      "(i, b) \<in> set (follows d3) \<longleftrightarrow> (i, b) \<in> set (follows d2)" for b
    using peerD(5) [OF 1] peerD(5) [OF 2] by simp_all
  ultimately show ?thesis using l unfolding list_applied_def by (metis (no_types, lifting))
qed

lemma missed_frame:
  "peer {i} d d1 \<Longrightarrow> missed stamp i r d1 d2 \<Longrightarrow> peer {i} d2 d3 \<Longrightarrow> missed stamp i r d d3"
  by (simp add: missed_def peer_def)

lemma outcome_frame:
  assumes "peer {ca_id c} d d1" and "author_outcome E B f stamp c r d1 d2" and "peer {ca_id c} d2 d3"
  shows "author_outcome E B f stamp c r d d3"
  using assms(2) list_applied_frame [OF assms(1) _ assms(3)] missed_frame [OF assms(1) _ assms(3)]
  by (fastforce simp: author_outcome_def recovered_def split: option.splits)

lemma has_list_frame: "peer {ca_id c} d d' \<Longrightarrow> has_list d' c = has_list d c"
  by (simp add: has_list_def peer_def)

lemma claims_frame: "peer I d d' \<Longrightarrow> ca_id c \<in> I \<Longrightarrow> claims_row d' c = claims_row d c"
  by (simp add: claims_row_def peer_def)

lemma has_list_applied: "list_applied E v (ca_id c) r d d' \<Longrightarrow> has_list d' c"
  by (auto simp: list_applied_def has_list_def)

lemma has_list_missed: "missed stamp (ca_id c) r d d' \<Longrightarrow> \<not> has_list d' c"
  by (simp add: missed_def has_list_def)

section \<open>Settling one author\<close>

lemma shared_on:
  assumes "peer I d d1" and "I \<subseteq> ids d"
  shows "peer I d d1" "db_ok d1" "I \<subseteq> ids d1" "i \<in> I \<Longrightarrow> row_by_id d1 i = row_by_id d i"
  using peerD(1,3,4) [OF assms(1)] assms by auto

lemma shared_step:
  assumes "peer I d (wdb w1)" and "delivers c w1 (\<lambda>x w'. peer I (wdb w1) (wdb w') \<and> R x w')"
    and "\<And>x w2. peer I d (wdb w2) \<Longrightarrow> R x w2 \<Longrightarrow> delivers (k x) w2 Q"
  shows "delivers (bind_io c k) w1 Q"
  by (rule delivers_then [OF assms(2)]) (use assms(1,3) peer_trans in blast)

lemma resolve_write_relays_shared:
  assumes sh: "shared I P" and K: "keys_ok E" and ok: "db_ok (wdb w)" and I: "I \<subseteq> ids (wdb w)"
  shows "delivers (resolve_write_relays E P B c author) w (\<lambda>_ w'. peer I (wdb w) (wdb w'))"
proof -
  let ?Q = "\<lambda>(_::ustring list) w'. peer I (wdb w) (wdb w')" and ?k = "sdk_to_bytes E author"
  have ask: "delivers (lookup_write_relays P i) w1 ?Q" if "peer I (wdb w) (wdb w1)" for i w1
    by (rule delivers_mono [OF lookup_shared [OF sh shared_on(2,3) [OF that I]]])
      (use that peer_trans in blast)
  have persist: "delivers (bind_io (upsert_pubkey P ?k) (\<lambda>pubkey_id.
        bind_io (apply_relay_list P pubkey_id (vrl_relays vrl) (vrl_created_at vrl)) (\<lambda>_.
        lookup_write_relays P pubkey_id))) w1 ?Q"
    if mk: "snd ` set (vrl_relays vrl) \<subseteq> markers" and w1: "peer I (wdb w) (wdb w1)" for vrl w1
  proof (rule shared_step [OF w1 upsert_shared [OF sh shared_on(2,3) [OF w1 I] to_bytes_length [OF K]]])
    fix i and w2 :: world
    assume w2: "peer I (wdb w) (wdb w2)" and "id_of (wdb w2) ?k = Some i \<and> wmet w2 = wmet w1"
    then have i: "i \<in> ids (wdb w2)" using id_of_mem by blast
    show "delivers (bind_io (apply_relay_list P i (vrl_relays vrl) (vrl_created_at vrl)) (\<lambda>_.
        lookup_write_relays P i)) w2 ?Q"
      by (rule shared_step [OF w2 relays_shared [OF sh shared_on(2,3) [OF w2 I] i mk]]) (rule ask)
  qed
  have again: "delivers (if fresh \<noteq> [] then ret fresh else lookup_write_relays P i) w1 ?Q"
    if "peer I (wdb w) (wdb w1)" for fresh w1 i
    using that ask by (auto intro: delivers_ret)
  have nip65: "delivers (case b_relay_list_fetch B author of
          Inl _ \<Rightarrow> ret known
        | Inr raw \<Rightarrow>
            bind_io (tally (resolve_relay_list E raw author (b_now B) (b_clamp B))) (\<lambda>found.
            case found of
              None \<Rightarrow> ret known
            | Some vrl \<Rightarrow>
                bind_io (upsert_pubkey P ?k) (\<lambda>pubkey_id.
                bind_io (apply_relay_list P pubkey_id (vrl_relays vrl) (vrl_created_at vrl)) (\<lambda>_.
                lookup_write_relays P pubkey_id)))) w1 ?Q" if w1: "peer I (wdb w) (wdb w1)" for known w1
  proof (cases "b_relay_list_fetch B author")
    case (Inr raw)
    let ?f = "resolve_relay_list E raw author (b_now B) (b_clamp B) (wmet w1)"
    let ?w2 = "w1\<lparr>wmet := snd ?f\<rparr>"
    have w2: "peer I (wdb w) (wdb ?w2)" using w1 by simp
    have "delivers (case fst ?f of
              None \<Rightarrow> ret known
            | Some vrl \<Rightarrow>
                bind_io (upsert_pubkey P ?k) (\<lambda>pubkey_id.
                bind_io (apply_relay_list P pubkey_id (vrl_relays vrl) (vrl_created_at vrl)) (\<lambda>_.
                lookup_write_relays P pubkey_id))) ?w2 ?Q"
      by (cases "fst ?f") (use w2 persist [OF relay_list_markers w2] in \<open>auto intro: delivers_ret\<close>)
    then show ?thesis unfolding Inr sum.case by (intro delivers_bind delivers_tally)
  qed (simp add: delivers_ret w1)
  have w0: "peer I (wdb w) (wdb w)" using ok by (simp add: peer_refl)
  show ?thesis unfolding resolve_write_relays_def
  proof (rule delivers_then [OF ask [OF w0]])
    fix known and w1 :: world assume w1: "peer I (wdb w) (wdb w1)"
    show "delivers (if known \<noteq> [] then ret known else bind_io
         (case b_relay_list_fetch B author of
            Inl _ \<Rightarrow> ret known
          | Inr raw \<Rightarrow>
              bind_io (tally (resolve_relay_list E raw author (b_now B) (b_clamp B))) (\<lambda>found.
              case found of
                None \<Rightarrow> ret known
              | Some vrl \<Rightarrow>
                  bind_io (upsert_pubkey P ?k) (\<lambda>pubkey_id.
                  bind_io (apply_relay_list P pubkey_id (vrl_relays vrl) (vrl_created_at vrl)) (\<lambda>_.
                  lookup_write_relays P pubkey_id))))
         (\<lambda>fresh. if fresh \<noteq> [] then ret fresh else lookup_write_relays P (ca_id c))) w1 ?Q"
    proof (cases "known = []")
      case True
      show ?thesis unfolding True
        by (simp, rule delivers_then [OF nip65 [OF w1]]) (use again in simp)
    qed (simp add: delivers_ret w1)
  qed
qed

lemma fallback_recover_shared:
  assumes "shared I P" and "keys_ok E" and "db_ok (wdb w)" and "I \<subseteq> ids (wdb w)"
  shows "delivers (fallback_recover E P B c author) w (\<lambda>res w'. peer I (wdb w) (wdb w') \<and>
    (\<forall>v. res = Some v \<longrightarrow> (\<exists>relays raw. length relays \<le> b_max_write_relays B
       \<and> b_fallback_fetch B author relays = Inr raw \<and> passed_gate E B {author} raw v)))"
  unfolding fallback_recover_def
proof (intro delivers_bind delivers_mono [OF resolve_write_relays_shared [OF assms]])
  fix us and w1 :: world assume s: "peer I (wdb w) (wdb w1)"
  let ?chosen = "take (b_max_write_relays B) (healthier_first (b_health B (wtick w1)) us)"
  have len: "length ?chosen \<le> b_max_write_relays B" by simp
  show "delivers (if us = [] then ret None else
       bind_io moment (\<lambda>t.
       let chosen = take (b_max_write_relays B) (healthier_first (b_health B t) us)
       in case b_fallback_fetch B author chosen of
            Inl _ \<Rightarrow> ret None
          | Inr raw \<Rightarrow>
              bind_io (tally (acquire_validated_lists E {author} (b_kind B) (b_now B) (b_clamp B)
                  (b_follow_cap B) (Inr raw))) (\<lambda>resolved.
              ret (case resolved of
                     Inl _ \<Rightarrow> None
                   | Inr v \<Rightarrow> if v = [] then None else Some (last v))))) w1
     (\<lambda>res w'. peer I (wdb w) (wdb w') \<and>
       (\<forall>v. res = Some v \<longrightarrow> (\<exists>relays raw. length relays \<le> b_max_write_relays B
          \<and> b_fallback_fetch B author relays = Inr raw \<and> passed_gate E B {author} raw v)))"
  proof (cases "b_fallback_fetch B author ?chosen")
    case (Inl e)
    then show ?thesis using s
      by (auto simp: Let_def intro!: delivers_ret delivers_bind delivers_moment)
  next
    case (Inr raw)
    let ?vs = "fst (ingest_events E raw (b_kind B) {author} (b_now B) (b_clamp B) (b_follow_cap B)
      (wmet w1))"
    have "passed_gate E B {author} raw (last ?vs)" if "?vs \<noteq> []"
      using last_in_set [OF that] unfolding passed_gate_def by blast
    then have "\<forall>v. (if ?vs = [] then None else Some (last ?vs)) = Some v \<longrightarrow>
        (\<exists>relays raw. length relays \<le> b_max_write_relays B
          \<and> b_fallback_fetch B author relays = Inr raw \<and> passed_gate E B {author} raw v)"
      using len Inr by (metis option.distinct(1) option.inject)
    then show ?thesis using s Inr
      by (auto simp: Let_def acquire_validated_lists_def case_prod_beta intro!: delivers_intros)
  qed
qed

lemma miss_shared:
  assumes sh: "shared I P" and I: "I \<subseteq> ids (wdb w)" and i: "i \<in> I"
    and w1: "peer I (wdb w) (wdb w1)" and r: "row_by_id (wdb w) i = Some r"
  shows "delivers (bind_io (set_fetch_status P i ''not_found'' stamp) (\<lambda>_. ret (0::nat))) w1
    (\<lambda>k w'. k = 0 \<and> peer (I - {i}) (wdb w) (wdb w') \<and> missed stamp i r (wdb w) (wdb w'))"
proof -
  note wD = shared_on [OF w1 I]
  have r1: "row_by_id (wdb w1) i = Some r" using wD(4) [OF i] r by simp
  have "peer (I - {i}) (wdb w) d" if "peer (I - {i}) (wdb w1) d" for d
    using peer_trans [OF peer_mono [OF wD(1)] that] by blast
  then show ?thesis
    by (intro delivers_then [OF not_found_shared [OF sh wD(2,3) i r1]] delivers_ret)
      (use peerD(5) [OF wD(1) i] in \<open>auto simp: missed_def\<close>)
qed

lemma apply_shared:
  assumes sh: "shared I P" and K: "keys_ok E" and I: "I \<subseteq> ids (wdb w)" and i: "i \<in> I"
    and w1: "peer I (wdb w) (wdb w1)" and r: "row_by_id (wdb w) i = Some r"
    and key: "row_pubkey r = sdk_to_bytes E (vfl_follower v)"
  shows "delivers (apply_validated E P v) w1
    (\<lambda>_ w'. peer (I - {i}) (wdb w) (wdb w') \<and> list_applied E v i r (wdb w) (wdb w'))"
proof -
  note wD = shared_on [OF w1 I]
  have r1: "row_by_id (wdb w1) i = Some r" using wD(4) [OF i] r by simp
  have one: "peer {i} (wdb w) (wdb w1)" by (rule peer_mono [OF wD(1)]) (use i in simp)
  have "peer (I - {i}) (wdb w) d" if "peer (I - {i}) (wdb w1) d" for d
    using peer_trans [OF peer_mono [OF wD(1)] that] by blast
  then show ?thesis
    by (intro delivers_mono [OF apply_validated_shared [OF sh K wD(2,3) i r1 key]])
      (use list_applied_frame [OF one _ peer_refl] peerD(1) in \<open>auto simp:\<close>)
qed

lemma settle_author_shared:
  assumes sh: "shared I P" and K: "keys_ok E" and O: "orders_ok E" and ok: "db_ok (wdb w)"
    and I: "I \<subseteq> ids (wdb w)" "ca_id c \<in> I"
    and r: "row_by_id (wdb w) (ca_id c) = Some r" and key: "row_pubkey r = ca_pubkey c"
    and idx: "\<And>a v. f a = Some v \<Longrightarrow> vfl_follower v = a"
  shows "delivers (settle_author E P B f stamp c) w (\<lambda>k w'.
    peer (I - {ca_id c}) (wdb w) (wdb w') \<and> author_outcome E B f stamp c r (wdb w) (wdb w')
    \<and> k = (if has_list (wdb w') c then 1 else 0))"
proof -
  let ?d = "wdb w" and ?i = "ca_id c"
  let ?Q = "\<lambda>(k::nat) w'. peer (I - {?i}) ?d (wdb w') \<and> author_outcome E B f stamp c r ?d (wdb w')
    \<and> k = (if has_list (wdb w') c then 1 else 0)"
  have w0: "peer I (wdb w) (wdb w)" using ok by (simp add: peer_refl)
  note miss = miss_shared [OF sh I _ r, of _ stamp] and app = apply_shared [OF sh K I _ r]
  show ?thesis
  proof (cases "sdk_from_slice E (ca_pubkey c)")
    case None
    have "delivers (bind_io (set_fetch_status P ?i ''not_found'' stamp) (\<lambda>_. ret 0)) w ?Q"
      using miss [OF w0]
      by (rule delivers_mono) (auto simp: author_outcome_def None has_list_missed)
    then show ?thesis by (simp add: settle_author_def None)
  next
    case (Some author)
    have key': "row_pubkey r = sdk_to_bytes E author" using to_from_bytes [OF K Some] key by simp
    show ?thesis
    proof (cases "f author")
      case (Some v)
      have "row_pubkey r = sdk_to_bytes E (vfl_follower v)" using idx [OF Some] key' by simp
      from app [OF w0 this]
      have "delivers (bind_io (apply_validated E P v) (\<lambda>_. ret 1)) w ?Q"
        by (intro delivers_bind) (erule delivers_mono, rule delivers_ret,
          auto simp: author_outcome_def \<open>sdk_from_slice E (ca_pubkey c) = Some author\<close> Some
            has_list_applied)
      then show ?thesis
        by (simp add: settle_author_def \<open>sdk_from_slice E (ca_pubkey c) = Some author\<close> Some)
    next
      case None
      let ?rest = "\<lambda>recovered. case recovered of
          Some vfl \<Rightarrow> bind_io (apply_validated E P vfl) (\<lambda>_.
            bind_io (tally (\<lambda>m. ((), count_by ''nip65_recovered'' 1 m))) (\<lambda>_. ret 1))
        | None \<Rightarrow> bind_io (set_fetch_status P ?i ''not_found'' stamp) (\<lambda>_. ret 0)"
      have none: "delivers (?rest None) w1 ?Q" if "peer I (wdb w) (wdb w1)" for w1
        using miss [OF that]
        by (simp, rule delivers_mono)
          (auto simp: author_outcome_def Some None has_list_missed)
      have hit: "delivers (?rest (Some v)) w1 ?Q"
        if s: "peer I (wdb w) (wdb w1)" and en: "b_fallback_enabled B"
          and g: "length relays \<le> b_max_write_relays B"
            "b_fallback_fetch B author relays = Inr raw" "passed_gate E B {author} raw v" for v w1 relays raw
      proof -
        have "vfl_follower v = author"
          using g(3) ingest_follower [OF O] unfolding passed_gate_def by blast
        then have "row_pubkey r = sdk_to_bytes E (vfl_follower v)" using key' by simp
        from app [OF s this] show ?thesis
          by (simp, intro delivers_bind) (erule delivers_mono, intro delivers_intros,
            use en g Some in \<open>auto simp: author_outcome_def None recovered_def has_list_applied\<close>)
      qed
      have "delivers (bind_io (if b_fallback_enabled B then fallback_recover E P B c author
          else ret None) ?rest) w ?Q"
      proof (cases "b_fallback_enabled B")
        case False
        show ?thesis unfolding if_not_P [OF False]
          by (rule delivers_bind, rule delivers_ret, rule none [OF w0])
      next
        case True
        show ?thesis unfolding if_P [OF True]
        proof (rule delivers_then [OF fallback_recover_shared [OF sh K ok I(1)]])
          fix res and w1 :: world
          assume a: "peer I (wdb w) (wdb w1) \<and> (\<forall>v. res = Some v \<longrightarrow> (\<exists>relays raw.
            length relays \<le> b_max_write_relays B \<and> b_fallback_fetch B author relays = Inr raw
            \<and> passed_gate E B {author} raw v))"
          show "delivers (?rest res) w1 ?Q"
          proof (cases res)
            case None
            then show ?thesis using none a by simp
          next
            case (Some v)
            then show ?thesis using hit [OF _ True] a by blast
          qed
        qed
      qed
      then show ?thesis unfolding settle_author_def Some None option.case .
    qed
  qed
qed

section \<open>The whole batch\<close>

definition outcomes ::
  "env \<Rightarrow> batch_args \<Rightarrow> (pubkey \<Rightarrow> validated_follow_list option) \<Rightarrow> datetime \<Rightarrow> claimed_author list
   \<Rightarrow> db \<Rightarrow> db \<Rightarrow> bool" where
  "outcomes E B f stamp cs d d' \<longleftrightarrow>
     (\<forall>c \<in> set cs. \<exists>r. row_by_id d (ca_id c) = Some r \<and> author_outcome E B f stamp c r d d')"

lemma outcomes_Cons:
  assumes one: "peer (I - {ca_id c}) d d1" "row_by_id d (ca_id c) = Some r"
      "author_outcome E B f stamp c r d d1"
    and rest: "peer (I - ca_id ` set cs) d1 d2" "outcomes E B f stamp cs d1 d2"
    and ids: "ca_id c \<notin> ca_id ` set cs" "ca_id ` set (c # cs) \<subseteq> I" and ok: "db_ok d"
  shows "peer (I - ca_id ` set (c # cs)) d d2" "outcomes E B f stamp (c # cs) d d2"
    "has_list d2 c = has_list d1 c"
proof -
  show "peer (I - ca_id ` set (c # cs)) d d2"
    by (rule peer_trans, rule peer_mono [OF one(1)], auto, rule peer_mono [OF rest(1)], auto)
  have c: "peer {ca_id c} d1 d2" by (rule peer_mono [OF rest(1)]) (use ids in auto)
  show "has_list d2 c = has_list d1 c" by (rule has_list_frame [OF c])
  have "\<exists>r. row_by_id d (ca_id c') = Some r \<and> author_outcome E B f stamp c' r d d2"
    if c': "c' \<in> set cs" for c'
  proof -
    obtain r' where r': "row_by_id d1 (ca_id c') = Some r'" "author_outcome E B f stamp c' r' d1 d2"
      using rest(2) c' by (auto simp: outcomes_def)
    have "ca_id c' \<noteq> ca_id c" using ids(1) c' by (metis imageI)
    then have p: "peer {ca_id c'} d d1" by (intro peer_mono [OF one(1)]) (use ids(2) c' in auto)
    have "row_by_id d (ca_id c') = Some r'" using peerD(4) [OF p] r'(1) by simp
    moreover have "author_outcome E B f stamp c' r' d d2"
      by (rule outcome_frame [OF p r'(2) peer_refl [OF peerD(1) [OF rest(1)]]])
    ultimately show ?thesis by blast
  qed
  then show "outcomes E B f stamp (c # cs) d d2"
    using one(2) outcome_frame [OF peer_refl [OF ok] one(3) c] by (auto simp: outcomes_def)
qed

lemma settle_batch_shared:
  assumes sh: "shared I P" and K: "keys_ok E" and O: "orders_ok E"
    and idx: "\<And>a v. f a = Some v \<Longrightarrow> vfl_follower v = a"
    and "db_ok (wdb w)" "I \<subseteq> ids (wdb w)" "ca_id ` set cs \<subseteq> I"
    "\<forall>c \<in> set cs. claims_row (wdb w) c" "distinct (map ca_id cs)"
  shows "delivers (settle_batch E P B f stamp cs n) w (\<lambda>k w'. peer (I - ca_id ` set cs) (wdb w) (wdb w')
    \<and> outcomes E B f stamp cs (wdb w) (wdb w') \<and> k = n + length (filter (has_list (wdb w')) cs))"
  using assms(5-9)
proof (induction cs arbitrary: w n)
  case Nil
  then show ?case by (simp add: delivers_ret outcomes_def peer_refl)
next
  case (Cons c cs)
  obtain r where r: "row_by_id (wdb w) (ca_id c) = Some r" "row_pubkey r = ca_pubkey c"
    using Cons.prems(4) by (auto simp: claims_row_def)
  have cI: "ca_id c \<in> I" and c: "ca_id c \<notin> ca_id ` set cs" using Cons.prems(3,5) by auto
  show ?case unfolding settle_batch.simps
  proof (rule delivers_then [OF settle_author_shared [OF sh K O Cons.prems(1,2) cI r idx]])
    fix k :: nat and w1 :: world
    assume a: "peer (I - {ca_id c}) (wdb w) (wdb w1) \<and> author_outcome E B f stamp c r (wdb w) (wdb w1)
      \<and> k = (if has_list (wdb w1) c then 1 else 0)"
    then have p: "peer (I - {ca_id c}) (wdb w) (wdb w1)" by simp
    have cr: "\<forall>c' \<in> set cs. claims_row (wdb w1) c'"
    proof
      fix c' assume c': "c' \<in> set cs"
      then have "ca_id c' \<in> I - {ca_id c}" using c Cons.prems(3) by (auto simp: image_iff)
      then show "claims_row (wdb w1) c'" using claims_frame [OF p] Cons.prems(4) c' by simp
    qed
    have I1: "I \<subseteq> ids (wdb w1)" using Cons.prems(2) peerD(3) [OF p] by blast
    have IH: "delivers (settle_batch E P B f stamp cs (n + k)) w1 (\<lambda>k' w'.
        peer (I - ca_id ` set cs) (wdb w1) (wdb w') \<and> outcomes E B f stamp cs (wdb w1) (wdb w')
        \<and> k' = n + k + length (filter (has_list (wdb w')) cs))"
      using Cons.IH [OF peerD(1) [OF p] I1] cr Cons.prems(3,5) by simp
    show "delivers (settle_batch E P B f stamp cs (n + k)) w1 (\<lambda>k w'.
        peer (I - ca_id ` set (c # cs)) (wdb w) (wdb w') \<and> outcomes E B f stamp (c # cs) (wdb w) (wdb w')
        \<and> k = n + length (filter (has_list (wdb w')) (c # cs)))"
    proof (rule delivers_mono [OF IH])
      fix k' and w' :: world
      assume b: "peer (I - ca_id ` set cs) (wdb w1) (wdb w') \<and> outcomes E B f stamp cs (wdb w1) (wdb w')
        \<and> k' = n + k + length (filter (has_list (wdb w')) cs)"
      have o: "author_outcome E B f stamp c r (wdb w) (wdb w1)" using a by simp
      note Cons' = outcomes_Cons [OF p r(1) o conjunct1 [OF b] conjunct1 [OF conjunct2 [OF b]] c
        Cons.prems(3,1)]
      show "peer (I - ca_id ` set (c # cs)) (wdb w) (wdb w') \<and> outcomes E B f stamp (c # cs) (wdb w) (wdb w')
        \<and> k' = n + length (filter (has_list (wdb w')) (c # cs))"
        using Cons'(1,2) a b by (simp add: Cons'(3) del: list.set(2))
    qed
  qed
qed

lemma claims_ids: "\<forall>c \<in> set cs. claims_row d c \<Longrightarrow> ca_id ` set cs \<subseteq> ids d"
  using row_by_id_ids by (fastforce simp: claims_row_def)

lemma process_batch_shared:
  assumes sh: "shared (ca_id ` set batch) P" and K: "keys_ok E" and O: "orders_ok E" and ok: "db_ok (wdb w)"
    and cl: "\<forall>c \<in> set batch. claims_row (wdb w) c" "distinct (map ca_id batch)"
    and vs: "vs = fst (ingest_events E raw (b_kind B) (authors_of E batch) (b_now B) (b_clamp B)
      (b_follow_cap B) (wmet w))"
  shows "delivers (process_batch E P B batch (Inr raw)) w (\<lambda>n w'.
    outcomes E B (index_by_author vs) (timestamp_to_datetime E (b_now B)) batch (wdb w) (wdb w')
    \<and> n = length (filter (has_list (wdb w')) batch))"
proof (cases "batch = []")
  case True
  then show ?thesis by (simp add: process_batch_def delivers_ret outcomes_def)
next
  case False
  let ?acq = "acquire_validated_lists E (authors_of E batch) (b_kind B) (b_now B) (b_clamp B)
    (b_follow_cap B) (Inr raw)"
  have a: "fst (?acq (wmet w)) = Inr vs"
    by (simp add: acquire_validated_lists_def vs case_prod_beta)
  have idx: "index_by_author vs a = Some v \<Longrightarrow> vfl_follower v = a" for a v
    using index_by_author_mem by blast
  let ?w1 = "w\<lparr>wmet := snd (?acq (wmet w))\<rparr>"
  have "delivers (settle_batch E P B (index_by_author vs) (timestamp_to_datetime E (b_now B)) batch 0)
      ?w1 (\<lambda>k w'. outcomes E B (index_by_author vs) (timestamp_to_datetime E (b_now B)) batch
        (wdb ?w1) (wdb w') \<and> k = 0 + length (filter (has_list (wdb w')) batch))"
    by (rule delivers_mono [OF settle_batch_shared [OF sh K O idx]]) (use ok cl claims_ids [OF cl(1)] in auto)
  then show ?thesis using False a
    unfolding process_batch_def Let_def authors_of_def [symmetric]
    by (simp, intro delivers_bind delivers_tally) (simp add: a)
qed

text \<open>On a server of its own, moreover, nothing else is touched.\<close>

definition all_settled ::
  "env \<Rightarrow> batch_args \<Rightarrow> (pubkey \<Rightarrow> validated_follow_list option) \<Rightarrow> datetime \<Rightarrow> claimed_author list
   \<Rightarrow> db \<Rightarrow> db \<Rightarrow> bool" where
  "all_settled E B f stamp cs d d' \<longleftrightarrow> settled (ca_id ` set cs) d d' \<and> outcomes E B f stamp cs d d'"

lemma process_batch_lists:
  assumes q: "quiet P" and "keys_ok E" and "orders_ok E" and ok: "db_ok (wdb w)"
    and cl: "\<forall>c \<in> set batch. claims_row (wdb w) c" and "distinct (map ca_id batch)"
    and "vs = fst (ingest_events E raw (b_kind B) (authors_of E batch) (b_now B) (b_clamp B)
      (b_follow_cap B) (wmet w))"
  shows "delivers (process_batch E P B batch (Inr raw)) w (\<lambda>n w'.
    all_settled E B (index_by_author vs) (timestamp_to_datetime E (b_now B)) batch (wdb w) (wdb w')
    \<and> n = length (filter (has_list (wdb w')) batch))"
proof -
  obtain n w' where p: "process_batch E P B batch (Inr raw) w = (Inr n, w')"
    and o: "outcomes E B (index_by_author vs) (timestamp_to_datetime E (b_now B)) batch (wdb w) (wdb w')"
      "n = length (filter (has_list (wdb w')) batch)"
    using process_batch_shared [OF shared_quiet [OF q] assms(2-7)] unfolding delivers_def by blast
  have "settled (ca_id ` set batch) (wdb w) (wdb w')"
    by (rule trips_alone [OF batch_trips [OF rely_quiet [OF q] assms(2,3) ok cl p] alone_quiet [OF q] ok
      claims_ids [OF cl]])
  with p o show ?thesis by (auto simp: delivers_def all_settled_def)
qed

lemma requeue_batch_quiet:
  assumes q: "quiet P" and "distinct (map ca_id cs)"
    and "\<forall>c \<in> set cs. \<exists>r. row_by_id (wdb w) (ca_id c) = Some r \<and> fetch_attempts r < 32767"
  shows "delivers (for_io cs (\<lambda>c. requeue_or_fail P (ca_id c) mx now)) w (\<lambda>_ w'.
    (\<forall>i. row_by_id (wdb w') i = (if i \<in> ca_id ` set cs
       then map_option (attempt_row (sint mx) now) (row_by_id (wdb w) i) else row_by_id (wdb w) i))
    \<and> follows (wdb w') = follows (wdb w) \<and> pubkey_relays (wdb w') = pubkey_relays (wdb w))"
  using assms(2,3)
proof (induction cs arbitrary: w)
  case (Cons c cs)
  obtain r where r: "row_by_id (wdb w) (ca_id c) = Some r" "fetch_attempts r < 32767"
    using Cons.prems(2) by auto
  let ?d1 = "update_rows (\<lambda>r. row_id r = ca_id c) (attempt_row (sint mx) now) (wdb w)"
  let ?w1 = "w\<lparr>wdb := ?d1, wtick := Suc (wtick w)\<rparr>"
  have step: "requeue_or_fail P (ca_id c) mx now w = (Inr (), ?w1)" by (rule requeue_quiet [OF q r])
  have c: "ca_id c \<notin> ca_id ` set cs" using Cons.prems(1) by simp
  have row: "row_by_id ?d1 j = (if j = ca_id c then map_option (attempt_row (sint mx) now)
      (row_by_id (wdb w) j) else row_by_id (wdb w) j)" for j
    by (simp add: row_by_id_update_id)
  have "\<forall>c' \<in> set cs. \<exists>r. row_by_id (wdb ?w1) (ca_id c') = Some r \<and> fetch_attempts r < 32767"
  proof
    fix c' assume c': "c' \<in> set cs"
    then have "ca_id c' \<noteq> ca_id c" using c by (metis imageI)
    then show "\<exists>r. row_by_id (wdb ?w1) (ca_id c') = Some r \<and> fetch_attempts r < 32767"
      using Cons.prems(2) c' row by simp
  qed
  with Cons.IH [of ?w1] Cons.prems(1) have IH: "delivers (for_io cs (\<lambda>c. requeue_or_fail P (ca_id c) mx now))
      ?w1 (\<lambda>_ w'. (\<forall>i. row_by_id (wdb w') i = (if i \<in> ca_id ` set cs
        then map_option (attempt_row (sint mx) now) (row_by_id (wdb ?w1) i) else row_by_id (wdb ?w1) i))
      \<and> follows (wdb w') = follows (wdb ?w1) \<and> pubkey_relays (wdb w') = pubkey_relays (wdb ?w1))" by simp
  show ?case unfolding for_io.simps
    by (rule delivers_bind, rule delivers_eq, rule step, rule delivers_mono [OF IH])
      (use c row in \<open>auto simp del: update_rows_simps(1)\<close>)
qed (simp add: delivers_ret)

section \<open>Properties\<close>

text \<open>
  C3. When the relays answered and the server does not fail, a batch runs to its end and
  resolves every lease it holds, also while others work on the same tables: each claimed row
  is fetched or not found afterwards, with its stamp, the returned count is the number of
  fetched ones, and the batch's own round trips change nothing besides the claimed rows and
  their edges but add newly seen keys, as discovered rows.
\<close>

theorem batch_settles:
  assumes "shared (ca_id ` set batch) P" and "keys_ok E" and "orders_ok E" and "db_ok (wdb w)"
    and "rely P" and "\<forall>c \<in> set batch. claims_row (wdb w) c" and "distinct (map ca_id batch)"
  shows "\<exists>n w'. process_batch E P B batch (Inr raw) w = (Inr n, w')
    \<and> trips P (settled (ca_id ` set batch)) (wtick w) (wdb w) (wtick w') (wdb w')
    \<and> (\<forall>c \<in> set batch. \<exists>r'. row_by_id (wdb w') (ca_id c) = Some r'
         \<and> row_status r' \<in> {Fetched, Not_Found} \<and> last_fetched_at r' \<noteq> None)
    \<and> n = length (filter (has_list (wdb w')) batch)"
proof -
  obtain n w' f where p: "process_batch E P B batch (Inr raw) w = (Inr n, w')"
    and s: "outcomes E B f (timestamp_to_datetime E (b_now B)) batch (wdb w) (wdb w')"
    and n: "n = length (filter (has_list (wdb w')) batch)"
    using process_batch_shared [OF assms(1-4,6,7) refl, of B raw] unfolding delivers_def by blast
  have "\<exists>r'. row_by_id (wdb w') (ca_id c) = Some r' \<and> row_status r' \<in> {Fetched, Not_Found}
      \<and> last_fetched_at r' \<noteq> None" if c: "c \<in> set batch" for c
  proof -
    obtain r where "author_outcome E B f (timestamp_to_datetime E (b_now B)) c r (wdb w) (wdb w')"
      using s c by (auto simp: outcomes_def)
    then show ?thesis
      by (auto simp: author_outcome_def recovered_def list_applied_def missed_def split: option.splits)
  qed
  with p n batch_trips [OF assms(5,2,3,4,6) p] show ?thesis by blast
qed

text \<open>A claimed row of author 7, and the arguments of a batch without fallback.\<close>

definition demo_claim :: claimed_author where
  "demo_claim = \<lparr>ca_id = 1, ca_pubkey = sdk_to_bytes demo_env 7\<rparr>"

definition demo_batch_world :: world where
  "demo_batch_world = \<lparr>wdb = \<lparr>pubkeys = [new_row 1 (sdk_to_bytes demo_env 7)], next_id = 2,
     follows = [], pubkey_relays = []\<rparr>, wtick = 0, wmet = (\<lambda>_. 0)\<rparr>"

definition demo_args :: batch_args where
  "demo_args = \<lparr>b_kind = ContactList, b_now = 150, b_clamp = 100, b_follow_cap = 10,
     b_max_attempts = 3, b_fallback_enabled = False, b_max_write_relays = 3,
     b_health = (\<lambda>_. health_new 1), b_fallback_fetch = (\<lambda>_ _. Inr []),
     b_relay_list_fetch = (\<lambda>_. Inr [])\<rparr>"

lemma demo_batch_ok:
  "db_ok (wdb demo_batch_world)" "\<forall>c \<in> set [demo_claim]. claims_row (wdb demo_batch_world) c"
  "distinct (map ca_id [demo_claim])" "wmet demo_batch_world = (\<lambda>_. 0)"
  "row_by_id (wdb demo_batch_world) 1 = Some (new_row 1 (sdk_to_bytes demo_env 7))"
  using to_bytes_length [OF demo_keys_ok, of 7]
  by (simp_all add: demo_batch_world_def db_ok_def row_ok_new claims_row_def demo_claim_def row_by_id_def)

lemma demo_claim_author: "sdk_from_slice demo_env (ca_pubkey demo_claim) = Some 7"
  using from_to_bytes [OF demo_keys_ok, of 7] by (simp add: demo_claim_def)

text \<open>Others that add a key before every round trip.\<close>

definition busy_pg :: pg where
  "busy_pg = demo_pg\<lparr>pg_others := (\<lambda>n d. snd (insert_pubkey (replicate 32 (of_nat n)) d))\<rparr>"

lemma shared_busy: "shared I busy_pg"
proof -
  have "peer I d (snd (insert_pubkey (replicate 32 k) d))" if "db_ok d" "I \<subseteq> ids d" for d k
    using settled_peer [OF settled_insert [OF that(1), of "replicate 32 k"]] that(2) by simp
  then show ?thesis
    using quiet_demo by (simp add: shared_def spares_def busy_pg_def quiet_def pg_orders_ok_def)
qed

lemma rely_busy: "rely busy_pg"
proof -
  have "good d (snd (insert_pubkey (replicate 32 k) d))" if "db_ok d" for d k
    using settled_insert [OF that, of "replicate 32 k"] by (simp add: settled_def)
  then show ?thesis by (simp add: rely_def busy_pg_def good_def)
qed

lemma demo_busy_returns:
  "\<exists>n w'. process_batch demo_env busy_pg B [demo_claim] (Inr raw) demo_batch_world = (Inr n, w')"
  using process_batch_shared [OF shared_busy demo_keys_ok demo_orders_ok demo_batch_ok(1-3) refl, of B raw]
  unfolding delivers_def by blast

theorem batch_settles_witness:
  "\<exists>n w'. process_batch demo_env busy_pg demo_args [demo_claim] (Inr [demo_new]) demo_batch_world
      = (Inr n, w') \<and> (\<exists>r'. row_by_id (wdb w') 1 = Some r' \<and> row_status r' \<in> {Fetched, Not_Found})"
  using batch_settles [OF shared_busy demo_keys_ok demo_orders_ok demo_batch_ok(1) rely_busy demo_batch_ok(2,3),
      of demo_args "[demo_new]"]
  by (auto simp: demo_claim_def)

lemma demo_list:
  "follow_list_from_event demo_env demo_new [8, 9]
     \<in> set (fst (ingest_events demo_env [demo_old, demo_new] ContactList {7} 150 100 10 (\<lambda>_. 0)))"
proof -
  have "fst (followee_pubkeys demo_env demo_new 10 (\<lambda>_. 0)) = Some [8, 9]"
    by (simp add: followee_pubkeys_def demo_event_def demo_env_def Let_def)
  then show ?thesis
    using emitted_iff [OF demo_orders_ok demo_ids_unique] demo_newest by blast
qed

lemma demo_applied:
  assumes p: "process_batch demo_env demo_pg demo_args [demo_claim] (Inr [demo_old, demo_new])
      demo_batch_world = (res, w')"
  shows "list_applied demo_env (follow_list_from_event demo_env demo_new [8, 9]) 1
        (new_row 1 (sdk_to_bytes demo_env 7)) (wdb demo_batch_world) (wdb w')"
proof -
  let ?v = "follow_list_from_event demo_env demo_new [8, 9]"
  define vs where "vs = fst (ingest_events demo_env [demo_old, demo_new] ContactList {7} 150 100 10 (\<lambda>_. 0))"
  have a: "authors_of demo_env [demo_claim] = {7}"
    using demo_claim_author by (auto simp: in_authors_of)
  have vs: "vs = fst (ingest_events demo_env [demo_old, demo_new] (b_kind demo_args)
      (authors_of demo_env [demo_claim]) (b_now demo_args) (b_clamp demo_args) (b_follow_cap demo_args)
      (wmet demo_batch_world))"
    by (simp add: vs_def a demo_args_def demo_batch_ok(4))
  have f: "vfl_follower ?v = 7" by (simp add: follow_list_from_event_def demo_event_def)
  have d: "distinct (map vfl_follower vs)" unfolding vs_def by (rule distinct_followers [OF demo_orders_ok])
  have "index_by_author vs 7 = Some ?v"
    using index_by_author_Some [OF d] demo_list f unfolding vs_def by blast
  then have "Option.bind (sdk_from_slice demo_env (ca_pubkey demo_claim)) (index_by_author vs) = Some ?v"
    by (simp add: demo_claim_author)
  then show ?thesis
    using process_batch_lists [OF quiet_demo demo_keys_ok demo_orders_ok demo_batch_ok(1-3) vs] p
      demo_batch_ok(5)
    by (auto simp: delivers_def all_settled_def outcomes_def author_outcome_def demo_claim_def)
qed

text \<open>
  C23. When the whole fetch failed, no lease is lost either: every claimed row is charged one
  attempt, its lease released, and it is discovered again or, at the configured number of
  attempts, failed and stamped; nothing else changes and no author counts as applied.
\<close>

theorem batch_requeues:
  assumes "quiet P" and "distinct (map ca_id batch)"
    and "\<forall>c \<in> set batch. \<exists>r. row_by_id (wdb w) (ca_id c) = Some r \<and> fetch_attempts r < 32767"
  shows "\<exists>w'. process_batch E P B batch (Inl e) w = (Inr 0, w')
    \<and> (\<forall>i. row_by_id (wdb w') i = (if i \<notin> ca_id ` set batch then row_by_id (wdb w) i else
         map_option (\<lambda>r. let failed = (fetch_attempts r + 1 \<ge> sint (b_max_attempts B))
           in r\<lparr>row_status := (if failed then Failed else Discovered),
                last_fetched_at := (if failed then Some (timestamp_to_datetime E (b_now B))
                                    else last_fetched_at r),
                claimed_at := None, fetch_attempts := fetch_attempts r + 1\<rparr>) (row_by_id (wdb w) i)))
    \<and> follows (wdb w') = follows (wdb w) \<and> pubkey_relays (wdb w') = pubkey_relays (wdb w)"
proof (cases "batch = []")
  case True
  then show ?thesis by (simp add: process_batch_def ret_def)
next
  case False
  let ?now = "timestamp_to_datetime E (b_now B)"
  have row: "attempt_row (sint (b_max_attempts B)) ?now
      = (\<lambda>r. let failed = (fetch_attempts r + 1 \<ge> sint (b_max_attempts B))
           in r\<lparr>row_status := (if failed then Failed else Discovered),
                last_fetched_at := (if failed then Some ?now else last_fetched_at r),
                claimed_at := None, fetch_attempts := fetch_attempts r + 1\<rparr>)"
    by (simp add: attempt_row_def fun_eq_iff Let_def)
  obtain x w' where w': "for_io batch (\<lambda>c. requeue_or_fail P (ca_id c) (b_max_attempts B) ?now) w
        = (Inr x, w')"
    and d: "\<forall>i. row_by_id (wdb w') i = (if i \<in> ca_id ` set batch
        then map_option (attempt_row (sint (b_max_attempts B)) ?now) (row_by_id (wdb w) i)
        else row_by_id (wdb w) i)"
      "follows (wdb w') = follows (wdb w)" "pubkey_relays (wdb w') = pubkey_relays (wdb w)"
    using requeue_batch_quiet [OF assms, of "b_max_attempts B" ?now] unfolding delivers_def by blast
  have "process_batch E P B batch (Inl e) w = (Inr 0, w')"
    using False w'
    by (simp add: process_batch_def acquire_validated_lists_def bind_io_def tally_def ret_def Let_def)
  with d show ?thesis unfolding row [symmetric] by auto
qed

theorem batch_requeues_witness:
  "\<exists>w'. process_batch demo_env demo_pg (demo_args\<lparr>b_max_attempts := 1\<rparr>) [demo_claim] (Inl (FetchTimeout []))
      demo_batch_world = (Inr 0, w')
    \<and> map_option row_status (row_by_id (wdb w') 1) = Some Failed"
  using batch_requeues [OF quiet_demo demo_batch_ok(3), of demo_batch_world demo_env
      "demo_args\<lparr>b_max_attempts := 1\<rparr>" "FetchTimeout []"] demo_batch_ok(5)
  by (auto simp: demo_claim_def new_row_def Let_def)

text \<open>
  C24. Whatever the relays answer, whatever round trips to the database fail or lose their
  acknowledgement, and whatever other connections that keep to the same rules do in between,
  a batch leaves the database well-formed and loses no row, however it ends.
\<close>

theorem batch_preserves:
  assumes "rely P" and "db_ok (wdb w)" and "process_batch E P B batch union_fetch w = (res, w')"
  shows "db_ok (wdb w') \<and> extends (wdb w) (wdb w')"
  using keepsD [OF keeps_process_batch [OF assms(1)] good_refl [OF assms(2)] assms(3)]
  by (simp add: good_def)

theorem batch_preserves_witness:
  "db_ok (wdb (snd (process_batch demo_env flaky_pg demo_args [demo_claim] (Inr [demo_new])
     demo_batch_world)))"
proof -
  have "rely flaky_pg" by (simp add: rely_def flaky_pg_def demo_pg_def extends_refl)
  from batch_preserves [OF this demo_batch_ok(1)] show ?thesis by (metis prod.collapse)
qed

text \<open>
  C22. The crawl only ever learns keys by following: besides its claimed keys, a batch adds to
  the database no key that is not in a p-tag of a verified event of the wanted kind, signed by
  one of the claimed authors, that a relay answered with, whatever else the relays sent and
  whatever failed on the way.
\<close>

theorem batch_discovers:
  assumes "alone P" and "keys_ok E" and "orders_ok E"
    and "process_batch E P B batch union_fetch w = (res, w')"
    and "k \<in> keys_of (wdb w')" and "k \<notin> keys_of (wdb w)" and "k \<notin> ca_pubkey ` set batch"
  shows "\<exists>ev c pk. k = sdk_to_bytes E pk \<and> pk \<in> set (sdk_public_keys E ev)
    \<and> sdk_verify E ev \<and> ev_kind ev = b_kind B \<and> c \<in> set batch
    \<and> sdk_from_slice E (ca_pubkey c) = Some (ev_pubkey ev)
    \<and> ((\<exists>raw. union_fetch = Inr raw \<and> ev \<in> set raw)
       \<or> (\<exists>a relays raw. b_fallback_fetch B a relays = Inr raw \<and> ev \<in> set raw))"
proof -
  let ?K = "keys_of (wdb w) \<union> discoverable E B batch (answered B union_fetch)"
  let ?I = "\<lambda>d. keys_guard E P B batch union_fetch ?K \<longrightarrow> keys_in ?K d"
  have "?I (wdb w')"
    by (rule keepsD [OF discovery.process_batch [OF assms(2,3)] _ assms(4)]) (simp add: keys_in_def)
  then have "keys_in ?K (wdb w')" using assms(1) by (simp add: keys_guard_def)
  then have "k \<in> discoverable E B batch (answered B union_fetch)"
    using assms(5,6) by (auto simp: keys_in_def)
  then show ?thesis
    using assms(7) by (auto simp: discoverable_def answered_def split: sum.splits)
qed

theorem batch_discovers_witness:
  "\<exists>res w'. process_batch demo_env demo_pg demo_args [demo_claim] (Inr [demo_old, demo_new])
      demo_batch_world = (res, w')
    \<and> sdk_to_bytes demo_env 8 \<in> keys_of (wdb w')
    \<and> (\<exists>ev pk. sdk_to_bytes demo_env 8 = sdk_to_bytes demo_env pk \<and> ev \<in> {demo_old, demo_new}
         \<and> pk \<in> set (sdk_public_keys demo_env ev) \<and> ev_pubkey ev = 7)"
proof -
  obtain res w' where p: "process_batch demo_env demo_pg demo_args [demo_claim]
      (Inr [demo_old, demo_new]) demo_batch_world = (res, w')" by (metis prod.collapse)
  let ?v = "follow_list_from_event demo_env demo_new [8, 9]"
  have "list_applied demo_env ?v 1 (new_row 1 (sdk_to_bytes demo_env 7)) (wdb demo_batch_world) (wdb w')"
    using demo_applied p by fastforce
  then have "id_of (wdb w') (sdk_to_bytes demo_env 8) \<noteq> None"
    by (auto simp: list_applied_def follow_list_from_event_def)
  then obtain r where "row_by_key (wdb w') (sdk_to_bytes demo_env 8) = Some r" by (auto simp: id_of_def)
  then have k: "sdk_to_bytes demo_env 8 \<in> keys_of (wdb w')"
    using row_by_key_Some unfolding keys_of_def by (metis imageI)
  have ne: "sdk_to_bytes demo_env 8 \<noteq> sdk_to_bytes demo_env 7"
    by (simp add: inj_to_bytes [OF demo_keys_ok])
  then have n: "sdk_to_bytes demo_env 8 \<notin> keys_of (wdb demo_batch_world)"
      "sdk_to_bytes demo_env 8 \<notin> ca_pubkey ` set [demo_claim]"
    by (simp_all add: keys_of_def demo_batch_world_def demo_claim_def)
  show ?thesis
    using batch_discovers [OF alone_quiet [OF quiet_demo] demo_keys_ok demo_orders_ok p k n] p k
      demo_claim_author by (fastforce simp: demo_args_def)
qed

text \<open>
  C11. A batch is a peer to every other one: whatever fails and whatever other connections do
  that keep the tables well-formed, each of its round trips only settles rows of its own, adds
  newly seen keys and replaces relay lists, so that the rows of any other batch, and their
  edges, stay as they were. This is what the others of \<open>batch_applies\<close> are asked for.
\<close>

theorem batch_is_peer:
  assumes "rely P" and "keys_ok E" and "orders_ok E" and "db_ok (wdb w)"
    and "\<forall>c \<in> set batch. claims_row (wdb w) c" and "process_batch E P B batch union_fetch w = (res, w')"
  shows "trips P (\<lambda>d d'. settled (ca_id ` set batch) d d'
      \<and> (\<forall>I. I \<inter> ca_id ` set batch = {} \<longrightarrow> bystander I d d' \<and> (I \<subseteq> ids d \<longrightarrow> peer I d d')))
    (wtick w) (wdb w) (wtick w') (wdb w')"
  using batch_trips [OF assms]
proof induction
  case (trip m e e')
  have "bystander I (pg_others P m e) e'" if "I \<inter> ca_id ` set batch = {}" for I
    using trip.hyps(2) that by (auto simp: bystander_def)
  then show ?case
    using trip.hyps(2) settled_peer by (intro trips.trip [OF trip.IH]) blast
qed (rule trips.start)

theorem batch_is_peer_witness:
  "\<exists>res w'. process_batch demo_env flaky_pg demo_args [demo_claim] (Inr [demo_new]) demo_batch_world
      = (res, w')
    \<and> trips flaky_pg (\<lambda>d d'. settled {1} d d' \<and> (\<forall>I. 1 \<notin> I \<longrightarrow> bystander I d d' \<and> (I \<subseteq> ids d \<longrightarrow> peer I d d')))
        0 (wdb demo_batch_world) (wtick w') (wdb w')"
proof -
  have r: "rely flaky_pg" by (simp add: rely_def flaky_pg_def demo_pg_def extends_refl)
  obtain res w' where p: "process_batch demo_env flaky_pg demo_args [demo_claim] (Inr [demo_new])
      demo_batch_world = (res, w')" by (metis prod.collapse)
  from batch_is_peer [OF r demo_keys_ok demo_orders_ok demo_batch_ok(1,2) p] p show ?thesis
    by (auto simp: demo_claim_def demo_batch_world_def)
qed

end
