(* ===== verification/Faults.thy ===== *)
theory Faults imports Batch begin

text \<open>
  A call that returned success met no failure: whatever the server might have done, the call
  went as on a server that never fails. So what the lemmas of \<open>Batch\<close> say of a server without
  failures holds of every successful batch.
\<close>

definition calm :: "pg \<Rightarrow> pg" where
  "calm P = P\<lparr>pg_fault := (\<lambda>_. Fine), pg_locked := (\<lambda>_ _. False)\<rparr>"

lemma calm_simps [simp]:
  "pg_now (calm P) = pg_now P" "pg_others (calm P) = pg_others P"
  "pg_id_order (calm P) = pg_id_order P" "pg_row_order (calm P) = pg_row_order P"
  "pg_url_order (calm P) = pg_url_order P" "pg_fault (calm P) n = Fine"
  by (simp_all add: calm_def)

lemma quiet_calm: "alone P \<Longrightarrow> quiet (calm P)"
  by (simp add: alone_def quiet_def calm_def pg_orders_ok_def)

lemma rely_alone: "alone P \<Longrightarrow> rely P"
  by (simp add: alone_def rely_def extends_refl)

text \<open>\<open>agrees c c'\<close>: where \<open>c\<close> succeeds, \<open>c'\<close> does the same.\<close>

definition agrees :: "'a io \<Rightarrow> 'a io \<Rightarrow> bool" where
  "agrees c c' \<longleftrightarrow> (\<forall>w x w'. c w = (Inr x, w') \<longrightarrow> c' w = (Inr x, w'))"

named_theorems agrees_intros

lemma agreesD: "agrees c c' \<Longrightarrow> c w = (Inr x, w') \<Longrightarrow> c' w = (Inr x, w')"
  by (simp add: agrees_def)

lemma agrees_refl [agrees_intros]: "agrees c c"
  by (simp add: agrees_def)

lemma agrees_bind [agrees_intros]:
  "agrees c c' \<Longrightarrow> (\<And>x. agrees (k x) (k' x)) \<Longrightarrow> agrees (bind_io c k) (bind_io c' k')"
  unfolding agrees_def bind_io_Inr by blast

lemma agrees_if [agrees_intros]:
  "agrees a a' \<Longrightarrow> agrees b b' \<Longrightarrow> agrees (if q then a else b) (if q then a' else b')"
  by simp

lemma agrees_for [agrees_intros]: "(\<And>x. agrees (f x) (f' x)) \<Longrightarrow> agrees (for_io xs f) (for_io xs f')"
  by (induction xs) (auto intro!: agrees_intros)

lemma agrees_map [agrees_intros]: "(\<And>x. agrees (f x) (f' x)) \<Longrightarrow> agrees (map_io f xs) (map_io f' xs)"
  by (induction xs) (auto intro!: agrees_intros)

lemma agrees_exec [agrees_intros]: "agrees (exec P s) (exec (calm P) s)"
  by (auto simp: agrees_def exec_def Let_def split: fault.splits sum.splits prod.splits)

lemma diff_tx_calm [simp]: "diff_tx (calm P) = diff_tx P"
  unfolding fun_eq_iff diff_tx_def calm_simps by simp

lemma agrees_upsert [agrees_intros]: "agrees (upsert_pubkey P k) (upsert_pubkey (calm P) k)"
  unfolding upsert_pubkey_def by (intro agrees_intros)

lemma agrees_set_fetch_status [agrees_intros]:
  "agrees (set_fetch_status P i st ts) (set_fetch_status (calm P) i st ts)"
  unfolding set_fetch_status_def by (intro agrees_intros)

lemma agrees_requeue [agrees_intros]:
  "agrees (requeue_or_fail P i mx ts) (requeue_or_fail (calm P) i mx ts)"
  unfolding requeue_or_fail_def by (intro agrees_intros)

lemma agrees_apply_follow_list [agrees_intros]:
  "agrees (apply_follow_list P i ev ts fs) (apply_follow_list (calm P) i ev ts fs)"
  unfolding apply_follow_list_def Let_def calm_simps diff_tx_calm by (intro agrees_intros)

lemma agrees_lookup [agrees_intros]: "agrees (lookup_write_relays P i) (lookup_write_relays (calm P) i)"
  unfolding lookup_write_relays_def calm_simps by (intro agrees_intros)

lemma agrees_apply_relay_list [agrees_intros]:
  "agrees (apply_relay_list P i rs ts) (apply_relay_list (calm P) i rs ts)"
  unfolding apply_relay_list_def by (intro agrees_intros)

lemma agrees_apply_validated [agrees_intros]:
  "agrees (apply_validated E P v) (apply_validated E (calm P) v)"
  unfolding apply_validated_def by (intro agrees_intros)

lemma agrees_option [agrees_intros]:
  "agrees a a' \<Longrightarrow> (\<And>x. agrees (f x) (f' x))
    \<Longrightarrow> agrees (case y of None \<Rightarrow> a | Some x \<Rightarrow> f x) (case y of None \<Rightarrow> a' | Some x \<Rightarrow> f' x)"
  by (cases y) simp_all

lemma agrees_sum [agrees_intros]:
  "(\<And>x. agrees (f x) (f' x)) \<Longrightarrow> (\<And>x. agrees (g x) (g' x))
    \<Longrightarrow> agrees (case y of Inl x \<Rightarrow> f x | Inr x \<Rightarrow> g x) (case y of Inl x \<Rightarrow> f' x | Inr x \<Rightarrow> g' x)"
  by (cases y) simp_all

lemma agrees_resolve_write_relays [agrees_intros]:
  "agrees (resolve_write_relays E P B c a) (resolve_write_relays E (calm P) B c a)"
  unfolding resolve_write_relays_def by (intro agrees_intros)

lemma agrees_fallback_recover [agrees_intros]:
  "agrees (fallback_recover E P B c a) (fallback_recover E (calm P) B c a)"
  unfolding fallback_recover_def Let_def by (intro agrees_intros)

lemma agrees_settle_author [agrees_intros]:
  "agrees (settle_author E P B f ts c) (settle_author E (calm P) B f ts c)"
  unfolding settle_author_def by (intro agrees_intros)

lemma agrees_settle_batch [agrees_intros]:
  "agrees (settle_batch E P B f ts cs n) (settle_batch E (calm P) B f ts cs n)"
  by (induction cs arbitrary: n) (auto intro!: agrees_intros)

lemma agrees_process_batch [agrees_intros]:
  "agrees (process_batch E P B batch u) (process_batch E (calm P) B batch u)"
  unfolding process_batch_def Let_def by (intro agrees_intros)

section \<open>Leases\<close>

definition leased :: "db \<Rightarrow> int set" where
  "leased d = {i. \<exists>r. row_by_id d i = Some r \<and> row_status r = In_Progress}"

text \<open>
  \<open>resolved I d d'\<close>: no row of \<open>I\<close> is leased any more, the other rows are as they were, and a row
  that was not there is waiting to be claimed.
\<close>

definition resolved :: "int set \<Rightarrow> db \<Rightarrow> db \<Rightarrow> bool" where
  "resolved I d d' \<longleftrightarrow>
     (\<forall>i \<in> I. \<forall>r. row_by_id d' i = Some r \<longrightarrow> row_status r \<noteq> In_Progress) \<and>
     (\<forall>j r. j \<notin> I \<longrightarrow> row_by_id d j = Some r \<longrightarrow> row_by_id d' j = Some r) \<and>
     (\<forall>j r. j \<notin> I \<longrightarrow> row_by_id d j = None \<longrightarrow> row_by_id d' j = Some r \<longrightarrow> row_status r = Discovered)"

lemma leased_resolved:
  assumes "resolved I d d'"
  shows "leased d' = leased d - I"
proof (rule set_eqI)
  fix i
  show "i \<in> leased d' \<longleftrightarrow> i \<in> leased d - I"
    using assms by (cases "row_by_id d i") (auto simp: leased_def resolved_def)
qed

lemma resolved_settled:
  assumes "settled I d d'" and "\<And>i r. i \<in> I \<Longrightarrow> row_by_id d' i = Some r \<Longrightarrow> row_status r \<noteq> In_Progress"
  shows "resolved I d d'"
  unfolding resolved_def
proof (intro conjI ballI allI impI)
  fix j r assume "j \<notin> I"
  then show "row_by_id d j = Some r \<Longrightarrow> row_by_id d' j = Some r"
    using settledD(4) [OF assms(1)] row_by_id_ids by metis
  show "row_by_id d j = None \<Longrightarrow> row_by_id d' j = Some r \<Longrightarrow> row_status r = Discovered"
    using settledD(5) [OF assms(1), of j] row_by_id_ids [of d' j r] row_by_id_None [of d j] by auto
qed (rule assms(2))

lemma requeue_bound:
  assumes "quiet P" and "distinct (map ca_id cs)" and "\<forall>c \<in> set cs. claims_row (wdb w) c"
    and "for_io cs (\<lambda>c. requeue_or_fail P (ca_id c) mx now) w = (Inr x, w')"
  shows "\<forall>c \<in> set cs. \<exists>r. row_by_id (wdb w) (ca_id c) = Some r \<and> fetch_attempts r < 32767"
  using assms(2-4)
proof (induction cs arbitrary: w)
  case (Cons c cs)
  obtain r where r: "row_by_id (wdb w) (ca_id c) = Some r"
    using Cons.prems(2) by (auto simp: claims_row_def)
  obtain w1 where w1: "requeue_or_fail P (ca_id c) mx now w = (Inr (), w1)"
    and rest: "for_io cs (\<lambda>c. requeue_or_fail P (ca_id c) mx now) w1 = (Inr x, w')"
    using Cons.prems(3) by (auto simp: bind_io_Inr)
  have a: "fetch_attempts r < 32767"
    using w1 r by (auto simp: requeue_or_fail_def exec_quiet [OF assms(1)] attempt_stmt_def split: if_splits)
  then have w1': "wdb w1 = update_rows (\<lambda>r. row_id r = ca_id c) (attempt_row (sint mx) now) (wdb w)"
    using requeue_quiet [OF assms(1) r a, of mx now] w1 by simp
  have same: "row_by_id (wdb w1) (ca_id c') = row_by_id (wdb w) (ca_id c')" if "c' \<in> set cs" for c'
  proof -
    have "ca_id c \<notin> ca_id ` set cs" using Cons.prems(1) by simp
    then have "ca_id c' \<noteq> ca_id c" using that by (metis imageI)
    then show ?thesis by (simp add: w1' row_by_id_update_id)
  qed
  have "\<forall>c' \<in> set cs. claims_row (wdb w1) c'" using Cons.prems(2) same by (simp add: claims_row_def)
  then show ?case using Cons.IH [OF _ _ rest] Cons.prems(1) same r a by simp
qed simp

text \<open>A batch that succeeds resolves its leases and takes no other.\<close>

lemma batch_resolves:
  assumes A: "alone P" and K: "keys_ok E" and O: "orders_ok E" and ok: "db_ok (wdb w)"
    and cl: "\<forall>c \<in> set batch. claims_row (wdb w) c" "distinct (map ca_id batch)"
    and run: "process_batch E P B batch u w = (Inr n, w')"
  shows "resolved (ca_id ` set batch) (wdb w) (wdb w')"
proof -
  have q: "quiet (calm P)" by (rule quiet_calm [OF A])
  have run': "process_batch E (calm P) B batch u w = (Inr n, w')"
    by (rule agreesD [OF agrees_process_batch run])
  show ?thesis
  proof (cases u)
    case (Inr raw)
    then obtain f where s: "all_settled E B f (timestamp_to_datetime E (b_now B)) batch (wdb w) (wdb w')"
      using process_batch_lists [OF q K O ok cl refl, of B raw] run' by (auto simp: delivers_def)
    show ?thesis
    proof (rule resolved_settled)
      show "settled (ca_id ` set batch) (wdb w) (wdb w')" using s by (simp add: all_settled_def outcomes_def)
      fix i r' assume i: "i \<in> ca_id ` set batch" "row_by_id (wdb w') i = Some r'"
      then obtain c where c: "c \<in> set batch" "ca_id c = i" by blast
      then obtain r where "author_outcome E B f (timestamp_to_datetime E (b_now B)) c r (wdb w) (wdb w')"
        using s by (auto simp: all_settled_def outcomes_def)
      then show "row_status r' \<noteq> In_Progress"
        using i(2) c(2) by (auto simp: author_outcome_def recovered_def list_applied_def missed_def
            split: option.splits)
    qed
  next
    case (Inl e)
    show ?thesis
    proof (cases "batch = []")
      case True
      then show ?thesis using run' by (auto simp: process_batch_def ret_def resolved_def)
    next
      case False
      let ?now = "timestamp_to_datetime E (b_now B)"
      have f: "for_io batch (\<lambda>c. requeue_or_fail (calm P) (ca_id c) (b_max_attempts B) ?now) w
          = (Inr (), w')"
        using run' False Inl
        by (auto simp: process_batch_def acquire_validated_lists_def Let_def bind_io_Inr tally_def ret_def)
      have "\<forall>i. row_by_id (wdb w') i = (if i \<in> ca_id ` set batch
          then map_option (attempt_row (sint (b_max_attempts B)) ?now) (row_by_id (wdb w) i)
          else row_by_id (wdb w) i)"
        using requeue_batch_quiet [OF q cl(2) requeue_bound [OF q cl(2,1) f], of "b_max_attempts B" ?now] f
        by (auto simp: delivers_def)
      then show ?thesis by (auto simp: resolved_def attempt_row_def split: if_splits)
    qed
  qed
qed

lemma shared_calm: "spares I P \<Longrightarrow> pg_orders_ok P \<Longrightarrow> shared I (calm P)"
  by (simp add: shared_def spares_def pg_orders_ok_def)

lemma batch_success:
  assumes "spares (ca_id ` set batch) P" and "pg_orders_ok P" and "keys_ok E" and "orders_ok E"
    and "db_ok (wdb w)" and "\<forall>c \<in> set batch. claims_row (wdb w) c" and "distinct (map ca_id batch)"
    and run: "process_batch E P B batch (Inr raw) w = (Inr n, w')"
    and vs: "vs = fst (ingest_events E raw (b_kind B) (authors_of E batch) (b_now B) (b_clamp B)
      (b_follow_cap B) (wmet w))"
  shows "outcomes E B (index_by_author vs) (timestamp_to_datetime E (b_now B)) batch (wdb w) (wdb w')"
  using process_batch_shared [OF shared_calm [OF assms(1,2)] assms(3-7) vs]
    agreesD [OF agrees_process_batch run] by (auto simp: delivers_def)

section \<open>A failed batch under interference\<close>

definition charged :: "batch_args \<Rightarrow> datetime \<Rightarrow> claimed_author list \<Rightarrow> db \<Rightarrow> db \<Rightarrow> bool" where
  "charged B stamp cs d d' \<longleftrightarrow> (\<forall>c \<in> set cs. \<exists>r. row_by_id d (ca_id c) = Some r
     \<and> row_by_id d' (ca_id c) = Some (attempt_row (sint (b_max_attempts B)) stamp r)
     \<and> (\<forall>b. (ca_id c, b) \<in> set (follows d') \<longleftrightarrow> (ca_id c, b) \<in> set (follows d)))"

lemma requeue_spared:
  assumes sp: "spares I P" and ok: "db_ok (wdb w)" and I: "I \<subseteq> ids (wdb w)" and i: "i \<in> I"
    and r: "row_by_id (wdb w) i = Some r" and run: "requeue_or_fail P i mx stamp w = (Inr x, w')"
  shows "peer (I - {i}) (wdb w) (wdb w')" "row_by_id (wdb w') i = Some (attempt_row (sint mx) stamp r)"
    "(i, b) \<in> set (follows (wdb w')) \<longleftrightarrow> (i, b) \<in> set (follows (wdb w))"
proof -
  let ?e = "pg_others P (wtick w) (wdb w)" and ?f = "attempt_row (sint mx) stamp"
  have p: "peer I (wdb w) ?e" using sp ok I by (simp add: spares_def)
  have re: "row_by_id ?e i = Some r" using peerD(4) [OF p i] r by simp
  have oe: "db_ok ?e" by (rule peerD(1) [OF p])
  have a: "fetch_attempts r < 32767" and d: "wdb w' = update_rows (\<lambda>r. row_id r = i) ?f ?e"
    using exec_Inr [OF run [unfolded requeue_or_fail_def]] re by (auto simp: attempt_stmt_def split: if_splits)
  have "settled {i} ?e (wdb w')"
    unfolding d by (rule settled_update [OF oe]) (use a re in \<open>auto intro: row_ok_attempt\<close>)
  moreover have "I \<subseteq> ids ?e" using peerD(3) [OF p] I by blast
  ultimately have "peer (I - {i}) ?e (wdb w')" by (intro settled_peer) auto
  then show "peer (I - {i}) (wdb w) (wdb w')" using peer_trans peer_mono [OF p] by blast
  show "row_by_id (wdb w') i = Some (?f r)" unfolding d using re by (simp add: row_by_id_update_id)
  show "(i, b) \<in> set (follows (wdb w')) \<longleftrightarrow> (i, b) \<in> set (follows (wdb w))"
    using peerD(5) [OF p i] by (simp add: d)
qed

lemma requeue_all_spared:
  assumes sp: "spares I P" and run: "for_io cs (\<lambda>c. requeue_or_fail P (ca_id c) (b_max_attempts B) stamp) w = (Inr x, w')"
    and "db_ok (wdb w)" and "I \<subseteq> ids (wdb w)" and "ca_id ` set cs \<subseteq> I" and "distinct (map ca_id cs)"
  shows "peer (I - ca_id ` set cs) (wdb w) (wdb w') \<and> charged B stamp cs (wdb w) (wdb w')"
  using run assms(3-6)
proof (induction cs arbitrary: w)
  case Nil
  then show ?case by (simp add: ret_def peer_refl charged_def)
next
  case (Cons c cs)
  let ?i = "ca_id c"
  have i: "?i \<in> I" "?i \<notin> ca_id ` set cs" using Cons.prems(4,5) by auto
  then obtain r where r: "row_by_id (wdb w) ?i = Some r" using Cons.prems(3) row_by_id_None by fastforce
  obtain y w1 where one: "requeue_or_fail P ?i (b_max_attempts B) stamp w = (Inr y, w1)"
    and rest: "for_io cs (\<lambda>c. requeue_or_fail P (ca_id c) (b_max_attempts B) stamp) w1 = (Inr x, w')"
    using Cons.prems(1) by (auto simp: bind_io_Inr)
  note o = requeue_spared [OF sp Cons.prems(2,3) i(1) r one]
  have I1: "I \<subseteq> ids (wdb w1)" using peerD(3) [OF o(1)] Cons.prems(3) by blast
  have IH: "peer (I - ca_id ` set cs) (wdb w1) (wdb w')" "charged B stamp cs (wdb w1) (wdb w')"
    using Cons.IH [OF rest peerD(1) [OF o(1)] I1] Cons.prems(4,5) by simp_all
  have "peer (I - ca_id ` set (c # cs)) (wdb w) (wdb w')"
    by (rule peer_trans [OF peer_mono [OF o(1)] peer_mono [OF IH(1)]]) auto
  moreover have "charged B stamp (c # cs) (wdb w) (wdb w')"
    unfolding charged_def
  proof
    fix x assume x: "x \<in> set (c # cs)"
    show "\<exists>r. row_by_id (wdb w) (ca_id x) = Some r
      \<and> row_by_id (wdb w') (ca_id x) = Some (attempt_row (sint (b_max_attempts B)) stamp r)
      \<and> (\<forall>b. (ca_id x, b) \<in> set (follows (wdb w')) \<longleftrightarrow> (ca_id x, b) \<in> set (follows (wdb w)))"
    proof (cases "ca_id x = ?i")
      case True
      have "row_by_id (wdb w') ?i = row_by_id (wdb w1) ?i"
        "\<forall>b. (?i, b) \<in> set (follows (wdb w')) \<longleftrightarrow> (?i, b) \<in> set (follows (wdb w1))"
        using peerD(4,5) [OF IH(1), of ?i] i by simp_all
      then show ?thesis using r o(2,3) True by simp
    next
      case False
      then have x': "x \<in> set cs" "ca_id x \<in> I - {?i}" using x Cons.prems(4) by auto
      then show ?thesis
        using IH(2) [unfolded charged_def, rule_format, OF x'(1)] peerD(4,5) [OF o(1) x'(2)] by auto
    qed
  qed
  ultimately show ?case ..
qed

lemma batch_charges:
  assumes "spares (ca_id ` set batch) P" and "db_ok (wdb w)" and "\<forall>c \<in> set batch. claims_row (wdb w) c"
    and "distinct (map ca_id batch)" and "process_batch E P B batch (Inl e) w = (Inr n, w')"
  shows "charged B (timestamp_to_datetime E (b_now B)) batch (wdb w) (wdb w')"
proof (cases "batch = []")
  case False
  have I: "ca_id ` set batch \<subseteq> ids (wdb w)" using assms(3) by (auto simp: claims_row_def dest: row_by_id_ids)
  have run: "for_io batch (\<lambda>c. requeue_or_fail P (ca_id c) (b_max_attempts B) (timestamp_to_datetime E (b_now B))) w
      = (Inr (), w')"
    using assms(5) False
    by (auto simp: process_batch_def Let_def acquire_validated_lists_def bind_io_Inr tally_def ret_def split: prod.splits)
  from requeue_all_spared [OF assms(1) run _ _ subset_refl assms(4)] assms(2) I show ?thesis by simp
qed (simp add: charged_def)

text \<open>
  C4. Whatever the server does to a batch, and while other batches, the driver and the timers
  work on the same tables, a batch that reports success has given each author the outcome of
  its own list: if the gate emitted a list of the author from the union of all relays' events,
  the row is fetched with that event and the edges are exactly its followees (a list that was
  applied already leaves them); if not, the row is not found with nothing else changed, or,
  with the fallback on, it got a list that passed the same gate from at most the configured
  number of write relays. Nothing is asked of the others but that they leave the claimed rows
  and their edges alone.
\<close>

theorem batch_applies:
  assumes "spares (ca_id ` set batch) P" and "pg_orders_ok P" and "keys_ok E" and "orders_ok E" and "db_ok (wdb w)"
    and "\<forall>c \<in> set batch. claims_row (wdb w) c" and "distinct (map ca_id batch)"
    and "process_batch E P B batch (Inr raw) w = (Inr n, w')"
    and "c \<in> set batch" and "row_by_id (wdb w) (ca_id c) = Some r"
    and "vs = fst (ingest_events E raw (b_kind B) (authors_of E batch) (b_now B) (b_clamp B)
      (b_follow_cap B) (wmet w))"
  shows "(\<forall>v \<in> set vs. sdk_from_slice E (ca_pubkey c) = Some (vfl_follower v)
       \<longrightarrow> list_applied E v (ca_id c) r (wdb w) (wdb w'))
    \<and> ((\<forall>v \<in> set vs. sdk_from_slice E (ca_pubkey c) \<noteq> Some (vfl_follower v))
       \<longrightarrow> missed (timestamp_to_datetime E (b_now B)) (ca_id c) r (wdb w) (wdb w')
         \<or> recovered E B c r (wdb w) (wdb w'))"
proof -
  have "outcomes E B (index_by_author vs) (timestamp_to_datetime E (b_now B)) batch (wdb w) (wdb w')"
    by (rule batch_success [OF assms(1-8,11)])
  then have o: "author_outcome E B (index_by_author vs) (timestamp_to_datetime E (b_now B)) c r
      (wdb w) (wdb w')" using assms(9,10) by (auto simp: outcomes_def)
  have d: "distinct (map vfl_follower vs)" unfolding assms(11) by (rule distinct_followers [OF assms(4)])
  have hit: "Option.bind (sdk_from_slice E (ca_pubkey c)) (index_by_author vs) = Some v"
    if "v \<in> set vs" "sdk_from_slice E (ca_pubkey c) = Some (vfl_follower v)" for v
    using that index_by_author_Some [OF d] by simp
  have miss: "Option.bind (sdk_from_slice E (ca_pubkey c)) (index_by_author vs) = None"
    if "\<forall>v \<in> set vs. sdk_from_slice E (ca_pubkey c) \<noteq> Some (vfl_follower v)"
  proof (rule ccontr)
    assume "\<not> ?thesis"
    then obtain a v where "sdk_from_slice E (ca_pubkey c) = Some a" "index_by_author vs a = Some v"
      by (auto simp: bind_eq_Some_conv)
    then show False using that index_by_author_mem by blast
  qed
  show ?thesis using o hit miss unfolding author_outcome_def by auto
qed

theorem batch_applies_witness:
  "\<exists>n w'. process_batch demo_env busy_pg demo_args [demo_claim] (Inr [demo_old, demo_new])
      demo_batch_world = (Inr n, w')
    \<and> list_applied demo_env (follow_list_from_event demo_env demo_new [8, 9]) 1
        (new_row 1 (sdk_to_bytes demo_env 7)) (wdb demo_batch_world) (wdb w')"
proof -
  have s: "spares I busy_pg" "pg_orders_ok busy_pg" for I
    using shared_busy by (simp_all add: shared_def)
  obtain n w' where p: "process_batch demo_env busy_pg demo_args [demo_claim]
      (Inr [demo_old, demo_new]) demo_batch_world = (Inr n, w')"
    using demo_busy_returns by blast
  have a: "authors_of demo_env [demo_claim] = {7}"
    using demo_claim_author by (auto simp: in_authors_of)
  have r: "row_by_id (wdb demo_batch_world) (ca_id demo_claim) = Some (new_row 1 (sdk_to_bytes demo_env 7))"
    using demo_batch_ok(5) by (simp add: demo_claim_def)
  have f: "vfl_follower (follow_list_from_event demo_env demo_new [8, 9]) = 7"
    by (simp add: follow_list_from_event_def demo_event_def)
  have "list_applied demo_env (follow_list_from_event demo_env demo_new [8, 9]) (ca_id demo_claim)
        (new_row 1 (sdk_to_bytes demo_env 7)) (wdb demo_batch_world) (wdb w')"
    using batch_applies [OF s demo_keys_ok demo_orders_ok demo_batch_ok(1-3) p _ r refl]
      demo_list f demo_claim_author by (simp add: a demo_batch_ok(4) demo_args_def)
  with p show ?thesis by (auto simp: demo_claim_def)
qed

end
