(* ===== verification/Pool.thy ===== *)
theory Pool imports Faults begin

text \<open>
  \<open>src/crawl/mod.rs\<close>, \<open>src/daemon/loop_.rs\<close>: the worker pool that \<open>run_crawl\<close> and
  \<open>run_daemon_loop\<close> share, as a state machine. \<open>pool_step\<close> has the driver's moves from a claim
  to the reaping of the finished workers, and the workers' own, which happen between any two
  of the driver's. A worker's batch is one step: the relays' answers, the clock and a
  worker's panic are free choices of it. (\<open>Workers\<close> takes the batch apart into its round trips.)
\<close>

section \<open>State\<close>

definition DEFAULT_BATCH_SIZE :: int where "DEFAULT_BATCH_SIZE = 64"
definition DEFAULT_CONCURRENCY :: nat where "DEFAULT_CONCURRENCY = 8"
definition DEFAULT_MAX_ATTEMPTS :: "16 word" where "DEFAULT_MAX_ATTEMPTS = 3"

record crawl_stats =
  reclaimed_on_startup :: nat
  authors_claimed :: nat
  batches_processed :: nat

datatype join_result = Finished "store_error + unit" | Panicked ustring

definition join_worker :: "join_result \<Rightarrow> store_error + unit" where
  "join_worker r =
     (case r of
        Finished inner \<Rightarrow> inner
      | Panicked join_err \<Rightarrow> Inl (Sqlx (Sqlx_Protocol (lit ''crawl worker task failed: '' @ join_err))))"

datatype task = Running "claimed_author list" | Ended "claimed_author list" join_result

datatype pc =
    Top
  | Claiming
  | Claimed "claimed_author list"
  | Spawned
  | Joining "nat list"
  | Draining "nat list" "store_error option" bool
  | Idle
  | Exiting "store_error + crawl_stats"
  | Returned "store_error + crawl_stats"

text \<open>Tasks are numbered in the order they were spawned; \<open>cs_handles\<close> is the vector \<open>workers\<close>.\<close>

record crawl_state =
  cs_world :: world
  cs_permits :: nat
  cs_tasks :: "task list"
  cs_handles :: "nat list"
  cs_stats :: crawl_stats
  cs_pc :: pc

record crawl_conf =
  cf_anchor :: "byte list"
  cf_batch_size :: int
  cf_concurrency :: nat
  cf_args :: "batch_args set"

section \<open>Steps\<close>

definition startup :: "pg \<Rightarrow> byte list \<Rightarrow> nat io" where
  "startup P anchor = bind_io (seed_anchor P anchor) (\<lambda>_. reclaim_stale_on_startup P)"

fun is_running :: "task \<Rightarrow> bool" where
  "is_running (Running b) = True"
| "is_running (Ended b r) = False"

definition running :: "'x crawl_state_scheme \<Rightarrow> nat" where
  "running s = length (filter is_running (cs_tasks s))"

text \<open>
  The rows a claim finds locked are those a running worker's transaction holds: none when no
  worker is running.
\<close>

definition claim ::
  "pg \<Rightarrow> crawl_conf \<Rightarrow> 'x crawl_state_scheme \<Rightarrow> store_error + claimed_author list \<Rightarrow> world \<Rightarrow> bool" where
  "claim P C s r w' \<longleftrightarrow> (\<exists>L. (running s = 0 \<longrightarrow> L = (\<lambda>_ _. False)) \<and>
     claim_batch (P\<lparr>pg_locked := L\<rparr>) (cf_batch_size C) (cs_world s) = (r, w'))"

definition counted :: "claimed_author list \<Rightarrow> crawl_stats \<Rightarrow> crawl_stats" where
  "counted batch st = st\<lparr>authors_claimed := authors_claimed st + length batch,
     batches_processed := batches_processed st + 1\<rparr>"

inductive pool_step ::
  "env \<Rightarrow> pg \<Rightarrow> crawl_conf \<Rightarrow> 'x crawl_state_scheme \<Rightarrow> 'x crawl_state_scheme \<Rightarrow> bool"
  for E P C where
  claim_fails: "\<lbrakk>cs_pc s = Claiming; claim P C s (Inl e) w'\<rbrakk> \<Longrightarrow>
    pool_step E P C s (s\<lparr>cs_world := w', cs_pc := Exiting (Inl e)\<rparr>)"
| claims: "\<lbrakk>cs_pc s = Claiming; claim P C s (Inr batch) w'; batch \<noteq> []\<rbrakk> \<Longrightarrow>
    pool_step E P C s (s\<lparr>cs_world := w', cs_stats := counted batch (cs_stats s), cs_pc := Claimed batch\<rparr>)"
| spawns: "\<lbrakk>cs_pc s = Claimed batch; 0 < cs_permits s\<rbrakk> \<Longrightarrow>
    pool_step E P C s (s\<lparr>cs_permits := cs_permits s - 1, cs_tasks := cs_tasks s @ [Running batch],
      cs_handles := cs_handles s @ [length (cs_tasks s)], cs_pc := Spawned\<rparr>)"
| reaps: "\<lbrakk>cs_pc s = Spawned; \<forall>h \<in> set (cs_handles s). fin h \<longrightarrow> \<not> is_running (cs_tasks s ! h)\<rbrakk> \<Longrightarrow>
    pool_step E P C s (s\<lparr>cs_handles := filter (\<lambda>h. \<not> fin h) (cs_handles s),
      cs_pc := Joining (filter fin (cs_handles s))\<rparr>)"
| joins: "\<lbrakk>cs_pc s = Joining (h # hs); cs_tasks s ! h = Ended batch r; join_worker r = Inr ()\<rbrakk> \<Longrightarrow>
    pool_step E P C s (s\<lparr>cs_pc := Joining hs\<rparr>)"
| join_fails: "\<lbrakk>cs_pc s = Joining (h # hs); cs_tasks s ! h = Ended batch r; join_worker r = Inl e\<rbrakk> \<Longrightarrow>
    pool_step E P C s (s\<lparr>cs_pc := Exiting (Inl e)\<rparr>)"
| joined: "cs_pc s = Joining [] \<Longrightarrow> pool_step E P C s (s\<lparr>cs_pc := Top\<rparr>)"
| ends: "\<lbrakk>i < length (cs_tasks s); cs_tasks s ! i = Running batch; B \<in> cf_args C;
      process_batch E P B batch u (cs_world s) = (res, w')\<rbrakk> \<Longrightarrow>
    pool_step E P C s (s\<lparr>cs_world := w', cs_permits := cs_permits s + 1,
      cs_tasks := (cs_tasks s)[i := Ended batch
        (Finished (case res of Inl e \<Rightarrow> Inl e | Inr _ \<Rightarrow> Inr ()))]\<rparr>)"
| panics: "\<lbrakk>i < length (cs_tasks s); cs_tasks s ! i = Running batch; B \<in> cf_args C; alone P';
      process_batch E P' B batch u (cs_world s) = (res, w')\<rbrakk> \<Longrightarrow>
    pool_step E P C s (s\<lparr>cs_world := w', cs_permits := cs_permits s + 1,
      cs_tasks := (cs_tasks s)[i := Ended batch (Panicked join_err)]\<rparr>)"

section \<open>The invariant\<close>

fun in_flight :: "task \<Rightarrow> claimed_author list" where
  "in_flight (Running b) = b"
| "in_flight (Ended b r) = []"

fun batch_of :: "task \<Rightarrow> claimed_author list" where
  "batch_of (Running b) = b"
| "batch_of (Ended b r) = b"

fun failed :: "task \<Rightarrow> bool" where
  "failed (Running b) = False"
| "failed (Ended b r) = (join_worker r \<noteq> Inr ())"

fun pending :: "pc \<Rightarrow> claimed_author list list" where
  "pending (Claimed b) = [b]"
| "pending _ = []"

fun joining :: "pc \<Rightarrow> nat list" where
  "joining (Joining hs) = hs"
| "joining (Draining hs e b) = hs"
| "joining _ = []"

fun erring :: "pc \<Rightarrow> bool" where
  "erring (Draining hs (Some e) b) = True"
| "erring (Exiting (Inl e)) = True"
| "erring (Returned (Inl e)) = True"
| "erring _ = False"

text \<open>The batches of the run: those that were spawned, and the one waiting for its permit.\<close>

definition spawned :: "'x crawl_state_scheme \<Rightarrow> claimed_author list list" where
  "spawned s = map batch_of (cs_tasks s) @ pending (cs_pc s)"

definition live :: "'x crawl_state_scheme \<Rightarrow> claimed_author list list" where
  "live s = map in_flight (cs_tasks s) @ pending (cs_pc s)"

definition live_ids :: "'x crawl_state_scheme \<Rightarrow> int list" where
  "live_ids s = map ca_id (concat (live s))"

definition healthy :: "'x crawl_state_scheme \<Rightarrow> bool" where
  "healthy s \<longleftrightarrow> \<not> erring (cs_pc s) \<and> (\<forall>t \<in> set (cs_tasks s). \<not> failed t)"

definition batch_ok :: "int \<Rightarrow> db \<Rightarrow> claimed_author list \<Rightarrow> bool" where
  "batch_ok n d b \<longleftrightarrow> int (length b) \<le> max 0 n \<and> distinct (map ca_id b) \<and> (\<forall>c \<in> set b. claims_row d c)"

definition counts_ok :: "'x crawl_state_scheme \<Rightarrow> bool" where
  "counts_ok s \<longleftrightarrow> authors_claimed (cs_stats s) = length (concat (spawned s))
     \<and> batches_processed (cs_stats s) = length (spawned s)"

text \<open>Every spawned worker has a handle that is still to be joined, or ended well.\<close>

definition handles_ok :: "'x crawl_state_scheme \<Rightarrow> bool" where
  "handles_ok s \<longleftrightarrow> (let open = set (cs_handles s) \<union> set (joining (cs_pc s)) in
     (\<forall>h \<in> open. h < length (cs_tasks s)) \<and>
     (erring (cs_pc s) \<or> (\<forall>h < length (cs_tasks s). h \<in> open
        \<or> \<not> is_running (cs_tasks s ! h) \<and> \<not> failed (cs_tasks s ! h))))"

definition batches_ok :: "crawl_conf \<Rightarrow> 'x crawl_state_scheme \<Rightarrow> bool" where
  "batches_ok C s \<longleftrightarrow> (\<forall>b \<in> set (live s). batch_ok (cf_batch_size C) (wdb (cs_world s)) b)"

definition pool_ok :: "crawl_conf \<Rightarrow> 'x crawl_state_scheme \<Rightarrow> bool" where
  "pool_ok C s \<longleftrightarrow> cs_permits s + running s = cf_concurrency C \<and> db_ok (wdb (cs_world s))
     \<and> handles_ok s \<and> counts_ok s
     \<and> batches_ok C s
     \<and> (healthy s \<longrightarrow> leased (wdb (cs_world s)) \<subseteq> set (live_ids s))"

text \<open>What holds while nothing but the pool writes to the status column.\<close>

definition exclusive :: "'x crawl_state_scheme \<Rightarrow> bool" where
  "exclusive s \<longleftrightarrow> (healthy s \<longrightarrow> distinct (live_ids s) \<and> set (live_ids s) \<subseteq> leased (wdb (cs_world s)))"

section \<open>Every step keeps it\<close>

lemma batch_ok_good: "good d d' \<Longrightarrow> batch_ok n d b \<Longrightarrow> batch_ok n d' b"
  by (auto simp: batch_ok_def intro: claims_row_good)

lemma alone_locked: "alone P \<Longrightarrow> alone (P\<lparr>pg_locked := L\<rparr>)"
  by (simp add: alone_def pg_orders_ok_def)

lemma claim_good:
  assumes "alone P" and "db_ok (wdb (cs_world s))" and "claim P C s r w'"
  shows "good (wdb (cs_world s)) (wdb w')"
proof -
  obtain L where "claim_batch (P\<lparr>pg_locked := L\<rparr>) (cf_batch_size C) (cs_world s) = (r, w')"
    using assms(3) by (auto simp: claim_def)
  then show ?thesis
    by (rule keepsD [OF keeps_claim_batch [OF rely_alone [OF alone_locked [OF assms(1)]]]
          good_refl [OF assms(2)]])
qed

text \<open>What a claim takes: discovered rows, which it leases; the others stay as they are.\<close>

lemma claim_Inr:
  assumes A: "alone P" and ok: "db_ok (wdb (cs_world s))" and c: "claim P C s (Inr cs) w'"
  shows "batch_ok (cf_batch_size C) (wdb w') cs"
    and "leased (wdb w') = leased (wdb (cs_world s)) \<union> ca_id ` set cs"
    and "ca_id ` set cs \<inter> leased (wdb (cs_world s)) = {}"
    and "j \<notin> ca_id ` set cs \<Longrightarrow> row_by_id (wdb w') j = row_by_id (wdb (cs_world s)) j"
    and "i \<in> ca_id ` set cs \<Longrightarrow> \<exists>r. row_by_id (wdb (cs_world s)) i = Some r \<and> row_status r = Discovered"
    and "running s = 0 \<Longrightarrow> cs = [] \<Longrightarrow> 0 < cf_batch_size C \<Longrightarrow> r \<in> set (pubkeys (wdb w'))
      \<Longrightarrow> row_status r \<noteq> Discovered"
proof -
  let ?d = "wdb (cs_world s)"
  obtain L where L: "running s = 0 \<longrightarrow> L = (\<lambda>_ _. False)"
    and run: "claim_batch (P\<lparr>pg_locked := L\<rparr>) (cf_batch_size C) (cs_world s) = (Inr cs, w')"
    using c by (auto simp: claim_def)
  let ?P = "P\<lparr>pg_locked := L\<rparr>"
  have A': "alone ?P" by (rule alone_locked [OF A])
  have d: "pg_others ?P n ?d = ?d" for n using A' by (simp add: alone_def)
  have o: "pg_orders_ok ?P" using A' by (simp add: alone_def)
  note S = claim_spec [OF rely_alone [OF A'] o ok run refl refl, unfolded d]
  have D: "distinct (map ca_id cs)" "int (length cs) \<le> cf_batch_size C" using S by auto
  have R: "\<exists>r. row_by_id ?d (ca_id c) = Some r \<and> row_pubkey r = ca_pubkey c \<and> row_status r = Discovered
      \<and> row_by_id (wdb w') (ca_id c) = Some (r\<lparr>row_status := In_Progress, claimed_at := Some (pg_now ?P (wtick (cs_world s)))\<rparr>)"
    if "c \<in> set cs" for c
    using S that by blast
  have N: "row_by_id (wdb w') j = row_by_id ?d j" if "j \<notin> ca_id ` set cs" for j using S that by blast
  show "j \<notin> ca_id ` set cs \<Longrightarrow> row_by_id (wdb w') j = row_by_id ?d j" by (rule N)
  show "batch_ok (cf_batch_size C) (wdb w') cs"
    using D R by (fastforce simp: batch_ok_def claims_row_def)
  have R1: "\<exists>r. row_by_id ?d i = Some r \<and> row_status r = Discovered" if i: "i \<in> ca_id ` set cs" for i
    using R i by auto
  show "i \<in> ca_id ` set cs \<Longrightarrow> \<exists>r. row_by_id ?d i = Some r \<and> row_status r = Discovered" by (rule R1)
  have R2: "i \<in> leased (wdb w')" if i: "i \<in> ca_id ` set cs" for i
    using R i by (fastforce simp: leased_def)
  show "ca_id ` set cs \<inter> leased ?d = {}" using R1 by (fastforce simp: leased_def)
  show "leased (wdb w') = leased ?d \<union> ca_id ` set cs"
  proof (rule set_eqI)
    fix i show "i \<in> leased (wdb w') \<longleftrightarrow> i \<in> leased ?d \<union> ca_id ` set cs"
      by (cases "i \<in> ca_id ` set cs") (use R2 N in \<open>auto simp: leased_def\<close>)
  qed
  show "row_status r \<noteq> Discovered"
    if z: "running s = 0" "cs = []" "0 < cf_batch_size C" "r \<in> set (pubkeys (wdb w'))"
  proof
    assume D: "row_status r = Discovered"
    have okw: "db_ok (wdb w')" using S by blast
    then have "row_by_id (wdb w') (row_id r) = Some r" using z(4) row_by_id_mem [OF db_okD(1)] by auto
    then have "row_by_id ?d (row_id r) = Some r" using N [of "row_id r"] z(2) by simp
    then have "r \<in> set (pubkeys ?d)" using row_by_id_Some [of ?d "row_id r" r] by simp
    then show False using S D z(1-3) L by auto
  qed
qed

text \<open>A worker's batch.\<close>

lemma batch_good:
  assumes "alone P" and "db_ok (wdb w)" and "process_batch E P B batch u w = (res, w')"
  shows "good (wdb w) (wdb w')"
  by (rule keepsD [OF keeps_process_batch [OF rely_alone [OF assms(1)]] good_refl [OF assms(2)] assms(3)])

lemma task_split:
  assumes "i < length ts" and "ts ! i = t"
  obtains xs ys where "ts = xs @ t # ys" "ts[i := t'] = xs @ t' # ys" "length xs = i"
  using id_take_nth_drop [OF assms(1)] upd_conv_take_nth_drop [OF assms(1), of t'] assms
  by (metis length_take min.absorb4)

lemma running_ends:
  assumes "i < length ts" and "ts ! i = Running b" and "\<not> is_running t"
  shows "Suc (length (filter is_running (ts[i := t]))) = length (filter is_running ts)"
  by (rule task_split [OF assms(1,2), of t]) (use assms(3) in simp)

lemma step_permits:
  "pool_step E P C s s' \<Longrightarrow> cs_permits s' + running s' = cs_permits s + running s"
  by (induction rule: pool_step.induct) (auto simp: running_def running_ends)

lemma counts_simp:
  "counts_ok (s\<lparr>cs_pc := q\<rparr>) = counts_ok s" if "pending q = []" "pending (cs_pc s) = []"
  using that by (simp add: counts_ok_def spawned_def)

lemma step_counts: "pool_step E P C s s' \<Longrightarrow> counts_ok s \<Longrightarrow> counts_ok s'"
proof (induction rule: pool_step.induct)
  case (ends i s batch B u res w')
  then have "map batch_of ((cs_tasks s)[i := Ended batch r]) = map batch_of (cs_tasks s)" for r
    by (auto simp: list_eq_iff_nth_eq nth_list_update)
  with ends show ?case by (simp add: counts_ok_def spawned_def)
next
  case (panics i s batch B P' u res w' join_err)
  then have "map batch_of ((cs_tasks s)[i := Ended batch r]) = map batch_of (cs_tasks s)" for r
    by (auto simp: list_eq_iff_nth_eq nth_list_update)
  with panics show ?case by (simp add: counts_ok_def spawned_def)
qed (simp_all add: counts_ok_def spawned_def counted_def)

lemma step_handles: "pool_step E P C s s' \<Longrightarrow> handles_ok s \<Longrightarrow> handles_ok s'"
proof (induction rule: pool_step.induct)
  case (spawns s batch)
  then show ?case by (auto simp: handles_ok_def Let_def nth_append less_Suc_eq)
next
  case (reaps s fin)
  then show ?case by (auto simp: handles_ok_def Let_def)
next
  case (joins s h hs batch r)
  then show ?case by (fastforce simp: handles_ok_def Let_def)
next
  case (ends i s batch B u res w')
  then show ?case by (auto simp: handles_ok_def Let_def nth_list_update)
next
  case (panics i s batch B P' u res w' join_err)
  then show ?case by (auto simp: handles_ok_def Let_def nth_list_update)
qed (auto simp: handles_ok_def Let_def)

lemma step_good:
  assumes "pool_step E P C s s'" and "alone P" and "db_ok (wdb (cs_world s))"
  shows "good (wdb (cs_world s)) (wdb (cs_world s'))"
  using assms
proof (induction rule: pool_step.induct)
  case (ends i s batch B u res w')
  then show ?case by (simp add: batch_good)
next
  case (panics i s batch B P' u res w' join_err)
  then show ?case by (simp add: batch_good)
qed (simp_all add: claim_good good_refl)

text \<open>What a step does to the batches and the tables.\<close>

lemma live_ends:
  assumes i: "i < length (cs_tasks s)" "cs_tasks s ! i = Running b"
  obtains xs ys where "live s = xs @ b # ys"
    "live (s\<lparr>cs_world := w', cs_permits := k, cs_tasks := (cs_tasks s)[i := Ended b r]\<rparr>) = xs @ [] # ys"
    "healthy (s\<lparr>cs_world := w', cs_permits := k, cs_tasks := (cs_tasks s)[i := Ended b r]\<rparr>)
      \<longleftrightarrow> healthy s \<and> join_worker r = Inr ()"
proof -
  obtain ts us where t: "cs_tasks s = ts @ Running b # us" "(cs_tasks s)[i := Ended b r] = ts @ Ended b r # us"
    by (rule task_split [OF i])
  show ?thesis
  proof
    show "live s = map in_flight ts @ b # (map in_flight us @ pending (cs_pc s))" using t(1) by (simp add: live_def)
    show "live (s\<lparr>cs_world := w', cs_permits := k, cs_tasks := (cs_tasks s)[i := Ended b r]\<rparr>)
        = map in_flight ts @ [] # (map in_flight us @ pending (cs_pc s))"
      unfolding t(2) by (simp add: live_def)
    show "healthy (s\<lparr>cs_world := w', cs_permits := k, cs_tasks := (cs_tasks s)[i := Ended b r]\<rparr>)
        \<longleftrightarrow> healthy s \<and> join_worker r = Inr ()"
      unfolding t(2) by (auto simp: healthy_def t(1))
  qed
qed

lemma pool_step_view:
  assumes "pool_step E P C s s'"
  obtains
    (moves) "live s' = live s" "cs_world s' = cs_world s" "healthy s' \<Longrightarrow> healthy s"
  | (takes) cs where "live s' = live s @ [cs]" "claim P C s (Inr cs) (cs_world s')" "healthy s' \<Longrightarrow> healthy s"
  | (breaks) e where "live s' = live s" "claim P C s (Inl e) (cs_world s')" "\<not> healthy s'"
  | (ends) P' B b u res xs ys where "live s = xs @ b # ys" "live s' = xs @ [] # ys"
      "process_batch E P' B b u (cs_world s) = (res, cs_world s')" "alone P \<Longrightarrow> alone P'"
      "healthy s' \<Longrightarrow> healthy s \<and> P' = P \<and> (\<exists>n. res = Inr n)"
  using assms
proof (cases rule: pool_step.cases)
  case (claim_fails e w')
  then show ?thesis by (intro breaks [of e]) (simp_all add: live_def healthy_def)
next
  case (claims batch w')
  then show ?thesis by (intro takes [of batch]) (simp_all add: live_def healthy_def)
next
  case (spawns batch)
  then show ?thesis by (intro moves) (auto simp: live_def healthy_def)
next
  case (ends i batch B u res w')
  let ?r = "Finished (case res of Inl e \<Rightarrow> Inl e | Inr _ \<Rightarrow> Inr ())"
  show ?thesis
    by (rule live_ends [OF ends(2,3), where w' = w' and k = "cs_permits s + 1" and r = ?r], rule that(4) [of _ batch _ P B u res])
      (use ends in \<open>auto simp: join_worker_def split: sum.splits\<close>)
next
  case (panics i batch B P' u res w' join_err)
  show ?thesis
    by (rule live_ends [OF panics(2,3), where w' = w' and k = "cs_permits s + 1" and r = "Panicked join_err"],
        rule that(4) [of _ batch _ P' B u res])
      (use panics in \<open>auto simp: join_worker_def\<close>)
qed (auto intro!: moves simp: live_def healthy_def)

lemma concat_hole: "set (map ca_id (concat (xs @ b # ys))) = ca_id ` set b \<union> set (map ca_id (concat (xs @ [] # ys)))"
  by auto

lemma distinct_hole:
  assumes "distinct (map ca_id (concat (xs @ b # ys)))"
  shows "distinct (map ca_id (concat (xs @ [] # ys)))"
    and "set (map ca_id (concat (xs @ [] # ys))) \<inter> ca_id ` set b = {}"
proof -
  have "map ca_id (concat (xs @ b # ys)) = map ca_id (concat xs) @ map ca_id b @ map ca_id (concat ys)"
    and h: "map ca_id (concat (xs @ [] # ys)) = map ca_id (concat xs) @ map ca_id (concat ys)"
    by simp_all
  then have d: "distinct (map ca_id (concat xs) @ map ca_id b @ map ca_id (concat ys))"
    using assms by simp
  show "distinct (map ca_id (concat (xs @ [] # ys)))" unfolding h
    using d unfolding distinct_append set_append by blast
  show "set (map ca_id (concat (xs @ [] # ys))) \<inter> ca_id ` set b = {}" unfolding h
    using d unfolding distinct_append set_append set_map [of ca_id b] by blast
qed

lemma subset_minus: "A \<subseteq> B \<Longrightarrow> B \<subseteq> L \<Longrightarrow> A \<inter> I = {} \<Longrightarrow> A \<subseteq> L - I"
  by blast

lemma step_leases:
  assumes st: "pool_step E P C s s'" and E: "alone P" "keys_ok E" "orders_ok E"
    and inv: "db_ok (wdb (cs_world s))" "batches_ok C s"
      "healthy s \<longrightarrow> leased (wdb (cs_world s)) \<subseteq> set (live_ids s)"
  shows "batches_ok C s'" and "healthy s' \<longrightarrow> leased (wdb (cs_world s')) \<subseteq> set (live_ids s')"
    and "exclusive s \<Longrightarrow> exclusive s'"
proof -
  let ?d = "wdb (cs_world s)" and ?d' = "wdb (cs_world s')"
  have g: "good ?d ?d'" by (rule step_good [OF st E(1) inv(1)])
  have old: "\<forall>b \<in> set (live s). batch_ok (cf_batch_size C) ?d' b"
    using inv(2) batch_ok_good [OF g] by (auto simp: batches_ok_def)
  have "batches_ok C s' \<and> (healthy s' \<longrightarrow> leased ?d' \<subseteq> set (live_ids s'))
      \<and> (exclusive s \<longrightarrow> exclusive s')"
    using st
  proof (cases rule: pool_step_view)
    case moves
    then show ?thesis using old inv(3) by (auto simp: batches_ok_def exclusive_def live_ids_def)
  next
    case (takes cs)
    note c = claim_Inr [OF E(1) inv(1) takes(2)]
    have l: "live_ids s' = live_ids s @ map ca_id cs" using takes(1) by (simp add: live_ids_def)
    have "batches_ok C s'" using old c(1) takes(1) by (simp add: batches_ok_def)
    moreover have "leased ?d' \<subseteq> set (live_ids s')" if "healthy s'"
      using inv(3) takes(3) [OF that] by (auto simp: c(2) l)
    moreover have "exclusive s'" if x: "exclusive s"
    proof -
      have "distinct (map ca_id cs)" using c(1) by (simp add: batch_ok_def)
      then show ?thesis using x c(3) takes(3) by (auto simp: exclusive_def l c(2))
    qed
    ultimately show ?thesis by simp
  next
    case (breaks e)
    then show ?thesis using old by (simp add: batches_ok_def exclusive_def)
  next
    case (ends P' B b u res xs ys)
    have l: "set (live_ids s) = ca_id ` set b \<union> set (live_ids s')"
      unfolding live_ids_def ends(1,2) by (rule concat_hole)
    have "batches_ok C s'" using old ends(1,2) by (auto simp: batches_ok_def batch_ok_def)
    moreover have r: "leased ?d' = leased ?d - ca_id ` set b" if h: "healthy s'"
    proof -
      obtain n where n: "P' = P" "res = Inr n" using ends(5) [OF h] by blast
      have b: "batch_ok (cf_batch_size C) ?d b" using inv(2) ends(1) by (simp add: batches_ok_def)
      then have "resolved (ca_id ` set b) ?d ?d'"
        using batch_resolves [OF E inv(1), of b B u n "cs_world s'"] ends(3) n
        by (simp add: batch_ok_def)
      then show ?thesis by (rule leased_resolved)
    qed
    moreover have "exclusive s'" if x: "exclusive s"
    proof -
      have "distinct (live_ids s') \<and> set (live_ids s') \<subseteq> leased ?d'" if h: "healthy s'"
      proof -
        have "distinct (live_ids s)" "set (live_ids s) \<subseteq> leased ?d"
          using x ends(5) [OF h] by (simp_all add: exclusive_def)
        note D = distinct_hole [OF this(1) [unfolded live_ids_def ends(1)], folded ends(2) live_ids_def]
        have "set (live_ids s') \<subseteq> set (live_ids s)" unfolding l by (rule Un_upper2)
        from subset_minus [OF this \<open>set (live_ids s) \<subseteq> leased ?d\<close> D(2)] D(1)
        show ?thesis unfolding r [OF h] by blast
      qed
      then show ?thesis by (simp add: exclusive_def)
    qed
    moreover have "leased ?d' \<subseteq> set (live_ids s')" if h: "healthy s'"
      using r [OF h] inv(3) ends(5) [OF h] l by blast
    ultimately show ?thesis by blast
  qed
  then show "batches_ok C s'" "healthy s' \<longrightarrow> leased ?d' \<subseteq> set (live_ids s')"
    "exclusive s \<Longrightarrow> exclusive s'" by blast+
qed

lemma pool_okD:
  assumes "pool_ok C s"
  shows "cs_permits s + running s = cf_concurrency C" "db_ok (wdb (cs_world s))" "handles_ok s"
    "counts_ok s" "batches_ok C s" "healthy s \<Longrightarrow> leased (wdb (cs_world s)) \<subseteq> set (live_ids s)"
  using assms by (simp_all add: pool_ok_def)

lemma step_pool_ok:
  assumes st: "pool_step E P C s s'" and E: "alone P" "keys_ok E" "orders_ok E" and inv: "pool_ok C s"
  shows "pool_ok C s'"
proof -
  note I = pool_okD [OF inv]
  have "healthy s \<longrightarrow> leased (wdb (cs_world s)) \<subseteq> set (live_ids s)" using I(6) by blast
  note L = step_leases [OF st E I(2,5) this]
  show ?thesis unfolding pool_ok_def
    using step_permits [OF st] step_good [OF st E(1) I(2)] step_handles [OF st I(3)]
      step_counts [OF st I(4)] L(1,2) I(1)
    by (simp add: good_def)
qed

lemma step_exclusive:
  assumes "pool_step E P C s s'" "alone P" "keys_ok E" "orders_ok E" "pool_ok C s" "exclusive s"
  shows "exclusive s'"
  using step_leases(3) [OF assms(1-4)] pool_okD [OF assms(5)] assms(6) by blast

text \<open>A move of the driver that starts and ends no batch.\<close>

lemma pool_ok_move:
  assumes "pool_ok C s" and "cs_permits s' = cs_permits s" "cs_tasks s' = cs_tasks s" "cs_stats s' = cs_stats s"
    and "pending (cs_pc s) = []" "pending (cs_pc s') = []" and "erring (cs_pc s) \<Longrightarrow> erring (cs_pc s')"
    and g: "good (wdb (cs_world s)) (wdb (cs_world s'))"
    and "leased (wdb (cs_world s')) \<subseteq> leased (wdb (cs_world s))" and "handles_ok s'"
  shows "pool_ok C s'"
proof -
  have l: "live s' = live s" "live_ids s' = live_ids s" "spawned s' = spawned s" "running s' = running s"
    using assms(3,5,6) by (simp_all add: live_def live_ids_def spawned_def running_def)
  have "healthy s' \<Longrightarrow> healthy s" using assms(3,7) by (auto simp: healthy_def)
  then show ?thesis
    using assms batch_ok_good [OF g] by (auto simp: pool_ok_def batches_ok_def counts_ok_def l good_def)
qed

lemma exclusive_move:
  assumes "exclusive s" and "cs_tasks s' = cs_tasks s" and "pending (cs_pc s) = []" "pending (cs_pc s') = []"
    and "erring (cs_pc s) \<Longrightarrow> erring (cs_pc s')"
    and "leased (wdb (cs_world s')) = leased (wdb (cs_world s))"
  shows "exclusive s'"
  using assms by (auto simp: exclusive_def live_ids_def live_def healthy_def)

text \<open>At most \<open>concurrency * batch_size\<close> authors are being fetched.\<close>

lemma in_flight_le:
  "\<forall>t \<in> set ts. length (in_flight t) \<le> n
    \<Longrightarrow> length (concat (map in_flight ts)) \<le> length (filter is_running ts) * n"
proof (induction ts)
  case (Cons t ts)
  then show ?case by (cases t) simp_all
qed simp

lemma in_flight_bound:
  assumes "pool_ok C s"
  shows "running s \<le> cf_concurrency C"
    "length (concat (map in_flight (cs_tasks s))) \<le> cf_concurrency C * nat (cf_batch_size C)"
proof -
  show r: "running s \<le> cf_concurrency C" using pool_okD(1) [OF assms] by simp
  have "\<forall>t \<in> set (cs_tasks s). length (in_flight t) \<le> nat (cf_batch_size C)"
  proof
    fix t assume "t \<in> set (cs_tasks s)"
    then have "in_flight t \<in> set (live s)" by (simp add: live_def)
    then show "length (in_flight t) \<le> nat (cf_batch_size C)"
      using pool_okD(5) [OF assms] by (auto simp: batches_ok_def batch_ok_def max_def split: if_splits)
  qed
  from in_flight_le [OF this]
  show "length (concat (map in_flight (cs_tasks s))) \<le> cf_concurrency C * nat (cf_batch_size C)"
    using r by (simp add: running_def) (metis le_trans mult_le_mono1)
qed

text \<open>Nothing but the driver's own choices can block: the pool has a step wherever it should.\<close>

lemma claim_total: "\<exists>r w'. claim P C s r w'"
proof -
  obtain r w' where "claim_batch (P\<lparr>pg_locked := \<lambda>_ _. False\<rparr>) (cf_batch_size C) (cs_world s) = (r, w')"
    by (metis prod.collapse)
  then show ?thesis unfolding claim_def by blast
qed

lemma claim_progress:
  assumes "cs_pc s = Claiming"
  shows "(\<exists>q. pool_step E P C s q) \<or> (\<exists>w'. claim P C s (Inr []) w')"
proof -
  obtain r w' where c: "claim P C s r w'" using claim_total by blast
  show ?thesis
  proof (cases r)
    case (Inl e)
    then show ?thesis using pool_step.claim_fails [OF assms] c by blast
  next
    case (Inr b)
    then show ?thesis using pool_step.claims [OF assms] c by blast
  qed
qed

lemma worker_ends:
  assumes "i < length (cs_tasks s)" and "cs_tasks s ! i = Running b" and "cf_args C \<noteq> {}"
  shows "\<exists>q. pool_step E P C s q"
proof -
  obtain B where "B \<in> cf_args C" using assms(3) by blast
  moreover obtain res w' where "process_batch E P B b (Inr []) (cs_world s) = (res, w')" by (metis prod.collapse)
  ultimately show ?thesis using pool_step.ends assms(1,2) by blast
qed

lemma join_progress:
  assumes "cs_pc s = Joining hs" and "handles_ok s" and "cf_args C \<noteq> {}"
  shows "\<exists>q. pool_step E P C s q"
proof (cases hs)
  case Nil
  then show ?thesis using pool_step.joined assms(1) by blast
next
  case (Cons h hs')
  then have h: "h < length (cs_tasks s)" using assms(1,2) by (simp add: handles_ok_def Let_def)
  show ?thesis
  proof (cases "cs_tasks s ! h")
    case (Running b)
    then show ?thesis using worker_ends [OF h] assms(3) by blast
  next
    case e: (Ended b r)
    have pc: "cs_pc s = Joining (h # hs')" using assms(1) Cons by simp
    show ?thesis
    proof (cases "join_worker r")
      case (Inl x)
      then show ?thesis using pool_step.join_fails [OF pc e] by blast
    next
      case (Inr x)
      then show ?thesis using pool_step.joins [OF pc e] by auto
    qed
  qed
qed

lemma pool_progress:
  assumes ok: "pool_ok C s" and "0 < cf_concurrency C" and "cf_args C \<noteq> {}"
  shows "(\<exists>b. cs_pc s = Claimed b) \<or> cs_pc s = Spawned \<or> (\<exists>hs. cs_pc s = Joining hs)
    \<Longrightarrow> \<exists>q. pool_step E P C s q"
proof (elim disjE exE)
  fix b assume pc: "cs_pc s = Claimed b"
  show ?thesis
  proof (cases "0 < cs_permits s")
    case True
    then show ?thesis using pool_step.spawns pc by blast
  next
    case False
    then have "0 < running s" using pool_okD(1) [OF ok] assms(2) by simp
    then obtain t where t: "t \<in> set (cs_tasks s)" "is_running t" by (auto simp: running_def filter_empty_conv)
    from t(1) obtain i where i: "i < length (cs_tasks s)" "cs_tasks s ! i = t" by (metis in_set_conv_nth)
    from t(2) obtain b' where "t = Running b'" by (cases t) auto
    with i have "i < length (cs_tasks s)" "cs_tasks s ! i = Running b'" by simp_all
    then show ?thesis using worker_ends assms(3) by blast
  qed
next
  assume "cs_pc s = Spawned"
  then show ?thesis using pool_step.reaps [where fin = "\<lambda>_. False"] by blast
next
  fix hs assume "cs_pc s = Joining hs"
  then show ?thesis using join_progress pool_okD(3) [OF ok] assms(3) by blast
qed

section \<open>What every driver of the pool promises\<close>

lemma all_ended:
  assumes "handles_ok s" and "cs_handles s = []" "joining (cs_pc s) = []" "\<not> erring (cs_pc s)"
  shows "\<forall>t \<in> set (cs_tasks s). \<not> is_running t \<and> \<not> failed t"
  using assms by (auto simp: handles_ok_def Let_def in_set_conv_nth)

lemma running_live: "\<forall>t \<in> set (cs_tasks s). \<not> is_running t \<Longrightarrow> running s = 0 \<and> concat (map in_flight (cs_tasks s)) = []"
proof -
  assume a: "\<forall>t \<in> set (cs_tasks s). \<not> is_running t"
  then have "in_flight t = []" if "t \<in> set (cs_tasks s)" for t using that by (cases t) auto
  then show ?thesis using a by (simp add: running_def)
qed

text \<open>
  The contract between the pool and a driver: the driver's own moves keep the invariant, and
  it reports success only with every handle joined.
\<close>

locale pool_driver =
  fixes C :: crawl_conf and reachable :: "'x crawl_state_scheme \<Rightarrow> bool"
  assumes reachable_ok: "reachable s \<Longrightarrow> pool_ok C s"
    and success_joined: "reachable s \<Longrightarrow> cs_pc s = Returned (Inr st) \<Longrightarrow> st = cs_stats s \<and> cs_handles s = []"
begin

lemma bounded:
  assumes "reachable s"
  shows "cs_permits s + running s = cf_concurrency C
    \<and> length (concat (map in_flight (cs_tasks s))) \<le> cf_concurrency C * nat (cf_batch_size C)"
  using pool_okD(1) in_flight_bound(2) reachable_ok [OF assms] by blast

lemma clean_end:
  assumes "reachable s" and pc: "cs_pc s = Returned (Inr st)"
  shows "\<forall>t \<in> set (cs_tasks s). \<exists>b. t = Ended b (Finished (Inr ()))"
    and "cs_permits s = cf_concurrency C"
    and "batches_processed st = length (cs_tasks s)
      \<and> authors_claimed st = length (concat (map batch_of (cs_tasks s)))"
    and "\<forall>r \<in> set (pubkeys (wdb (cs_world s))). row_status r \<noteq> In_Progress"
proof -
  note I = reachable_ok [OF assms(1)] and d = success_joined [OF assms]
  have e: "\<forall>t \<in> set (cs_tasks s). \<not> is_running t \<and> \<not> failed t"
    using all_ended [OF pool_okD(3) [OF I]] d pc by simp
  have "\<exists>b. t = Ended b (Finished (Inr ()))" if "t \<in> set (cs_tasks s)" for t
    using e that by (cases t) (auto simp: join_worker_def split: join_result.splits)
  then show "\<forall>t \<in> set (cs_tasks s). \<exists>b. t = Ended b (Finished (Inr ()))" by blast
  have n: "running s = 0" "live_ids s = []"
    using running_live [of s] e pc by (simp_all add: live_ids_def live_def)
  show "cs_permits s = cf_concurrency C" using pool_okD(1) [OF I] n(1) by simp
  have "leased (wdb (cs_world s)) = {}"
    using pool_okD(6) [OF I] e pc n(2) by (auto simp: healthy_def)
  then show "\<forall>r \<in> set (pubkeys (wdb (cs_world s))). row_status r \<noteq> In_Progress"
    using row_by_id_mem [OF db_okD(1) [OF pool_okD(2) [OF I]]] by (auto simp: leased_def)
  show "batches_processed st = length (cs_tasks s)
      \<and> authors_claimed st = length (concat (map batch_of (cs_tasks s)))"
    using pool_okD(4) [OF I] pc d by (simp add: counts_ok_def spawned_def)
qed

end

end
