(* ===== verification/Config.thy ===== *)
theory Config imports Pool begin

text \<open>
  \<open>src/daemon/config.rs\<close>: the settings, their defaults, the redacting \<open>Debug\<close> and the
  validation at startup. The configuration library is outside: what it found for each field
  is an argument, absent where the sources do not set it.
\<close>

section \<open>Settings\<close>

datatype log_format = Human | Json

text \<open>A socket address is its bytes and its port; an \<open>f64\<close> may also be infinite or not a number.\<close>

type_synonym socket_addr = "byte list \<times> 16 word"

datatype f64 = Finite real | Infinite bool | NaN

fun f64_le :: "f64 \<Rightarrow> f64 \<Rightarrow> bool" where
  "f64_le (Finite x) (Finite y) = (x \<le> y)"
| "f64_le NaN _ = False"
| "f64_le _ NaN = False"
| "f64_le (Infinite neg) (Finite _) = neg"
| "f64_le (Finite _) (Infinite neg) = (\<not> neg)"
| "f64_le (Infinite neg) (Infinite neg') = (neg \<or> \<not> neg')"

fun f64_lt :: "f64 \<Rightarrow> f64 \<Rightarrow> bool" where
  "f64_lt (Finite x) (Finite y) = (x < y)"
| "f64_lt NaN _ = False"
| "f64_lt _ NaN = False"
| "f64_lt (Infinite neg) (Finite _) = neg"
| "f64_lt (Finite _) (Infinite neg) = (\<not> neg)"
| "f64_lt (Infinite neg) (Infinite neg') = (neg \<and> \<not> neg')"

record config =
  cfg_anchor_pubkey :: ustring
  cfg_relays :: "ustring list"
  cfg_database_url :: ustring
  cfg_ttl :: duration
  cfg_concurrency :: nat
  cfg_batch_size :: "64 word"
  cfg_max_attempts :: "16 word"
  cfg_fetch_timeout :: duration
  cfg_reqs_per_second :: u32
  cfg_metrics_addr :: socket_addr
  cfg_log_level :: ustring
  cfg_log_format :: log_format
  cfg_progress_interval :: duration
  cfg_staleness_scan_interval :: duration
  cfg_reclaim_interval :: duration
  cfg_reclaim_age :: duration
  cfg_idle_poll_interval :: duration
  cfg_nip65_fallback_enabled :: bool
  cfg_nip65_max_write_relays :: nat
  cfg_relay_health_threshold :: f64
  cfg_per_relay_concurrency :: nat
  cfg_health_alpha :: f64

section \<open>Defaults\<close>

definition default_progress_interval :: duration where "default_progress_interval = 60 * 10 ^ 9"
definition default_staleness_scan_interval :: duration where
  "default_staleness_scan_interval = 300 * 10 ^ 9"
definition default_reclaim_interval :: duration where "default_reclaim_interval = 60 * 10 ^ 9"
definition default_reclaim_age :: duration where "default_reclaim_age = 300 * 10 ^ 9"
definition default_idle_poll_interval :: duration where "default_idle_poll_interval = 5 * 10 ^ 9"

text \<open>What the sources set, and the derived \<open>Deserialize\<close>: a required field or its default.\<close>

record raw_config =
  raw_anchor_pubkey :: "ustring option"
  raw_relays :: "(ustring list) option"
  raw_database_url :: "ustring option"
  raw_ttl :: "duration option"
  raw_concurrency :: "nat option"
  raw_batch_size :: "(64 word) option"
  raw_max_attempts :: "(16 word) option"
  raw_fetch_timeout :: "duration option"
  raw_reqs_per_second :: "u32 option"
  raw_metrics_addr :: "socket_addr option"
  raw_log_level :: "ustring option"
  raw_log_format :: "log_format option"
  raw_progress_interval :: "duration option"
  raw_staleness_scan_interval :: "duration option"
  raw_reclaim_interval :: "duration option"
  raw_reclaim_age :: "duration option"
  raw_idle_poll_interval :: "duration option"
  raw_nip65_fallback_enabled :: "bool option"
  raw_nip65_max_write_relays :: "nat option"
  raw_relay_health_threshold :: "f64 option"
  raw_per_relay_concurrency :: "nat option"
  raw_health_alpha :: "f64 option"

definition required :: "string \<Rightarrow> 'a option \<Rightarrow> ('a \<Rightarrow> ustring + 'b) \<Rightarrow> ustring + 'b" where
  "required field v k =
     (case v of None \<Rightarrow> Inl (lit ''missing field `'' @ lit field @ lit ''`'') | Some x \<Rightarrow> k x)"

definition with_default :: "'a option \<Rightarrow> 'a \<Rightarrow> 'a" where
  "with_default v d = (case v of Some x \<Rightarrow> x | None \<Rightarrow> d)"

definition deserialize :: "raw_config \<Rightarrow> ustring + config" where
  "deserialize R =
     required ''anchor_pubkey'' (raw_anchor_pubkey R) (\<lambda>anchor_pubkey.
     required ''relays'' (raw_relays R) (\<lambda>relays.
     required ''database_url'' (raw_database_url R) (\<lambda>database_url.
     required ''ttl'' (raw_ttl R) (\<lambda>ttl.
     required ''metrics_addr'' (raw_metrics_addr R) (\<lambda>metrics_addr.
       Inr \<lparr>cfg_anchor_pubkey = anchor_pubkey,
           cfg_relays = relays,
           cfg_database_url = database_url,
           cfg_ttl = ttl,
           cfg_concurrency = with_default (raw_concurrency R) DEFAULT_CONCURRENCY,
           cfg_batch_size = with_default (raw_batch_size R) (word_of_int DEFAULT_BATCH_SIZE),
           cfg_max_attempts = with_default (raw_max_attempts R) DEFAULT_MAX_ATTEMPTS,
           cfg_fetch_timeout = with_default (raw_fetch_timeout R) DEFAULT_FETCH_TIMEOUT,
           cfg_reqs_per_second = with_default (raw_reqs_per_second R) DEFAULT_REQS_PER_SECOND,
           cfg_metrics_addr = metrics_addr,
           cfg_log_level = with_default (raw_log_level R) (lit ''info''),
           cfg_log_format = with_default (raw_log_format R) Human,
           cfg_progress_interval = with_default (raw_progress_interval R) default_progress_interval,
           cfg_staleness_scan_interval = with_default (raw_staleness_scan_interval R) default_staleness_scan_interval,
           cfg_reclaim_interval = with_default (raw_reclaim_interval R) default_reclaim_interval,
           cfg_reclaim_age = with_default (raw_reclaim_age R) default_reclaim_age,
           cfg_idle_poll_interval = with_default (raw_idle_poll_interval R) default_idle_poll_interval,
           cfg_nip65_fallback_enabled = with_default (raw_nip65_fallback_enabled R) DEFAULT_NIP65_FALLBACK_ENABLED,
           cfg_nip65_max_write_relays = with_default (raw_nip65_max_write_relays R) DEFAULT_NIP65_MAX_WRITE_RELAYS,
           cfg_relay_health_threshold = with_default (raw_relay_health_threshold R) (Finite DEFAULT_RELAY_HEALTH_THRESHOLD),
           cfg_per_relay_concurrency = with_default (raw_per_relay_concurrency R) DEFAULT_PER_RELAY_CONCURRENCY,
           cfg_health_alpha = with_default (raw_health_alpha R) (Finite DEFAULT_HEALTH_ALPHA)\<rparr>)))))"

text \<open>
  The sources are the file and, over it, the environment; what the library builds of them is
  an argument: the values found, or its error.
\<close>

definition load_config :: "(ustring \<Rightarrow> ustring + raw_config) \<Rightarrow> ustring \<Rightarrow> ustring + config" where
  "load_config build path = (case build path of Inl e \<Rightarrow> Inl e | Inr raw \<Rightarrow> deserialize raw)"

section \<open>Debug\<close>

datatype dbg =
    D_Str ustring
  | D_Strs "ustring list"
  | D_Dur duration
  | D_Int int
  | D_Bool bool
  | D_F64 f64
  | D_Addr socket_addr
  | D_Format log_format

definition config_debug :: "config \<Rightarrow> (string \<times> dbg) list" where
  "config_debug c =
     [(''anchor_pubkey'', D_Str (cfg_anchor_pubkey c)),
      (''relays'', D_Strs (cfg_relays c)),
      (''database_url'', D_Str (lit ''<redacted>'')),
      (''ttl'', D_Dur (cfg_ttl c)),
      (''concurrency'', D_Int (int (cfg_concurrency c))),
      (''batch_size'', D_Int (sint (cfg_batch_size c))),
      (''max_attempts'', D_Int (sint (cfg_max_attempts c))),
      (''fetch_timeout'', D_Dur (cfg_fetch_timeout c)),
      (''reqs_per_second'', D_Int (uint (cfg_reqs_per_second c))),
      (''metrics_addr'', D_Addr (cfg_metrics_addr c)),
      (''log_level'', D_Str (cfg_log_level c)),
      (''log_format'', D_Format (cfg_log_format c)),
      (''progress_interval'', D_Dur (cfg_progress_interval c)),
      (''staleness_scan_interval'', D_Dur (cfg_staleness_scan_interval c)),
      (''reclaim_interval'', D_Dur (cfg_reclaim_interval c)),
      (''reclaim_age'', D_Dur (cfg_reclaim_age c)),
      (''idle_poll_interval'', D_Dur (cfg_idle_poll_interval c)),
      (''nip65_fallback_enabled'', D_Bool (cfg_nip65_fallback_enabled c)),
      (''nip65_max_write_relays'', D_Int (int (cfg_nip65_max_write_relays c))),
      (''relay_health_threshold'', D_F64 (cfg_relay_health_threshold c)),
      (''per_relay_concurrency'', D_Int (int (cfg_per_relay_concurrency c))),
      (''health_alpha'', D_F64 (cfg_health_alpha c))]"

section \<open>Validation\<close>

fun contains_str :: "ustring \<Rightarrow> ustring \<Rightarrow> bool" where
  "contains_str p [] = (p = [])"
| "contains_str p (c # cs) = (take (length p) (c # cs) = p \<or> contains_str p cs)"

definition ensure :: "bool \<Rightarrow> string \<Rightarrow> ustring + unit \<Rightarrow> ustring + unit" where
  "ensure cond msg rest = (if cond then rest else Inl (lit msg))"

text \<open>\<open>parse\<close> is \<open>PublicKey::parse\<close>, hex or bech32.\<close>

definition validate :: "(ustring \<Rightarrow> ustring + pubkey) \<Rightarrow> config \<Rightarrow> ustring + unit" where
  "validate parse c =
     (case parse (cfg_anchor_pubkey c) of
        Inl e \<Rightarrow> Inl (lit ''invalid anchor_pubkey: '' @ e)
      | Inr _ \<Rightarrow>
          ensure (cfg_relays c \<noteq> []) ''relays must be non-empty'' (
          ensure (cfg_ttl c > 0) ''ttl must be > 0'' (
          ensure (trim (cfg_database_url c) \<noteq> []) ''database_url must be non-empty'' (
          ensure (contains_str (lit ''://'') (cfg_database_url c))
            ''database_url must look like a URL (scheme://...)'' (
          ensure (cfg_concurrency c > 0) ''concurrency must be > 0'' (
          ensure (sint (cfg_batch_size c) > 0) ''batch_size must be > 0'' (
          ensure (cfg_reqs_per_second c > 0) ''reqs_per_second must be > 0'' (
          ensure (cfg_nip65_max_write_relays c > 0) ''nip65_max_write_relays must be > 0'' (
          ensure (cfg_per_relay_concurrency c > 0) ''per_relay_concurrency must be > 0'' (
          ensure (f64_le (Finite 0) (cfg_relay_health_threshold c)
              \<and> f64_le (cfg_relay_health_threshold c) (Finite 1))
            ''relay_health_threshold must be in [0,1]'' (
          ensure (f64_lt (Finite 0) (cfg_health_alpha c) \<and> f64_le (cfg_health_alpha c) (Finite 1))
            ''health_alpha must be in (0,1]'' (
          Inr ()))))))))))))"

section \<open>What validation means\<close>

lemma ensure_Inr: "ensure q msg rest = Inr () \<longleftrightarrow> q \<and> rest = Inr ()"
  by (simp add: ensure_def)

lemma validate_Inr:
  "validate parse c = Inr () \<longleftrightarrow> (\<exists>pk. parse (cfg_anchor_pubkey c) = Inr pk) \<and> cfg_relays c \<noteq> []
     \<and> 0 < cfg_ttl c \<and> trim (cfg_database_url c) \<noteq> [] \<and> contains_str (lit ''://'') (cfg_database_url c)
     \<and> 0 < cfg_concurrency c \<and> 0 < sint (cfg_batch_size c) \<and> 0 < cfg_reqs_per_second c
     \<and> 0 < cfg_nip65_max_write_relays c \<and> 0 < cfg_per_relay_concurrency c
     \<and> (\<exists>x. cfg_relay_health_threshold c = Finite x \<and> 0 \<le> x \<and> x \<le> 1)
     \<and> (\<exists>x. cfg_health_alpha c = Finite x \<and> 0 < x \<and> x \<le> 1)"
proof -
  have t: "f64_le (Finite 0) v \<and> f64_le v (Finite 1) \<longleftrightarrow> (\<exists>x. v = Finite x \<and> 0 \<le> x \<and> x \<le> 1)" for v
    by (cases v) auto
  have a: "f64_lt (Finite 0) v \<and> f64_le v (Finite 1) \<longleftrightarrow> (\<exists>x. v = Finite x \<and> 0 < x \<and> x \<le> 1)" for v
    by (cases v) auto
  show ?thesis unfolding validate_def t a by (cases "parse (cfg_anchor_pubkey c)") (simp_all add: ensure_Inr)
qed

text \<open>
  A minimal configuration works: the required fields alone, with an anchor that parses, a
  relay, a positive ttl and a URL, deserialize to a configuration that passes the validation,
  so no default contradicts it; a missing required field is an error that names it.
\<close>

theorem minimal_config:
  assumes "raw_anchor_pubkey R = Some anchor" "parse anchor = Inr pk"
    and "raw_relays R = Some relays" "relays \<noteq> []"
    and "raw_database_url R = Some url" "trim url \<noteq> []" "contains_str (lit ''://'') url"
    and "raw_ttl R = Some ttl" "0 < ttl" and "raw_metrics_addr R = Some addr"
    and "raw_concurrency R = None" "raw_batch_size R = None" "raw_reqs_per_second R = None"
    and "raw_nip65_max_write_relays R = None" "raw_per_relay_concurrency R = None"
    and "raw_relay_health_threshold R = None" "raw_health_alpha R = None"
  shows "(\<exists>c. deserialize R = Inr c \<and> validate parse c = Inr ())
    \<and> deserialize (R\<lparr>raw_relays := None\<rparr>) = Inl (lit ''missing field `relays`'')"
  using assms
  by (simp add: deserialize_def required_def with_default_def validate_Inr DEFAULT_CONCURRENCY_def
      DEFAULT_BATCH_SIZE_def DEFAULT_REQS_PER_SECOND_def DEFAULT_NIP65_MAX_WRITE_RELAYS_def
      DEFAULT_PER_RELAY_CONCURRENCY_def DEFAULT_RELAY_HEALTH_THRESHOLD_def DEFAULT_HEALTH_ALPHA_def lit_def)
    (rule conjI, rule exI [of _ "1 / 4"], simp, rule exI [of _ "3 / 10"], simp)

definition demo_raw :: raw_config where
  "demo_raw = \<lparr>raw_anchor_pubkey = Some [55], raw_relays = Some [[119]],
     raw_database_url = Some (lit ''pg://db''), raw_ttl = Some (10 ^ 9), raw_concurrency = None,
     raw_batch_size = None, raw_max_attempts = None, raw_fetch_timeout = None, raw_reqs_per_second = None,
     raw_metrics_addr = Some ([127, 0, 0, 1], 9090), raw_log_level = None, raw_log_format = None,
     raw_progress_interval = None, raw_staleness_scan_interval = None, raw_reclaim_interval = None,
     raw_reclaim_age = None, raw_idle_poll_interval = None, raw_nip65_fallback_enabled = None,
     raw_nip65_max_write_relays = None, raw_relay_health_threshold = None, raw_per_relay_concurrency = None,
     raw_health_alpha = None\<rparr>"

lemma demo_url: "trim (lit ''pg://db'') \<noteq> []" "contains_str (lit ''://'') (lit ''pg://db'')"
  by (simp_all add: lit_def trim_def white_space_def)

theorem minimal_config_witness:
  "\<exists>c. deserialize demo_raw = Inr c \<and> validate (\<lambda>_. Inr 7) c = Inr ()"
  using minimal_config [where R = demo_raw and parse = "\<lambda>_. Inr 7" and url = "lit ''pg://db''"] demo_url
  by (simp add: demo_raw_def)

text \<open>The database URL, which may carry a password, has no influence on what is logged.\<close>

lemma debug_redacts: "config_debug (c\<lparr>cfg_database_url := url\<rparr>) = config_debug c"
  by (simp add: config_debug_def)

end
