(* ===== verification/Crawl.thy ===== *)
theory Crawl imports Pool begin

text \<open>
  \<open>src/crawl/mod.rs\<close>: \<open>run_crawl\<close>. \<open>crawl_step\<close> adds to the pool what \<open>run_crawl\<close> does when a
  claim comes back empty.
\<close>

section \<open>The driver\<close>

definition crawl_begin :: "crawl_conf \<Rightarrow> nat \<Rightarrow> world \<Rightarrow> crawl_state" where
  "crawl_begin C reclaimed w = \<lparr>cs_world = w, cs_permits = cf_concurrency C, cs_tasks = [],
     cs_handles = [], cs_stats = \<lparr>reclaimed_on_startup = reclaimed, authors_claimed = 0,
     batches_processed = 0\<rparr>, cs_pc = Top\<rparr>"

inductive crawl_step :: "env \<Rightarrow> pg \<Rightarrow> crawl_conf \<Rightarrow> crawl_state \<Rightarrow> crawl_state \<Rightarrow> bool"
  for E P C where
  pool: "pool_step E P C s s' \<Longrightarrow> crawl_step E P C s s'"
| again: "cs_pc s = Top \<Longrightarrow> crawl_step E P C s (s\<lparr>cs_pc := Claiming\<rparr>)"
| exhausted: "\<lbrakk>cs_pc s = Claiming; claim P C s (Inr []) w'; cs_handles s = []\<rbrakk> \<Longrightarrow>
    crawl_step E P C s (s\<lparr>cs_world := w', cs_pc := Exiting (Inr (cs_stats s))\<rparr>)"
| waits: "\<lbrakk>cs_pc s = Claiming; claim P C s (Inr []) w'; cs_handles s \<noteq> []\<rbrakk> \<Longrightarrow>
    crawl_step E P C s (s\<lparr>cs_world := w', cs_handles := [], cs_pc := Joining (cs_handles s)\<rparr>)"
| leaves: "cs_pc s = Exiting r \<Longrightarrow> crawl_step E P C s (s\<lparr>cs_pc := Returned r\<rparr>)"

text \<open>\<open>run_crawl\<close> from the world \<open>w\<close>: after a successful startup, any run of steps.\<close>

inductive crawl_reach :: "env \<Rightarrow> pg \<Rightarrow> crawl_conf \<Rightarrow> world \<Rightarrow> crawl_state \<Rightarrow> bool"
  for E P C w where
  begins: "startup P (cf_anchor C) w = (Inr n, w1) \<Longrightarrow> crawl_reach E P C w (crawl_begin C n w1)"
| steps: "crawl_reach E P C w s \<Longrightarrow> crawl_step E P C s s' \<Longrightarrow> crawl_reach E P C w s'"

text \<open>The arguments \<open>run_crawl\<close> passes: the fallback is off and its closures return nothing.\<close>

definition run_crawl_args :: "kind \<Rightarrow> timestamp \<Rightarrow> u64 \<Rightarrow> nat \<Rightarrow> 16 word \<Rightarrow> batch_args" where
  "run_crawl_args want_kind now clamp cap max_attempts =
     \<lparr>b_kind = want_kind, b_now = now, b_clamp = clamp, b_follow_cap = cap,
      b_max_attempts = max_attempts, b_fallback_enabled = False,
      b_max_write_relays = DEFAULT_NIP65_MAX_WRITE_RELAYS,
      b_health = (\<lambda>_. health_new DEFAULT_HEALTH_ALPHA), b_fallback_fetch = (\<lambda>_ _. Inr []),
      b_relay_list_fetch = (\<lambda>_. Inr [])\<rparr>"

definition run_crawl_conf ::
  "byte list \<Rightarrow> int \<Rightarrow> nat \<Rightarrow> kind \<Rightarrow> timestamp \<Rightarrow> u64 \<Rightarrow> nat \<Rightarrow> 16 word \<Rightarrow> crawl_conf" where
  "run_crawl_conf anchor batch_size concurrency want_kind now clamp cap max_attempts =
     \<lparr>cf_anchor = anchor, cf_batch_size = batch_size, cf_concurrency = concurrency,
      cf_args = {run_crawl_args want_kind now clamp cap max_attempts}\<rparr>"

text \<open>So a batch of \<open>run_crawl\<close> applies what the gate emitted and marks the rest not found.\<close>

lemma run_crawl_no_fallback:
  assumes "B \<in> cf_args (run_crawl_conf anchor n k want_kind now clamp cap max_attempts)"
  shows "author_outcome E B by_author stamp c r d d' \<longleftrightarrow>
    (case Option.bind (sdk_from_slice E (ca_pubkey c)) by_author of
       Some v \<Rightarrow> list_applied E v (ca_id c) r d d'
     | None \<Rightarrow> missed stamp (ca_id c) r d d')"
  using assms
  by (auto simp: run_crawl_conf_def run_crawl_args_def author_outcome_def recovered_def split: option.split)

section \<open>Invariants\<close>

lemma startup_eq:
  assumes A: "alone P" and run: "startup P anchor w = (Inr n, w')"
  shows "length anchor = 32"
    "wdb w' = update_rows orphaned release_row (snd (insert_pubkey anchor (wdb w)))"
proof -
  obtain i w1 where u: "upsert_pubkey P anchor w = (Inr i, w1)"
    and rc: "reclaim_stale_on_startup P w1 = (Inr n, w')"
    using run by (auto simp: startup_def seed_anchor_def bind_io_Inr)
  show l: "length anchor = 32"
    using u by (auto simp: upsert_pubkey_def PUBKEY_LEN_def fail_def split: if_splits)
  have "wdb w1 = snd (insert_pubkey anchor (wdb w))"
    using u l A by (auto simp: upsert_pubkey_def PUBKEY_LEN_def alone_def dest!: exec_Inr)
  then show "wdb w' = update_rows orphaned release_row (snd (insert_pubkey anchor (wdb w)))"
    using rc A by (auto simp: reclaim_stale_on_startup_def release_where_def alone_def dest!: exec_Inr)
qed

lemma startup_Inr:
  assumes A: "alone P" and ok: "db_ok (wdb w)" and run: "startup P anchor w = (Inr n, w')"
  shows "good (wdb w) (wdb w')" and "leased (wdb w') = {}"
proof -
  have "keeps (good (wdb w)) (startup P anchor)" unfolding startup_def by (intro keeps_intros rely_alone [OF A])
  then show "good (wdb w) (wdb w')" using good_refl [OF ok] run by (rule keepsD)
  show "leased (wdb w') = {}"
    by (auto simp: leased_def startup_eq(2) [OF A run] row_by_id_update orphaned_def release_row_def split: if_splits)
qed

text \<open>Once the run has ended well no row is waiting.\<close>

definition crawl_done :: "crawl_conf \<Rightarrow> crawl_state \<Rightarrow> bool" where
  "crawl_done C s \<longleftrightarrow> (\<forall>st. cs_pc s \<in> {Exiting (Inr st), Returned (Inr st)} \<longrightarrow>
     st = cs_stats s \<and> cs_handles s = [] \<and>
     (0 < cf_batch_size C \<longrightarrow> (\<forall>r \<in> set (pubkeys (wdb (cs_world s))). row_status r \<noteq> Discovered)))"

definition crawl_ok :: "crawl_conf \<Rightarrow> crawl_state \<Rightarrow> bool" where
  "crawl_ok C s \<longleftrightarrow> pool_ok C s \<and> exclusive s \<and> crawl_done C s \<and> (\<forall>hs e b. cs_pc s \<noteq> Draining hs e b)
     \<and> cs_pc s \<noteq> Idle"

lemma step_done:
  assumes "pool_step E P C s s'" and "handles_ok s" and "crawl_done C s"
  shows "crawl_done C s'"
proof -
  have stuck: "\<not> (i < length (cs_tasks s) \<and> cs_tasks s ! i = Running b)"
    if "cs_pc s \<in> {Exiting (Inr st), Returned (Inr st)}" for i b st
  proof -
    have "\<forall>t \<in> set (cs_tasks s). \<not> is_running t"
      using that assms(3) all_ended [OF assms(2)] by (auto simp: crawl_done_def)
    then show ?thesis by (metis nth_mem is_running.simps(1))
  qed
  show ?thesis
    using assms(1,3) stuck by cases (auto simp: crawl_done_def)
qed

lemma crawl_step_ok:
  assumes st: "crawl_step E P C s s'" and E: "alone P" "keys_ok E" "orders_ok E" and ok: "crawl_ok C s"
  shows "crawl_ok C s'"
proof -
  have I: "pool_ok C s" "exclusive s" "crawl_done C s" "\<And>hs e b. cs_pc s \<noteq> Draining hs e b" "cs_pc s \<noteq> Idle"
    using ok by (simp_all add: crawl_ok_def)
  note h = pool_okD(3) [OF I(1)] and d = pool_okD(2) [OF I(1)]
  have empty: "good (wdb (cs_world s)) (wdb w')" "leased (wdb w') = leased (wdb (cs_world s))"
    if "claim P C s (Inr []) w'" for w'
    using claim_good [OF E(1) d that] claim_Inr(2) [OF E(1) d that] by simp_all
  show ?thesis using st
  proof cases
    case pool
    then show ?thesis
      using step_pool_ok [OF pool E I(1)] step_exclusive [OF pool E I(1,2)] step_done [OF pool h I(3)] I(4,5)
      by (auto simp: crawl_ok_def elim!: pool_step.cases)
  next
    case again
    have "pool_ok C s'" by (rule pool_ok_move [OF I(1)]) (use again h good_refl [OF d] in \<open>auto simp: handles_ok_def\<close>)
    moreover have "exclusive s'" by (rule exclusive_move [OF I(2)]) (use again in auto)
    ultimately show ?thesis using again by (simp add: crawl_ok_def crawl_done_def)
  next
    case (exhausted w')
    note e = empty [OF exhausted(3)]
    have "pool_ok C s'" by (rule pool_ok_move [OF I(1)]) (use exhausted h e in \<open>auto simp: handles_ok_def\<close>)
    moreover have "exclusive s'" by (rule exclusive_move [OF I(2)]) (use exhausted e in auto)
    moreover have "running s = 0"
    proof -
      have "\<forall>t \<in> set (cs_tasks s). \<not> is_running t" using all_ended [OF h] exhausted by simp
      then show ?thesis using running_live by blast
    qed
    then have "crawl_done C s'"
      using claim_Inr(6) [OF E(1) d exhausted(3)] exhausted by (auto simp: crawl_done_def)
    ultimately show ?thesis using exhausted by (simp add: crawl_ok_def)
  next
    case (waits w')
    note e = empty [OF waits(3)]
    have "pool_ok C s'" by (rule pool_ok_move [OF I(1)]) (use waits h e in \<open>auto simp: handles_ok_def\<close>)
    moreover have "exclusive s'" by (rule exclusive_move [OF I(2)]) (use waits e in auto)
    ultimately show ?thesis using waits by (simp add: crawl_ok_def crawl_done_def)
  next
    case (leaves r)
    have "pool_ok C s'"
      by (cases r; rule pool_ok_move [OF I(1)]; use leaves h good_refl [OF d] in \<open>auto simp: handles_ok_def\<close>)
    moreover have "exclusive s'" by (cases r; rule exclusive_move [OF I(2)]; use leaves in auto)
    ultimately show ?thesis using leaves I(3) by (auto simp: crawl_ok_def crawl_done_def)
  qed
qed

lemma crawl_reach_ok:
  assumes "crawl_reach E P C w s" and E: "alone P" "keys_ok E" "orders_ok E" and "db_ok (wdb w)"
  shows "crawl_ok C s"
  using assms(1)
proof induction
  case (begins n w1)
  note s = startup_Inr [OF E(1) assms(5) begins]
  show ?case
    using s by (simp add: crawl_ok_def crawl_begin_def pool_ok_def handles_ok_def counts_ok_def batches_ok_def
        spawned_def live_def live_ids_def running_def exclusive_def crawl_done_def good_def)
next
  case (steps s s')
  then show ?case using crawl_step_ok [OF _ E] by blast
qed

text \<open>\<open>run_crawl\<close> is such a driver, from any well-formed database with nobody else writing.\<close>

interpretation run_crawl: pool_driver C
  "\<lambda>s. alone P \<and> keys_ok E \<and> orders_ok E \<and> db_ok (wdb w) \<and> crawl_reach E P C w s" for E P C w
proof unfold_locales
  fix s :: crawl_state and st
  assume s: "alone P \<and> keys_ok E \<and> orders_ok E \<and> db_ok (wdb w) \<and> crawl_reach E P C w s"
  then have "crawl_ok C s" using crawl_reach_ok by blast
  then show "pool_ok C s" and "cs_pc s = Returned (Inr st) \<Longrightarrow> st = cs_stats s \<and> cs_handles s = []"
    by (simp_all add: crawl_ok_def crawl_done_def)
qed

lemma keys_of_good: "k \<in> keys_of d \<Longrightarrow> good d d' \<Longrightarrow> k \<in> keys_of d'"
proof -
  assume "k \<in> keys_of d" and g: "good d d'"
  then obtain r where "r \<in> set (pubkeys d)" "k = row_pubkey r" by (auto simp: keys_of_def)
  then have "(row_id r, k) \<in> (\<lambda>r. (row_id r, row_pubkey r)) ` set (pubkeys d')"
    using g by (auto simp: good_def extends_def)
  then show "k \<in> keys_of d'" by (auto simp: keys_of_def)
qed

lemma startup_anchor:
  assumes "alone P" and "startup P anchor w = (Inr n, w')"
  shows "anchor \<in> keys_of (wdb w')"
proof -
  have "anchor \<in> keys_of (snd (insert_pubkey anchor (wdb w)))"
    using row_by_key_Some [of "wdb w" anchor]
    by (cases "row_by_key (wdb w) anchor") (auto simp: keys_of_def pubkeys_insert new_row_def)
  then show ?thesis by (simp add: startup_eq(2) [OF assms] keys_of_update)
qed

lemma good_trans: "good d d1 \<Longrightarrow> good d1 d2 \<Longrightarrow> good d d2"
  by (auto simp: good_def intro: extends_trans)

lemma crawl_step_good:
  assumes "crawl_step E P C s s'" and "alone P" and "db_ok (wdb (cs_world s))"
  shows "good (wdb (cs_world s)) (wdb (cs_world s'))"
  using assms by (induction rule: crawl_step.induct) (auto simp: claim_good step_good good_refl)

lemma crawl_reach_good:
  assumes "crawl_reach E P C w s" and "alone P" and "db_ok (wdb w)"
  shows "good (wdb w) (wdb (cs_world s)) \<and> cf_anchor C \<in> keys_of (wdb (cs_world s))"
  using assms(1)
proof induction
  case (begins n w1)
  then show ?case
    using startup_Inr(1) [OF assms(2,3) begins] startup_anchor [OF assms(2) begins]
    by (simp add: crawl_begin_def)
next
  case (steps s s')
  then have "good (wdb (cs_world s)) (wdb (cs_world s'))"
    using crawl_step_good [OF _ assms(2)] by (auto simp: good_def)
  then show ?case using steps(3) keys_of_good good_trans by blast
qed

section \<open>The queue, abstractly\<close>

text \<open>
  What the status column is meant to be: a queue from which authors are leased, each lease
  being settled once, and into which new authors are put.
\<close>

definition statuses :: "db \<Rightarrow> int \<Rightarrow> status option" where
  "statuses d i = map_option row_status (row_by_id d i)"

inductive frontier_step :: "(int \<Rightarrow> status option) \<Rightarrow> (int \<Rightarrow> status option) \<Rightarrow> bool" where
  idle: "frontier_step st st"
| lease: "\<forall>i \<in> A. st i = Some Discovered
    \<Longrightarrow> frontier_step st (\<lambda>i. if i \<in> A then Some In_Progress else st i)"
| settle: "\<forall>i \<in> A. st i = Some In_Progress \<and> st' i \<notin> {None, Some In_Progress}
    \<Longrightarrow> \<forall>i. i \<notin> A \<longrightarrow> st' i = st i \<or> st i = None \<and> st' i = Some Discovered
    \<Longrightarrow> frontier_step st st'"

lemma claim_refines:
  assumes "alone P" and "db_ok (wdb (cs_world s))" and "claim P C s (Inr cs) w'"
  shows "frontier_step (statuses (wdb (cs_world s))) (statuses (wdb w'))"
proof -
  let ?I = "ca_id ` set cs"
  note c = claim_Inr [OF assms]
  have eq: "statuses (wdb w') = (\<lambda>i. if i \<in> ?I then Some In_Progress else statuses (wdb (cs_world s)) i)"
  proof
    fix i show "statuses (wdb w') i = (if i \<in> ?I then Some In_Progress else statuses (wdb (cs_world s)) i)"
    proof (cases "i \<in> ?I")
      case True
      then have "i \<in> leased (wdb w')" using c(2) by blast
      then show ?thesis using True by (auto simp: statuses_def leased_def)
    qed (simp add: statuses_def c(4))
  qed
  show ?thesis unfolding eq
    by (rule frontier_step.lease) (use c(5) in \<open>fastforce simp: statuses_def\<close>)
qed

lemma batch_refines:
  assumes "resolved I d d'" and "I \<subseteq> leased d" and "extends d d'"
  shows "frontier_step (statuses d) (statuses d')"
proof (rule frontier_step.settle [of I])
  show "\<forall>i \<in> I. statuses d i = Some In_Progress \<and> statuses d' i \<notin> {None, Some In_Progress}"
  proof
    fix i assume i: "i \<in> I"
    then obtain r where r: "row_by_id d i = Some r" "row_status r = In_Progress"
      using assms(2) by (auto simp: leased_def)
    have "i \<in> ids d'" using row_by_id_ids [OF r(1)] ids_extends [OF assms(3)] by blast
    then obtain r' where r': "row_by_id d' i = Some r'" using row_by_id_None [of d' i] by auto
    then have "row_status r' \<noteq> In_Progress" using assms(1) i by (simp add: resolved_def)
    then show "statuses d i = Some In_Progress \<and> statuses d' i \<notin> {None, Some In_Progress}"
      using r r' by (simp add: statuses_def)
  qed
  show "\<forall>i. i \<notin> I \<longrightarrow> statuses d' i = statuses d i \<or> statuses d i = None \<and> statuses d' i = Some Discovered"
  proof (intro allI impI)
    fix i assume i: "i \<notin> I"
    show "statuses d' i = statuses d i \<or> statuses d i = None \<and> statuses d' i = Some Discovered"
    proof (cases "row_by_id d i")
      case (Some r)
      then have "row_by_id d' i = Some r" using assms(1) i by (simp add: resolved_def)
      then show ?thesis using Some by (simp add: statuses_def)
    next
      case None
      then have "row_status r = Discovered" if "row_by_id d' i = Some r" for r
        using that assms(1) i by (simp add: resolved_def)
      then show ?thesis using None by (cases "row_by_id d' i") (simp_all add: statuses_def)
    qed
  qed
qed

lemma pool_refines:
  assumes st: "pool_step E P C s s'" and E: "alone P" "keys_ok E" "orders_ok E"
    and inv: "pool_ok C s" "exclusive s" and h: "healthy s'"
  shows "frontier_step (statuses (wdb (cs_world s))) (statuses (wdb (cs_world s')))"
  using st
proof (cases rule: pool_step_view)
  case moves
  then show ?thesis by (simp add: frontier_step.idle)
next
  case (takes cs)
  then show ?thesis using claim_refines [OF E(1) pool_okD(2) [OF inv(1)]] by blast
next
  case (ends P' B b u res xs ys)
  obtain n where n: "P' = P" "res = Inr n" "healthy s" using ends(5) [OF h] by blast
  have d: "db_ok (wdb (cs_world s))" by (rule pool_okD(2) [OF inv(1)])
  have b: "batch_ok (cf_batch_size C) (wdb (cs_world s)) b"
    using pool_okD(5) [OF inv(1)] ends(1) by (simp add: batches_ok_def)
  have "resolved (ca_id ` set b) (wdb (cs_world s)) (wdb (cs_world s'))"
    using batch_resolves [OF E d, of b B u n "cs_world s'"] ends(3) n b by (simp add: batch_ok_def)
  moreover have "ca_id ` set b \<subseteq> leased (wdb (cs_world s))"
    using inv(2) n(3) concat_hole [of xs b ys] by (auto simp: exclusive_def live_ids_def ends(1))
  ultimately show ?thesis using step_good [OF st E(1) d] by (intro batch_refines) (auto simp: good_def)
qed (use h in simp)

section \<open>A run\<close>

text \<open>From the empty database, one author for whom no relay has a list.\<close>

definition demo_row :: pubkey_row where "demo_row = new_row 1 (sdk_to_bytes demo_env 7)"

definition demo_at :: "nat \<Rightarrow> pubkey_row \<Rightarrow> world" where
  "demo_at n r = \<lparr>wdb = \<lparr>pubkeys = [r], next_id = 2, follows = [], pubkey_relays = []\<rparr>,
     wtick = n, wmet = (\<lambda>_. 0)\<rparr>"

definition demo_empty :: world where "demo_empty = \<lparr>wdb = empty_db, wtick = 0, wmet = (\<lambda>_. 0)\<rparr>"

definition demo_conf :: crawl_conf where
  "demo_conf = \<lparr>cf_anchor = sdk_to_bytes demo_env 7, cf_batch_size = 1, cf_concurrency = 1,
     cf_args = {demo_args}\<rparr>"

lemma demo_startup: "startup demo_pg (sdk_to_bytes demo_env 7) demo_empty = (Inr 0, demo_at 2 demo_row)"
  using to_bytes_length [OF demo_keys_ok, of 7]
  by (simp add: startup_def seed_anchor_def bind_io_step upsert_quiet [OF quiet_demo] demo_empty_def
      insert_pubkey_def empty_db_def row_by_key_def reclaim_stale_on_startup_def
      exec_quiet [OF quiet_demo] release_where_def rows_affected_def orphaned_def demo_at_def
      update_rows_def demo_row_def new_row_def)

lemma demo_claims: "claim demo_pg demo_conf (s\<lparr>cs_world := demo_at n demo_row\<rparr>) (Inr [demo_claim]) (demo_at (Suc n) (lease_row (int n) demo_row))"
  unfolding claim_def
  by (rule exI [of _ "\<lambda>_ _. False"])
    (simp add: claim_batch_def exec_def demo_pg_def demo_conf_def claim_stmt_def claimable_def demo_at_def
      demo_row_def new_row_def Let_def update_rows_def claimed_author_of_def demo_claim_def)

lemma demo_no_events: "acquire_validated_lists demo_env req k now clamp cap (Inr []) m = (Inr [], m)"
  by (simp add: acquire_validated_lists_def ingest_events_def demo_env_def)

lemma demo_process: "process_batch demo_env demo_pg demo_args [demo_claim] (Inr []) (demo_at n (lease_row t demo_row))
   = (Inr 0, demo_at (Suc n) ((lease_row t demo_row)\<lparr>row_status := Not_Found, last_fetched_at := Some (timestamp_to_datetime demo_env 150)\<rparr>))"
  using demo_claim_author
  by (simp add: process_batch_def Let_def bind_io_def tally_def demo_args_def demo_no_events
      settle_author_def index_by_author_def ret_def)
    (simp add: set_fetch_status_def exec_quiet [OF quiet_demo] set_status_stmt_def demo_at_def row_by_id_def
      lease_row_def demo_row_def new_row_def demo_claim_def status_of_def update_rows_def ret_def)

definition demo_missed :: pubkey_row where
  "demo_missed = (lease_row 2 demo_row)\<lparr>row_status := Not_Found, last_fetched_at := Some (timestamp_to_datetime demo_env 150)\<rparr>"

lemma demo_exhausted:
  "claim demo_pg demo_conf (s\<lparr>cs_world := demo_at n demo_missed\<rparr>) (Inr []) (demo_at (Suc n) demo_missed)"
  unfolding claim_def
  by (rule exI [of _ "\<lambda>_ _. False"])
    (simp add: claim_batch_def exec_def demo_pg_def demo_conf_def claim_stmt_def claimable_def demo_at_def
      demo_row_def new_row_def Let_def update_rows_def demo_missed_def lease_row_def)

definition demo_state :: "pc \<Rightarrow> world \<Rightarrow> task list \<Rightarrow> nat list \<Rightarrow> nat \<Rightarrow> crawl_state" where
  "demo_state q w ts hs n = \<lparr>cs_world = w, cs_permits = 1 - length (filter is_running ts), cs_tasks = ts, cs_handles = hs,
     cs_stats = \<lparr>reclaimed_on_startup = 0, authors_claimed = n, batches_processed = n\<rparr>, cs_pc = q\<rparr>"

lemma demo_midway:
  "crawl_reach demo_env demo_pg demo_conf demo_empty
     (demo_state Spawned (demo_at 3 (lease_row 2 demo_row)) [Running [demo_claim]] [0] 1)"
proof -
  let ?R = "crawl_reach demo_env demo_pg demo_conf demo_empty"
  let ?S = "crawl_step demo_env demo_pg demo_conf"
  let ?P = "pool_step demo_env demo_pg demo_conf"
  let ?r = "lease_row 2 demo_row"
  have 0: "?R (demo_state Top (demo_at 2 demo_row) [] [] 0)"
    using crawl_reach.begins [of demo_pg demo_conf demo_empty 0] demo_startup
    by (simp add: demo_conf_def crawl_begin_def demo_state_def)
  have 1: "?S (demo_state Top w [] [] 0) (demo_state Claiming w [] [] 0)" for w
    using crawl_step.again [where s = "demo_state Top w [] [] 0"] by (simp add: demo_state_def)
  have "?P (demo_state Claiming (demo_at 2 demo_row) [] [] 0)
      (demo_state (Claimed [demo_claim]) (demo_at 3 ?r) [] [] 1)"
    using pool_step.claims [where s = "demo_state Claiming (demo_at 2 demo_row) [] [] 0" and batch = "[demo_claim]"]
      demo_claims [where s = "demo_state Claiming (demo_at 2 demo_row) [] [] 0" and n = 2]
    by (simp add: demo_state_def counted_def numeral_3_eq_3)
  note 2 = crawl_step.pool [OF this]
  have "?P (demo_state (Claimed [demo_claim]) w [] [] 1) (demo_state Spawned w [Running [demo_claim]] [0] 1)" for w
    using pool_step.spawns [where s = "demo_state (Claimed [demo_claim]) w [] [] 1"] by (simp add: demo_state_def)
  note 3 = crawl_step.pool [OF this]
  show ?thesis by (rule crawl_reach.steps [OF crawl_reach.steps [OF crawl_reach.steps [OF 0 1] 2] 3])
qed

lemma demo_ends:
  "crawl_step demo_env demo_pg demo_conf
     (demo_state Spawned (demo_at 3 (lease_row 2 demo_row)) [Running [demo_claim]] [0] 1)
     (demo_state Spawned (demo_at 4 demo_missed) [Ended [demo_claim] (Finished (Inr ()))] [0] 1)"
  using pool_step.ends [where i = 0 and s = "demo_state Spawned (demo_at 3 (lease_row 2 demo_row)) [Running [demo_claim]] [0] 1"
      and batch = "[demo_claim]" and B = demo_args and C = demo_conf and E = demo_env and P = demo_pg and u = "Inr []"] demo_process [of 3 2]
  by (intro crawl_step.pool) (simp add: demo_state_def demo_conf_def demo_missed_def)

lemma demo_run:
  "\<exists>s. crawl_reach demo_env demo_pg demo_conf demo_empty s
     \<and> cs_pc s = Returned (Inr \<lparr>reclaimed_on_startup = 0, authors_claimed = 1, batches_processed = 1\<rparr>)"
proof -
  let ?R = "crawl_reach demo_env demo_pg demo_conf demo_empty"
  let ?S = "crawl_step demo_env demo_pg demo_conf"
  let ?P = "pool_step demo_env demo_pg demo_conf"
  let ?t = "Ended [demo_claim] (Finished (Inr ()))"
  have "?P (demo_state Spawned w [?t] [0] 1) (demo_state (Joining [0]) w [?t] [] 1)" for w
    using pool_step.reaps [where s = "demo_state Spawned w [?t] [0] 1" and fin = "\<lambda>_. True"] by (simp add: demo_state_def)
  note 5 = crawl_step.pool [OF this]
  have "?P (demo_state (Joining [0]) w [?t] [] 1) (demo_state (Joining []) w [?t] [] 1)" for w
    using pool_step.joins [where s = "demo_state (Joining [0]) w [?t] [] 1" and h = 0 and hs = "[]"]
    by (simp add: demo_state_def join_worker_def)
  note 6 = crawl_step.pool [OF this]
  have "?P (demo_state (Joining []) w [?t] [] 1) (demo_state Top w [?t] [] 1)" for w
    using pool_step.joined [where s = "demo_state (Joining []) w [?t] [] 1"] by (simp add: demo_state_def)
  note 7 = crawl_step.pool [OF this]
  have 8: "?S (demo_state Top w [?t] [] 1) (demo_state Claiming w [?t] [] 1)" for w
    using crawl_step.again [where s = "demo_state Top w [?t] [] 1"] by (simp add: demo_state_def)
  have 9: "?S (demo_state Claiming (demo_at 4 demo_missed) [?t] [] 1)
      (demo_state (Exiting (Inr (cs_stats (demo_state Top demo_empty [] [] 1)))) (demo_at 5 demo_missed) [?t] [] 1)"
    using crawl_step.exhausted [where s = "demo_state Claiming (demo_at 4 demo_missed) [?t] [] 1"]
      demo_exhausted [where s = "demo_state Claiming (demo_at 4 demo_missed) [?t] [] 1" and n = 4]
    by (simp add: demo_state_def)
  have 10: "?S (demo_state (Exiting r) w [?t] [] 1) (demo_state (Returned r) w [?t] [] 1)" for r w
    using crawl_step.leaves [where s = "demo_state (Exiting r) w [?t] [] 1" and r = r] by (simp add: demo_state_def)
  note st = crawl_reach.steps
  have "?R (demo_state (Returned (Inr (cs_stats (demo_state Top demo_empty [] [] 1)))) (demo_at 5 demo_missed) [?t] [] 1)"
    by (rule st [OF st [OF st [OF st [OF st [OF st [OF st [OF demo_midway demo_ends] 5] 6] 7] 8] 9] 10])
  then show ?thesis by (intro exI conjI) (assumption, simp add: demo_state_def)
qed

lemma demo_alone: "alone demo_pg"
  by (rule alone_quiet [OF quiet_demo])

lemma demo_empty_ok: "db_ok (wdb demo_empty)"
  by (simp add: demo_empty_def db_ok_empty)

section \<open>What run_crawl promises\<close>

text \<open>
  C2. \<open>run_crawl\<close> returns success only when the component is exhausted: then every row the
  database has, the anchor's and those discovered on the way, is fetched, not found or
  failed; no lease is left, every worker has ended without an error and given its permit
  back, and the statistics count each batch and each claimed author once. No row that was
  there before is lost.
\<close>

theorem crawl_completes:
  assumes "alone P" and "keys_ok E" and "orders_ok E" and "db_ok (wdb w)" and "0 < cf_batch_size C"
    and "crawl_reach E P C w s" and "cs_pc s = Returned (Inr st)"
  shows "(\<forall>r \<in> set (pubkeys (wdb (cs_world s))). row_status r \<in> {Fetched, Not_Found, Failed})
    \<and> cf_anchor C \<in> keys_of (wdb (cs_world s)) \<and> extends (wdb w) (wdb (cs_world s))
    \<and> (\<forall>t \<in> set (cs_tasks s). \<exists>b. t = Ended b (Finished (Inr ())))
    \<and> cs_permits s = cf_concurrency C
    \<and> batches_processed st = length (cs_tasks s)
    \<and> authors_claimed st = length (concat (map batch_of (cs_tasks s)))"
proof -
  have r: "alone P \<and> keys_ok E \<and> orders_ok E \<and> db_ok (wdb w) \<and> crawl_reach E P C w s"
    using assms by simp
  note fin = run_crawl.clean_end [OF r assms(7)]
  have "\<forall>r \<in> set (pubkeys (wdb (cs_world s))). row_status r \<noteq> Discovered"
    using crawl_reach_ok [OF assms(6,1-4)] assms(5,7) by (simp add: crawl_ok_def crawl_done_def)
  then have "row_status r \<in> {Fetched, Not_Found, Failed}" if "r \<in> set (pubkeys (wdb (cs_world s)))" for r
    using that fin(4) by (cases "row_status r") auto
  then show ?thesis using fin crawl_reach_good [OF assms(6,1,4)] by (auto simp: good_def)
qed

theorem crawl_completes_witness:
  "\<exists>s. crawl_reach demo_env demo_pg demo_conf demo_empty s
     \<and> sdk_to_bytes demo_env 7 \<in> keys_of (wdb (cs_world s)) \<and> length (cs_tasks s) = 1
     \<and> (\<forall>r \<in> set (pubkeys (wdb (cs_world s))). row_status r \<in> {Fetched, Not_Found, Failed})"
proof -
  obtain s where s: "crawl_reach demo_env demo_pg demo_conf demo_empty s"
    "cs_pc s = Returned (Inr \<lparr>reclaimed_on_startup = 0, authors_claimed = 1, batches_processed = 1\<rparr>)"
    using demo_run by blast
  show ?thesis
    using crawl_completes [OF demo_alone demo_keys_ok demo_orders_ok demo_empty_ok _ s] s(1)
    by (auto simp: demo_conf_def)
qed

text \<open>
  The database's lease and the pool's work agree: while no worker has failed and no error
  is being returned, the rows in progress are exactly the authors of the batches in flight,
  and no author is in two of them, in every state of every run.
\<close>

theorem crawl_exclusive:
  assumes "alone P" and "keys_ok E" and "orders_ok E" and "db_ok (wdb w)"
    and "crawl_reach E P C w s" and "healthy s"
  shows "set (live_ids s) = leased (wdb (cs_world s)) \<and> distinct (live_ids s)"
proof -
  have "pool_ok C s" "exclusive s" using crawl_reach_ok [OF assms(5,1-4)] by (simp_all add: crawl_ok_def)
  then show ?thesis using pool_okD(6) [of C s] assms(6) by (auto simp: exclusive_def)
qed

theorem crawl_exclusive_witness:
  "\<exists>s. crawl_reach demo_env demo_pg demo_conf demo_empty s \<and> running s = 1
     \<and> leased (wdb (cs_world s)) = {1} \<and> live_ids s = [1]"
proof -
  let ?s = "demo_state Spawned (demo_at 3 (lease_row 2 demo_row)) [Running [demo_claim]] [0] 1"
  have h: "healthy ?s" by (simp add: healthy_def demo_state_def)
  have l: "live_ids ?s = [1]" by (simp add: live_ids_def live_def demo_state_def demo_claim_def)
  show ?thesis
    using crawl_exclusive [OF demo_alone demo_keys_ok demo_orders_ok demo_empty_ok demo_midway h] demo_midway l
    by (auto simp: running_def demo_state_def)
qed

text \<open>
  C25. Backpressure: at every moment of every run at most \<open>concurrency\<close> batches, and so at most
  \<open>concurrency * batch_size\<close> authors, are being fetched, and the permits account for every
  worker, whatever fails.
\<close>

theorem crawl_bounded:
  assumes "alone P" and "keys_ok E" and "orders_ok E" and "db_ok (wdb w)"
    and "crawl_reach E P C w s"
  shows "cs_permits s + running s = cf_concurrency C
    \<and> length (concat (map in_flight (cs_tasks s))) \<le> cf_concurrency C * nat (cf_batch_size C)"
proof -
  have "alone P \<and> keys_ok E \<and> orders_ok E \<and> db_ok (wdb w) \<and> crawl_reach E P C w s"
    using assms by simp
  then show ?thesis by (rule run_crawl.bounded)
qed

theorem crawl_bounded_witness:
  "\<exists>s. crawl_reach demo_env demo_pg demo_conf demo_empty s
     \<and> length (concat (map in_flight (cs_tasks s))) = 1 \<and> cs_permits s = 0
     \<and> cs_permits s + running s = 1"
  using crawl_bounded [OF demo_alone demo_keys_ok demo_orders_ok demo_empty_ok demo_midway] demo_midway
  by (intro exI [of _ "demo_state Spawned (demo_at 3 (lease_row 2 demo_row)) [Running [demo_claim]] [0] 1"])
    (simp add: demo_conf_def demo_state_def)

text \<open>
  C9. Refinement: as long as no worker fails, every step of a run is a step of the abstract
  queue. Authors are leased out of the discovered ones only, a lease is settled by its own
  batch, once, to a status other than in progress, new authors enter as discovered, and a
  settled author is never touched again.
\<close>

theorem crawl_refines:
  assumes "alone P" and "keys_ok E" and "orders_ok E" and "db_ok (wdb w)"
    and "crawl_reach E P C w s" and "crawl_step E P C s s'" and "healthy s'"
  shows "frontier_step (statuses (wdb (cs_world s))) (statuses (wdb (cs_world s')))"
proof -
  have I: "pool_ok C s" "exclusive s" using crawl_reach_ok [OF assms(5,1-4)] by (simp_all add: crawl_ok_def)
  note d = pool_okD(2) [OF I(1)]
  show ?thesis using assms(6)
  proof cases
    case pool
    then show ?thesis using pool_refines [OF _ assms(1-3) I assms(7)] by blast
  next
    case (exhausted w')
    then show ?thesis using claim_refines [OF assms(1) d] by auto
  next
    case (waits w')
    then show ?thesis using claim_refines [OF assms(1) d] by auto
  qed (simp_all add: frontier_step.idle)
qed

theorem crawl_refines_witness:
  "\<exists>s s'. crawl_reach demo_env demo_pg demo_conf demo_empty s \<and> crawl_step demo_env demo_pg demo_conf s s'
     \<and> leased (wdb (cs_world s)) = {1} \<and> leased (wdb (cs_world s')) = {}
     \<and> frontier_step (statuses (wdb (cs_world s))) (statuses (wdb (cs_world s')))"
proof -
  let ?s = "demo_state Spawned (demo_at 3 (lease_row 2 demo_row)) [Running [demo_claim]] [0] 1"
  let ?s' = "demo_state Spawned (demo_at 4 demo_missed) [Ended [demo_claim] (Finished (Inr ()))] [0] 1"
  have h: "healthy ?s'" by (simp add: healthy_def demo_state_def join_worker_def)
  have l: "leased (wdb (cs_world ?s)) = {1}" "leased (wdb (cs_world ?s')) = {}"
    by (auto simp: leased_def demo_state_def demo_at_def row_by_id_def lease_row_def demo_missed_def
        demo_row_def new_row_def split: if_splits)
  show ?thesis
    using crawl_refines [OF demo_alone demo_keys_ok demo_orders_ok demo_empty_ok demo_midway demo_ends h]
      demo_midway demo_ends l by blast
qed

text \<open>
  A run never gets stuck: with at least one permit, every state that is not the end of
  the run has a next step, whatever has failed. So a worker's error cannot leave the driver
  waiting for a permit or for a worker that will not end.
\<close>

theorem crawl_progress:
  assumes "alone P" and "keys_ok E" and "orders_ok E" and "db_ok (wdb w)"
    and "crawl_reach E P C w s" and "0 < cf_concurrency C" and "cf_args C \<noteq> {}"
    and "\<forall>r. cs_pc s \<noteq> Returned r"
  shows "\<exists>s'. crawl_step E P C s s'"
proof -
  have ok: "crawl_ok C s" by (rule crawl_reach_ok [OF assms(5,1-4)])
  then have I: "pool_ok C s" "\<And>hs e b. cs_pc s \<noteq> Draining hs e b" by (simp_all add: crawl_ok_def)
  show ?thesis
  proof (cases "\<exists>q. pool_step E P C s q")
    case True
    then show ?thesis using crawl_step.pool by blast
  next
    case False
    then consider "cs_pc s = Top" | "cs_pc s = Claiming" | r where "cs_pc s = Exiting r" | "cs_pc s = Idle"
      using pool_progress [OF I(1) assms(6,7)] I(2) assms(8) by (cases "cs_pc s") auto
    then show ?thesis
    proof cases
      case 1
      then show ?thesis using crawl_step.again by blast
    next
      case 2
      then show ?thesis
        using claim_progress [of s E P C] False crawl_step.exhausted crawl_step.waits by blast
    next
      case 3
      then show ?thesis using crawl_step.leaves by blast
    next
      case 4
      then show ?thesis using ok by (simp add: crawl_ok_def)
    qed
  qed
qed

theorem crawl_progress_witness:
  "\<exists>s'. crawl_step demo_env demo_pg demo_conf
     (demo_state Spawned (demo_at 3 (lease_row 2 demo_row)) [Running [demo_claim]] [0] 1) s'"
  using crawl_progress [OF demo_alone demo_keys_ok demo_orders_ok demo_empty_ok demo_midway]
  by (simp add: demo_conf_def demo_state_def)

end
