(* ===== verification/Observe.thy ===== *)
theory Observe imports Health begin

text \<open>
  \<open>src/daemon/observe.rs\<close>: the names of the exported metrics, the histogram buckets, the three
  routes of the observability server and its two health checks. The recorder, the tracing
  subscriber and the HTTP server are library code: what the recorder renders and how the
  database answers the ping are arguments.
\<close>

section \<open>Names and buckets\<close>

definition METRIC_FRONTIER_DEPTH :: string where "METRIC_FRONTIER_DEPTH = ''frontier_depth''"
definition METRIC_COVERAGE :: string where "METRIC_COVERAGE = ''crawl_coverage_ratio''"
definition METRIC_FETCH_DURATION :: string where "METRIC_FETCH_DURATION = ''fetch_duration_seconds''"
definition METRIC_STALENESS_AGE :: string where "METRIC_STALENESS_AGE = ''staleness_age_seconds''"
definition METRIC_RELAY_FAILURES :: string where "METRIC_RELAY_FAILURES = ''relay_consecutive_failures''"
definition METRIC_RELAY_ACTIVE :: string where "METRIC_RELAY_ACTIVE = ''relay_active_count''"
definition METRIC_RELAY_HEALTH :: string where "METRIC_RELAY_HEALTH = ''relay_health''"
definition METRIC_RELAY_CONCURRENCY :: string where "METRIC_RELAY_CONCURRENCY = ''relay_concurrency_in_use''"

definition FETCH_DURATION_BUCKETS :: "real list" where
  "FETCH_DURATION_BUCKETS = [1 / 10, 1 / 4, 1 / 2, 1, 2, 5, 10, 30, 60]"

definition STALENESS_AGE_BUCKETS :: "real list" where
  "STALENESS_AGE_BUCKETS = [300, 900, 3600, 21600, 43200, 86400, 172800, 259200, 604800]"

definition configured_builder :: "(string \<times> real list) list" where
  "configured_builder = [(METRIC_FETCH_DURATION, FETCH_DURATION_BUCKETS),
     (METRIC_STALENESS_AGE, STALENESS_AGE_BUCKETS)]"

text \<open>The builder refuses an empty list of buckets; the \<open>expect\<close> that there is none is right.\<close>

lemma configured_buckets:
  "(name, buckets) \<in> set configured_builder \<Longrightarrow> buckets \<noteq> [] \<and> sorted_wrt (<) buckets"
  by (auto simp: configured_builder_def FETCH_DURATION_BUCKETS_def STALENESS_AGE_BUCKETS_def)

section \<open>The server\<close>

definition READY_PING_TIMEOUT :: duration where "READY_PING_TIMEOUT = 500 * 10 ^ 6"

datatype http_status = OK | SERVICE_UNAVAILABLE

definition live_handler :: http_status where "live_handler = OK"

text \<open>The ping: how long the query would take, and whether it succeeds.\<close>

definition ready_handler :: "bool \<Rightarrow> duration \<Rightarrow> bool \<Rightarrow> http_status" where
  "ready_handler loop_alive ping_time ping_ok =
     (if \<not> loop_alive then SERVICE_UNAVAILABLE
      else if ping_time < READY_PING_TIMEOUT \<and> ping_ok then OK
      else SERVICE_UNAVAILABLE)"

datatype reply = Exposition ustring | Status http_status

definition router :: "ustring \<Rightarrow> bool \<Rightarrow> duration \<Rightarrow> bool \<Rightarrow> string \<Rightarrow> reply option" where
  "router rendered loop_alive ping_time ping_ok path =
     (if path = ''/metrics'' then Some (Exposition rendered)
      else if path = ''/health/live'' then Some (Status live_handler)
      else if path = ''/health/ready'' then Some (Status (ready_handler loop_alive ping_time ping_ok))
      else None)"

lemma ready_OK:
  "ready_handler loop_alive ping_time ping_ok = OK
     \<longleftrightarrow> loop_alive \<and> ping_time < READY_PING_TIMEOUT \<and> ping_ok"
  by (simp add: ready_handler_def)

end
