(* ===== verification/Sampler.thy ===== *)
theory Sampler imports Frontier Rate_Limit Observe begin

text \<open>
  \<open>src/daemon/sampler.rs\<close>: the daemon's timers. The frontier counts are folded from the grouped
  aggregate, whose row order the server chooses; the gauges of a sample are a list of names,
  labels and values; the two sweeps are those of \<open>Frontier\<close> with their counters. All four
  tasks are one loop, \<open>ticking\<close>, over what the \<open>select!\<close> returns, until the cancellation; with a
  period of zero the task panics before it.
\<close>

section \<open>The frontier counts\<close>

record frontier_counts =
  n_discovered :: int
  n_in_progress :: int
  n_fetched :: int
  n_not_found :: int
  n_failed :: int
  n_total :: int

definition no_counts :: frontier_counts where
  "no_counts = \<lparr>n_discovered = 0, n_in_progress = 0, n_fetched = 0, n_not_found = 0, n_failed = 0,
     n_total = 0\<rparr>"

text \<open>The text of a status, as the column holds it.\<close>

fun status_text :: "status \<Rightarrow> string" where
  "status_text Discovered = ''discovered''"
| "status_text In_Progress = ''in_progress''"
| "status_text Fetched = ''fetched''"
| "status_text Not_Found = ''not_found''"
| "status_text Failed = ''failed''"

definition bump :: "string \<Rightarrow> int \<Rightarrow> frontier_counts \<Rightarrow> frontier_counts" where
  "bump status n counts =
     (let counts1 =
        (if status = ''discovered'' then counts\<lparr>n_discovered := n\<rparr>
         else if status = ''in_progress'' then counts\<lparr>n_in_progress := n\<rparr>
         else if status = ''fetched'' then counts\<lparr>n_fetched := n\<rparr>
         else if status = ''not_found'' then counts\<lparr>n_not_found := n\<rparr>
         else if status = ''failed'' then counts\<lparr>n_failed := n\<rparr>
         else counts)
      in counts1\<lparr>n_total := n_total counts1 + n\<rparr>)"

fun count_rows :: "(string \<times> int option) list \<Rightarrow> frontier_counts \<Rightarrow> frontier_counts" where
  "count_rows [] counts = counts"
| "count_rows ((status, cnt) # rows) counts =
     count_rows rows (bump status (case cnt of Some n \<Rightarrow> n | None \<Rightarrow> 0) counts)"

text \<open>\<open>SELECT status, COUNT(*) FROM pubkeys GROUP BY status\<close>, in some order of the groups.\<close>

definition rows_with :: "db \<Rightarrow> status \<Rightarrow> int" where
  "rows_with d st = int (length (filter (\<lambda>r. row_status r = st) (pubkeys d)))"

definition status_groups :: "db \<Rightarrow> (string \<times> int option) list" where
  "status_groups d = map (\<lambda>st. (status_text st, Some (rows_with d st))) (remdups (map row_status (pubkeys d)))"

definition frontier_counts ::
  "pg \<Rightarrow> ((string \<times> int option) list \<Rightarrow> (string \<times> int option) list) \<Rightarrow> frontier_counts io" where
  "frontier_counts P agg_order =
     bind_io (exec P (\<lambda>n d. Inr (agg_order (status_groups d), d)))
       (\<lambda>rows. ret (count_rows rows no_counts))"

definition coverage :: "(real \<Rightarrow> real) \<Rightarrow> frontier_counts \<Rightarrow> real" where
  "coverage rnd c =
     (if n_total c = 0 then 0 else rnd (rnd (of_int (n_fetched c)) / rnd (of_int (n_total c))))"

section \<open>A sample\<close>

definition terminal :: "status \<Rightarrow> bool" where
  "terminal st \<longleftrightarrow> st \<in> {Fetched, Not_Found, Failed}"

definition age_of :: "(real \<Rightarrow> real) \<Rightarrow> datetime \<Rightarrow> pubkey_row \<Rightarrow> real option" where
  "age_of rnd now r = map_option (\<lambda>t. rnd (of_int (now - t) / 10 ^ 6)) (last_fetched_at r)"

definition staleness_ages :: "pg \<Rightarrow> (real \<Rightarrow> real) \<Rightarrow> real list io" where
  "staleness_ages P rnd = exec P (\<lambda>n d.
     Inr (List.map_filter (age_of rnd (pg_now P n))
       (take 1000 (sort_key (\<lambda>r. the (last_fetched_at r))
         (filter (\<lambda>r. terminal (row_status r) \<and> last_fetched_at r \<noteq> None) (pubkeys d)))), d))"

text \<open>A gauge or histogram entry: its name, its \<open>relay\<close> label, the value.\<close>

type_synonym observation = "string \<times> ustring option \<times> real"

definition relay_gauges ::
  "(real \<Rightarrow> real) \<Rightarrow> limiter_registry \<Rightarrow> health \<Rightarrow> ustring list \<Rightarrow> observation list" where
  "relay_gauges rnd R H relays =
     [(METRIC_RELAY_ACTIVE, None, rnd (of_nat (active_relay_count R))),
      (METRIC_RELAY_FAILURES, None,
        rnd (of_nat (fold max (map (\<lambda>r. unat (failure_count R r)) relays) 0)))]
     @ concat (map (\<lambda>r. [(METRIC_RELAY_HEALTH, Some r, score H r),
         (METRIC_RELAY_CONCURRENCY, Some r, rnd (of_nat (unat (in_use H r))))]) relays)"

definition sample_tick ::
  "pg \<Rightarrow> ((string \<times> int option) list \<Rightarrow> (string \<times> int option) list) \<Rightarrow> (real \<Rightarrow> real)
   \<Rightarrow> limiter_registry \<Rightarrow> health \<Rightarrow> ustring list \<Rightarrow> world \<Rightarrow> observation list \<times> world" where
  "sample_tick P agg_order rnd R H relays w =
     (let (counts, w1) = frontier_counts P agg_order w;
          (ages, w2) = staleness_ages P rnd w1
      in ((case counts of
             Inl _ \<Rightarrow> []
           | Inr c \<Rightarrow> [(METRIC_FRONTIER_DEPTH, None, rnd (of_int (n_discovered c))),
                       (METRIC_COVERAGE, None, coverage rnd c)])
          @ (case ages of
               Inl _ \<Rightarrow> []
             | Inr xs \<Rightarrow> map (\<lambda>a. (METRIC_STALENESS_AGE, None, a)) xs)
          @ relay_gauges rnd R H relays, w2))"

text \<open>One line of the progress log: its fields.\<close>

definition progress_tick ::
  "pg \<Rightarrow> ((string \<times> int option) list \<Rightarrow> (string \<times> int option) list) \<Rightarrow> (real \<Rightarrow> real) \<Rightarrow> world
   \<Rightarrow> (string \<times> real) list \<times> world" where
  "progress_tick P agg_order rnd w =
     (case frontier_counts P agg_order w of
        (Inl _, w1) \<Rightarrow> ([], w1)
      | (Inr c, w1) \<Rightarrow>
          ([(''frontier'', of_int (n_discovered c)), (''in_progress'', of_int (n_in_progress c)),
            (''fetched'', of_int (n_fetched c)), (''not_found'', of_int (n_not_found c)),
            (''failed'', of_int (n_failed c)), (''total'', of_int (n_total c)),
            (''coverage_pct'', rnd (coverage rnd c * 100))], w1))"

section \<open>The two sweeps\<close>

definition counting :: "string \<Rightarrow> nat io \<Rightarrow> world \<Rightarrow> world" where
  "counting name reclaim w =
     (case reclaim w of
        (Inr n, w1) \<Rightarrow> w1\<lparr>wmet := count_by name n (wmet w1)\<rparr>
      | (Inl _, w1) \<Rightarrow> w1)"

definition staleness_tick :: "pg \<Rightarrow> int \<Rightarrow> world \<Rightarrow> world" where
  "staleness_tick P ttl_secs = counting ''staleness_reenqueued'' (reclaim_stale_by_ttl P ttl_secs)"

definition in_run_reclaim_tick :: "pg \<Rightarrow> int \<Rightarrow> world \<Rightarrow> world" where
  "in_run_reclaim_tick P age_secs = counting ''in_run_reclaimed'' (reclaim_in_progress_older_than P age_secs)"

section \<open>The timers\<close>

text \<open>What the \<open>select!\<close> of a timer returns; when both are ready it may be either.\<close>

datatype wake = Tick | Cancelled

fun ticking :: "('s \<Rightarrow> 's) \<Rightarrow> wake list \<Rightarrow> 's \<Rightarrow> 's" where
  "ticking body [] s = s"
| "ticking body (Cancelled # wakes) s = s"
| "ticking body (Tick # wakes) s = ticking body wakes (body s)"

text \<open>
  \<open>tokio::time::interval\<close> panics for a period of zero, which ends the task: no result. The
  registries are shared: their content is given per moment.
\<close>

definition timed :: "duration \<Rightarrow> ('s \<Rightarrow> 's) \<Rightarrow> wake list \<Rightarrow> 's \<Rightarrow> 's option" where
  "timed interval body wakes s = (if interval = 0 then None else Some (ticking body wakes s))"

definition sample_gauges ::
  "pg \<Rightarrow> ((string \<times> int option) list \<Rightarrow> (string \<times> int option) list) \<Rightarrow> (real \<Rightarrow> real)
   \<Rightarrow> (nat \<Rightarrow> limiter_registry) \<Rightarrow> (nat \<Rightarrow> health) \<Rightarrow> ustring list \<Rightarrow> duration \<Rightarrow> wake list
   \<Rightarrow> observation list \<times> world \<Rightarrow> (observation list \<times> world) option" where
  "sample_gauges P agg_order rnd registry hlth relays interval =
     timed interval (\<lambda>(sent, w).
       let (obs, w1) = sample_tick P agg_order rnd (registry (wtick w)) (hlth (wtick w)) relays w
       in (sent @ obs, w1))"

definition progress_summary ::
  "pg \<Rightarrow> ((string \<times> int option) list \<Rightarrow> (string \<times> int option) list) \<Rightarrow> (real \<Rightarrow> real)
   \<Rightarrow> duration \<Rightarrow> wake list \<Rightarrow> (string \<times> real) list list \<times> world
   \<Rightarrow> ((string \<times> real) list list \<times> world) option" where
  "progress_summary P agg_order rnd interval =
     timed interval (\<lambda>(lines, w). let (line, w1) = progress_tick P agg_order rnd w in (lines @ [line], w1))"

definition staleness_timer :: "pg \<Rightarrow> int \<Rightarrow> duration \<Rightarrow> wake list \<Rightarrow> world \<Rightarrow> world option" where
  "staleness_timer P ttl_secs interval = timed interval (staleness_tick P ttl_secs)"

definition in_run_reclaim_timer :: "pg \<Rightarrow> int \<Rightarrow> duration \<Rightarrow> wake list \<Rightarrow> world \<Rightarrow> world option" where
  "in_run_reclaim_timer P age_secs interval = timed interval (in_run_reclaim_tick P age_secs)"

lemma ticking_stops: "ticking body (wakes @ Cancelled # later) s = ticking body wakes s"
  by (induction body wakes s rule: ticking.induct) simp_all

lemma ticking_keeps: "(\<And>s. I s \<Longrightarrow> I (body s)) \<Longrightarrow> I s \<Longrightarrow> I (ticking body wakes s)"
  by (induction body wakes s rule: ticking.induct) simp_all

lemma timed_Some: "timed interval body wakes s = Some s' \<longleftrightarrow> interval \<noteq> 0 \<and> s' = ticking body wakes s"
  by (auto simp: timed_def)

lemma timed_runs: "interval \<noteq> 0 \<Longrightarrow> \<exists>s'. timed interval body wakes s = Some s'"
  by (simp add: timed_def)

lemma counting_db: "reclaim w = (res, w1) \<Longrightarrow> wdb (counting name reclaim w) = wdb w1"
  by (cases res) (simp_all add: counting_def)

section \<open>The counts are right\<close>

definition total_of :: "(string \<times> int option) list \<Rightarrow> int" where
  "total_of rows = sum_list (map (\<lambda>x. the (snd x)) rows)"

definition known_rows :: "(string \<times> int option) list \<Rightarrow> bool" where
  "known_rows rows \<longleftrightarrow> distinct (map fst rows) \<and> (\<forall>x \<in> set rows. snd x \<noteq> None)"

definition pick :: "(string \<times> int option) list \<Rightarrow> string \<Rightarrow> int \<Rightarrow> int" where
  "pick rows st old = (case map_of rows st of Some (Some n) \<Rightarrow> n | _ \<Rightarrow> old)"

lemma pick_Cons: "pick ((st, Some n) # rows) t old = (if t = st then n else pick rows t old)"
  by (simp add: pick_def)

lemma pick_absent: "st \<notin> fst ` set rows \<Longrightarrow> pick rows st old = old"
proof -
  assume "st \<notin> fst ` set rows"
  then have "map_of rows st = None" by (simp add: map_of_eq_None_iff)
  then show ?thesis by (simp add: pick_def)
qed

lemma bump_fields [simp]:
  "n_discovered (bump st n c) = (if st = ''discovered'' then n else n_discovered c)"
  "n_in_progress (bump st n c) = (if st = ''in_progress'' then n else n_in_progress c)"
  "n_fetched (bump st n c) = (if st = ''fetched'' then n else n_fetched c)"
  "n_not_found (bump st n c) = (if st = ''not_found'' then n else n_not_found c)"
  "n_failed (bump st n c) = (if st = ''failed'' then n else n_failed c)"
  "n_total (bump st n c) = n_total c + n"
  by (simp_all add: bump_def)

text \<open>Each field keeps the last count of its status: the only one.\<close>

lemma count_rows_field:
  assumes "\<And>st n c. f (bump st n c) = (if st = t then n else f c)" and "known_rows rows"
  shows "f (count_rows rows c) = pick rows t (f c)"
  using assms(2)
proof (induction rows arbitrary: c)
  case Nil
  then show ?case by (simp add: pick_def)
next
  case (Cons x rows)
  obtain st n where x: "x = (st, Some n)" using Cons.prems by (cases x) (auto simp: known_rows_def)
  have k: "known_rows rows" "st \<notin> fst ` set rows" using Cons.prems by (auto simp: known_rows_def x)
  show ?case
    using Cons.IH [OF k(1)] pick_absent [OF k(2)] by (auto simp: x pick_Cons assms(1))
qed

lemma count_rows_total: "known_rows rows \<Longrightarrow> n_total (count_rows rows c) = n_total c + total_of rows"
proof (induction rows arbitrary: c)
  case (Cons x rows)
  then obtain st n where "x = (st, Some n)" by (cases x) (auto simp: known_rows_def)
  then show ?case using Cons by (simp add: known_rows_def total_of_def)
qed (simp add: total_of_def)

lemma status_text_inj: "status_text a = status_text b \<longleftrightarrow> a = b"
  by (cases a; cases b) simp_all

lemma known_groups: "known_rows (status_groups d)"
  by (auto simp: known_rows_def status_groups_def comp_def distinct_map inj_on_def status_text_inj)

lemma pick_groups:
  assumes "mset rows = mset (status_groups d)"
  shows "known_rows rows" "pick rows (status_text st) 0 = rows_with d st"
proof -
  have s: "set rows = set (status_groups d)" using assms by (metis set_mset_mset)
  have m: "mset (map fst rows) = mset (map fst (status_groups d))" using assms by simp
  then have "distinct (map fst rows)" using known_groups by (metis known_rows_def mset_eq_imp_distinct_iff)
  then show k: "known_rows rows" using known_groups [of d] s by (auto simp: known_rows_def)
  show "pick rows (status_text st) 0 = rows_with d st"
  proof (cases "st \<in> row_status ` set (pubkeys d)")
    case True
    then have "(status_text st, Some (rows_with d st)) \<in> set rows" unfolding s by (auto simp: status_groups_def)
    then have "map_of rows (status_text st) = Some (Some (rows_with d st))"
      using k by (simp add: known_rows_def map_of_is_SomeI)
    then show ?thesis by (simp add: pick_def)
  next
    case False
    then have "status_text st \<notin> fst ` set rows" unfolding s by (auto simp: status_groups_def status_text_inj)
    then have "map_of rows (status_text st) = None" by (simp add: map_of_eq_None_iff)
    moreover have "rows_with d st = 0" using False by (auto simp: rows_with_def filter_empty_conv)
    ultimately show ?thesis by (simp add: pick_def)
  qed
qed

lemma total_groups:
  assumes "mset rows = mset (status_groups d)"
  shows "total_of rows = int (length (pubkeys d))"
proof -
  have "total_of rows = sum_mset (image_mset (\<lambda>x. the (snd x)) (mset rows))"
    by (simp add: total_of_def sum_mset_sum_list [symmetric])
  also have "\<dots> = total_of (status_groups d)"
    by (simp add: assms total_of_def sum_mset_sum_list [symmetric])
  also have "\<dots> = (\<Sum>st \<in> row_status ` set (pubkeys d). rows_with d st)"
    by (simp add: total_of_def status_groups_def comp_def sum_list_distinct_conv_sum_set)
  also have "\<dots> = int (length (pubkeys d))"
  proof -
    have "(\<Sum>st \<in> set (map row_status (pubkeys d)). count_list (map row_status (pubkeys d)) st) = length (pubkeys d)"
      using sum_count_set [of "map row_status (pubkeys d)"] by simp
    moreover have "rows_with d st = int (count_list (map row_status (pubkeys d)) st)" for st
      by (simp add: rows_with_def count_list_eq_length_filter filter_map comp_def eq_commute)
    ultimately show ?thesis by simp (metis of_nat_sum)
  qed
  finally show ?thesis .
qed

lemma frontier_counts_spec:
  assumes A: "alone P" and O: "\<forall>xs. mset (agg_order xs) = mset xs"
    and run: "frontier_counts P agg_order w = (Inr c, w')"
  shows "wdb w' = wdb w" "n_discovered c = rows_with (wdb w) Discovered"
    "n_in_progress c = rows_with (wdb w) In_Progress" "n_fetched c = rows_with (wdb w) Fetched"
    "n_not_found c = rows_with (wdb w) Not_Found" "n_failed c = rows_with (wdb w) Failed"
    "n_total c = int (length (pubkeys (wdb w)))"
proof -
  let ?rows = "agg_order (status_groups (wdb w))"
  have c: "c = count_rows ?rows no_counts" and "wdb w' = wdb w"
    using run A by (auto simp: frontier_counts_def bind_io_Inr ret_def alone_def dest!: exec_Inr)
  then show "wdb w' = wdb w" by simp
  have m: "mset ?rows = mset (status_groups (wdb w))" using O by simp
  note k = pick_groups(1) [OF m] and p = pick_groups(2) [OF m]
  show "n_discovered c = rows_with (wdb w) Discovered"
    using count_rows_field [of n_discovered "''discovered''", OF _ k] p [of Discovered] by (simp add: c no_counts_def)
  show "n_in_progress c = rows_with (wdb w) In_Progress"
    using count_rows_field [of n_in_progress "''in_progress''", OF _ k] p [of In_Progress] by (simp add: c no_counts_def)
  show "n_fetched c = rows_with (wdb w) Fetched"
    using count_rows_field [of n_fetched "''fetched''", OF _ k] p [of Fetched] by (simp add: c no_counts_def)
  show "n_not_found c = rows_with (wdb w) Not_Found"
    using count_rows_field [of n_not_found "''not_found''", OF _ k] p [of Not_Found] by (simp add: c no_counts_def)
  show "n_failed c = rows_with (wdb w) Failed"
    using count_rows_field [of n_failed "''failed''", OF _ k] p [of Failed] by (simp add: c no_counts_def)
  show "n_total c = int (length (pubkeys (wdb w)))"
    using count_rows_total [OF k] total_groups [OF m] by (simp add: c no_counts_def)
qed

lemma coverage_range:
  assumes "ieee rnd" and "0 \<le> n_fetched c" "n_fetched c \<le> n_total c"
  shows "0 \<le> coverage rnd c \<and> coverage rnd c \<le> 1"
proof (cases "n_total c = 0")
  case False
  then have t: "1 \<le> rnd (of_int (n_total c))" using assms(2,3) by (intro ieee_ge_1 [OF assms(1)]) simp
  have f: "0 \<le> rnd (of_int (n_fetched c))" using assms(2) by (intro ieee_nonneg [OF assms(1)]) simp
  have "rnd (of_int (n_fetched c)) \<le> rnd (of_int (n_total c))" using assms(3) by (intro ieee_mono [OF assms(1)]) simp
  then have "rnd (of_int (n_fetched c)) / rnd (of_int (n_total c)) \<le> 1" using t by simp
  moreover have "0 \<le> rnd (of_int (n_fetched c)) / rnd (of_int (n_total c))" using f t by simp
  ultimately show ?thesis
    using ieee_nonneg [OF assms(1)] ieee_le_1 [OF assms(1)] False by (simp add: coverage_def)
qed (simp add: coverage_def)

section \<open>What a sample promises\<close>

text \<open>
  The dashboard tells the truth: whatever order the server returns the groups in, each
  count is the number of rows with that status, the total that of all rows, reading them
  changes nothing, and the coverage is a ratio between 0 and 1, in floating point and for an
  empty table too.
\<close>

theorem sampled_counts:
  assumes "alone P" and "\<forall>xs. mset (agg_order xs) = mset xs" and "ieee rnd"
    and "frontier_counts P agg_order w = (Inr c, w')"
  shows "wdb w' = wdb w \<and> n_discovered c = rows_with (wdb w) Discovered
    \<and> n_in_progress c = rows_with (wdb w) In_Progress \<and> n_fetched c = rows_with (wdb w) Fetched
    \<and> n_not_found c = rows_with (wdb w) Not_Found \<and> n_failed c = rows_with (wdb w) Failed
    \<and> n_total c = int (length (pubkeys (wdb w)))
    \<and> 0 \<le> coverage rnd c \<and> coverage rnd c \<le> 1"
proof -
  note s = frontier_counts_spec [OF assms(1,2,4)]
  have "0 \<le> n_fetched c" "n_fetched c \<le> n_total c" by (simp_all add: s(4,7) rows_with_def)
  then show ?thesis using s coverage_range [OF assms(3)] by simp
qed

theorem sampled_counts_witness:
  "\<exists>c w'. frontier_counts demo_pg rev (demo_start\<lparr>wdb := update_rows (\<lambda>r. row_id r = 1) (lease_row 0) demo_db\<rparr>) = (Inr c, w')
    \<and> n_in_progress c = 1 \<and> n_total c = 3"
proof -
  let ?w = "demo_start\<lparr>wdb := update_rows (\<lambda>r. row_id r = 1) (lease_row 0) demo_db\<rparr>"
  obtain c w' where f: "frontier_counts demo_pg rev ?w = (Inr c, w')"
    by (simp add: frontier_counts_def bind_io_def exec_quiet [OF quiet_demo] ret_def)
  have "alone demo_pg" by (simp add: alone_def demo_pg_def pg_orders_ok_def)
  from sampled_counts [OF this _ ieee_demo f] have "n_in_progress c = 1" "n_total c = 3"
    by (simp_all add: demo_db_def lease_row_def rows_with_def new_row_def)
  with f show ?thesis by blast
qed

lemma sample_tick_bounded:
  assumes "sample_tick P agg_order rnd R H relays w = (obs, w')"
  shows "(\<forall>(name, label, v) \<in> set obs. \<forall>r. label = Some r \<longrightarrow> r \<in> set relays)
    \<and> length obs \<le> 1004 + 2 * length relays"
proof -
  obtain counts w1 ages w2 where f: "frontier_counts P agg_order w = (counts, w1)" "staleness_ages P rnd w1 = (ages, w2)"
    by (metis prod.collapse)
  have ages: "length xs \<le> 1000" if "ages = Inr xs" for xs
  proof -
    have len: "length (List.map_filter g (take n ys)) \<le> n" for g :: "pubkey_row \<Rightarrow> real option" and n ys
      by (simp add: List.map_filter_def) (metis (no_types, lifting) length_filter_le length_take min.bounded_iff)
    show ?thesis using f(2) that len by (auto simp: staleness_ages_def dest!: exec_Inr)
  qed
  have g: "length (relay_gauges rnd R H relays) = 2 + 2 * length relays"
    by (simp add: relay_gauges_def length_concat comp_def sum_list_triv)
  have "length obs \<le> 1004 + 2 * length relays"
    using assms f ages g by (auto simp: sample_tick_def Let_def split: sum.splits)
  moreover have "\<forall>(name, label, v) \<in> set obs. \<forall>r. label = Some r \<longrightarrow> r \<in> set relays"
    using assms f by (auto simp: sample_tick_def relay_gauges_def Let_def split: sum.splits)
  ultimately show ?thesis by blast
qed

lemma sample_run:
  assumes "ticking (\<lambda>(sent, w). let (obs, w1) = sample_tick P agg_order rnd (registry (wtick w)) (hlth (wtick w)) relays w
      in (sent @ obs, w1)) wakes (sent, w) = (obs, w')" (is "ticking ?body _ _ = _")
    and "\<forall>(name, label, v) \<in> set sent. \<forall>r. label = Some r \<longrightarrow> r \<in> set relays"
  shows "(\<forall>(name, label, v) \<in> set obs. \<forall>r. label = Some r \<longrightarrow> r \<in> set relays)
    \<and> length obs \<le> length sent + length wakes * (1004 + 2 * length relays)"
  using assms
proof (induction wakes arbitrary: sent w)
  case Nil
  then show ?case by simp
next
  case (Cons k wakes)
  show ?case
  proof (cases k)
    case Tick
    obtain o1 w1 where t: "sample_tick P agg_order rnd (registry (wtick w)) (hlth (wtick w)) relays w = (o1, w1)"
      by (metis prod.collapse)
    have run: "ticking ?body wakes (sent @ o1, w1) = (obs, w')"
      using Cons.prems(1) t Tick by simp
    note b = sample_tick_bounded [OF t]
    have "\<forall>(name, label, v) \<in> set (sent @ o1). \<forall>r. label = Some r \<longrightarrow> r \<in> set relays"
      using b Cons.prems(2) by auto
    from Cons.IH [OF run this] show ?thesis using b by simp
  next
    case Cancelled
    then show ?thesis using Cons.prems by simp
  qed
qed

text \<open>
  The labels are bounded: however long it runs, the sampler names no relay outside the curated
  set, however many relays the registries have met, and sends at most 1000 ages and a fixed
  number of gauges per curated relay at each tick.
\<close>

theorem sample_bounded:
  assumes "sample_gauges P agg_order rnd registry hlth relays interval wakes ([], w) = Some (obs, w')"
  shows "(\<forall>(name, label, v) \<in> set obs. \<forall>r. label = Some r \<longrightarrow> r \<in> set relays)
    \<and> length obs \<le> length wakes * (1004 + 2 * length relays)"
  using sample_run [OF assms [unfolded sample_gauges_def timed_Some, THEN conjunct2, symmetric]] by simp

theorem sample_bounded_witness:
  "length (fst (the (sample_gauges demo_pg rev demo_rnd (\<lambda>_. limiter_new) (\<lambda>_. health_new 1) [[119]] 60
     [Tick, Tick, Cancelled] ([], demo_start)))) \<le> 3018"
proof -
  obtain obs w' where o: "sample_gauges demo_pg rev demo_rnd (\<lambda>_. limiter_new) (\<lambda>_. health_new 1) [[119]] 60
      [Tick, Tick, Cancelled] ([], demo_start) = Some (obs, w')"
    unfolding sample_gauges_def using timed_runs [of 60] by (metis prod.collapse zero_neq_numeral)
  from sample_bounded [OF this] have "length obs \<le> 3018" by simp
  with o show ?thesis by simp
qed

section \<open>The timers and the tables\<close>

text \<open>However often they run, the sweeps keep the database well-formed and lose no row.\<close>

lemma counting_good:
  assumes "keeps (good d0) reclaim" and "good d0 (wdb w)"
  shows "good d0 (wdb (counting name reclaim w))"
proof -
  obtain res w1 where "reclaim w = (res, w1)" by (metis prod.collapse)
  then show ?thesis using assms counting_db [of reclaim w res w1] unfolding keeps_def by (metis snd_conv)
qed

lemma timers_good:
  assumes "rely P" and "db_ok (wdb w)"
  shows "staleness_timer P ttl_secs interval wakes w = Some w' \<Longrightarrow> good (wdb w) (wdb w')"
    and "in_run_reclaim_timer P age_secs interval wakes w = Some w' \<Longrightarrow> good (wdb w) (wdb w')"
  unfolding staleness_timer_def in_run_reclaim_timer_def staleness_tick_def in_run_reclaim_tick_def timed_Some
  by (elim conjE, hypsubst, rule ticking_keeps [where I = "\<lambda>v. good (wdb w) (wdb v)"],
      erule counting_good [OF keeps_reclaim(2) [OF assms(1)]], rule good_refl [OF assms(2)],
      elim conjE, hypsubst, rule ticking_keeps [where I = "\<lambda>v. good (wdb w) (wdb v)"],
      erule counting_good [OF keeps_reclaim(3) [OF assms(1)]], rule good_refl [OF assms(2)])

end
