(* ===== verification/Daemon_Loop.thy ===== *)
theory Daemon_Loop imports Crawl Sampler begin

text \<open>
  \<open>src/daemon/loop_.rs\<close>: the continuous loop, on the same pool. \<open>loop_step\<close> has the moves of
  \<open>run_daemon_loop\<close> and of its workers; \<open>outside_step\<close> has what the rest of the daemon does at
  any time: the cancellation, and the two sweeps of \<open>src/daemon/sampler.rs\<close>.
\<close>

section \<open>The loop\<close>

record daemon_state = crawl_state +
  ds_cancelled :: bool
  ds_alive :: bool

text \<open>\<open>drain_all\<close> joins every handle and keeps the first error.\<close>

definition keep_first :: "store_error option \<Rightarrow> join_result \<Rightarrow> store_error option" where
  "keep_first first_err r =
     (case join_worker r of
        Inr _ \<Rightarrow> first_err
      | Inl e \<Rightarrow> if first_err = None then Some e else first_err)"

definition daemon_begin :: "crawl_conf \<Rightarrow> nat \<Rightarrow> bool \<Rightarrow> world \<Rightarrow> daemon_state" where
  "daemon_begin C reclaimed cancelled w = crawl_state.extend (crawl_begin C reclaimed w)
     \<lparr>ds_cancelled = cancelled, ds_alive = True\<rparr>"

inductive loop_step :: "env \<Rightarrow> pg \<Rightarrow> crawl_conf \<Rightarrow> daemon_state \<Rightarrow> daemon_state \<Rightarrow> bool"
  for E P C where
  pool: "pool_step E P C s s' \<Longrightarrow> loop_step E P C s s'"
| goes_on: "\<lbrakk>cs_pc s = Top; \<not> ds_cancelled s\<rbrakk> \<Longrightarrow> loop_step E P C s (s\<lparr>cs_pc := Claiming\<rparr>)"
| stops: "\<lbrakk>cs_pc s = Top; ds_cancelled s\<rbrakk> \<Longrightarrow>
    loop_step E P C s (s\<lparr>cs_handles := [], cs_pc := Draining (cs_handles s) None True\<rparr>)"
| empty: "\<lbrakk>cs_pc s = Claiming; claim P C s (Inr []) w'\<rbrakk> \<Longrightarrow>
    loop_step E P C s (s\<lparr>cs_world := w', cs_handles := [], cs_pc := Draining (cs_handles s) None False\<rparr>)"
| drains: "\<lbrakk>cs_pc s = Draining (h # hs) e final; cs_tasks s ! h = Ended batch r\<rbrakk> \<Longrightarrow>
    loop_step E P C s (s\<lparr>cs_pc := Draining hs (keep_first e r) final\<rparr>)"
| drain_fails: "cs_pc s = Draining [] (Some e) final \<Longrightarrow> loop_step E P C s (s\<lparr>cs_pc := Exiting (Inl e)\<rparr>)"
| drained: "cs_pc s = Draining [] None True \<Longrightarrow> loop_step E P C s (s\<lparr>cs_pc := Exiting (Inr (cs_stats s))\<rparr>)"
| idles: "cs_pc s = Draining [] None False \<Longrightarrow> loop_step E P C s (s\<lparr>cs_pc := Idle\<rparr>)"
| wakes: "cs_pc s = Idle \<Longrightarrow> loop_step E P C s (s\<lparr>cs_pc := Top\<rparr>)"
| idle_cancelled: "\<lbrakk>cs_pc s = Idle; ds_cancelled s\<rbrakk> \<Longrightarrow>
    loop_step E P C s (s\<lparr>cs_handles := [], cs_pc := Draining (cs_handles s) None True\<rparr>)"
| leaves: "cs_pc s = Exiting r \<Longrightarrow> loop_step E P C s (s\<lparr>cs_pc := Returned r, ds_alive := False\<rparr>)"

inductive outside_step :: "daemon_state \<Rightarrow> daemon_state \<Rightarrow> bool" where
  cancels: "outside_step s (s\<lparr>ds_cancelled := True\<rparr>)"
| rescans: "alone P \<Longrightarrow> outside_step s (s\<lparr>cs_world := staleness_tick P ttl_secs (cs_world s)\<rparr>)"
| reclaims: "alone P \<Longrightarrow> outside_step s (s\<lparr>cs_world := in_run_reclaim_tick P age_secs (cs_world s)\<rparr>)"

inductive daemon_reach :: "env \<Rightarrow> pg \<Rightarrow> crawl_conf \<Rightarrow> world \<Rightarrow> daemon_state \<Rightarrow> bool"
  for E P C w where
  begins: "startup P (cf_anchor C) w = (Inr n, w1) \<Longrightarrow> daemon_reach E P C w (daemon_begin C n c w1)"
| inside: "daemon_reach E P C w s \<Longrightarrow> loop_step E P C s s' \<Longrightarrow> daemon_reach E P C w s'"
| outside: "daemon_reach E P C w s \<Longrightarrow> outside_step s s' \<Longrightarrow> daemon_reach E P C w s'"

section \<open>Invariants\<close>

text \<open>The sweeps only release leases.\<close>

lemma sweep_moves:
  assumes "outside_step s s'" and "db_ok (wdb (cs_world s))"
  shows "good (wdb (cs_world s)) (wdb (cs_world s'))" "leased (wdb (cs_world s')) \<subseteq> leased (wdb (cs_world s))"
    "cs_permits s' = cs_permits s" "cs_tasks s' = cs_tasks s" "cs_stats s' = cs_stats s" "cs_pc s' = cs_pc s"
    "cs_handles s' = cs_handles s" "ds_alive s' = ds_alive s" "ds_cancelled s \<Longrightarrow> ds_cancelled s'"
proof -
  have rel: "leased (update_rows c release_row d) \<subseteq> leased d" for c d
    by (auto simp: leased_def row_by_id_update release_row_def split: if_splits)
  have ex: "leased (wdb w') \<subseteq> leased (wdb w)"
    if A: "alone P" and r: "exec P (\<lambda>n. release_where (c n)) w = (res, w')" for P c w w' and res :: "store_error + nat"
    by (rule exec_alone [OF A r]) (use rel [of "c (wtick w)" "wdb w"] in \<open>auto simp: release_where_def\<close>)
  have "good (wdb (cs_world s)) (wdb (cs_world s')) \<and> leased (wdb (cs_world s')) \<subseteq> leased (wdb (cs_world s))"
    using assms
  proof cases
    case cancels
    then show ?thesis using good_refl [OF assms(2)] by simp
  next
    case (rescans P ttl_secs)
    obtain res w' where r: "reclaim_stale_by_ttl P ttl_secs (cs_world s) = (res, w')" by (metis prod.collapse)
    then show ?thesis
      using rescans counting_db [of "reclaim_stale_by_ttl P ttl_secs", OF r] keepsD [OF keeps_reclaim(2) [OF rely_alone] good_refl [OF assms(2)] r]
        ex [OF rescans(2) r [unfolded reclaim_stale_by_ttl_def]]
      by (simp add: staleness_tick_def)
  next
    case (reclaims P age_secs)
    obtain res w' where r: "reclaim_in_progress_older_than P age_secs (cs_world s) = (res, w')"
      by (metis prod.collapse)
    then show ?thesis
      using reclaims counting_db [of "reclaim_in_progress_older_than P age_secs", OF r] keepsD [OF keeps_reclaim(3) [OF rely_alone] good_refl [OF assms(2)] r]
        ex [OF reclaims(2) r [unfolded reclaim_in_progress_older_than_def]]
      by (simp add: in_run_reclaim_tick_def)
  qed
  then show "good (wdb (cs_world s)) (wdb (cs_world s'))" "leased (wdb (cs_world s')) \<subseteq> leased (wdb (cs_world s))"
    by blast+
qed (use assms in \<open>auto elim: outside_step.cases\<close>)

definition loop_ok :: "daemon_state \<Rightarrow> bool" where
  "loop_ok s \<longleftrightarrow> (ds_alive s \<longleftrightarrow> (\<forall>r. cs_pc s \<noteq> Returned r))
     \<and> (\<forall>hs e b. cs_pc s = Draining hs e b \<longrightarrow> cs_handles s = [] \<and> (b \<longrightarrow> ds_cancelled s)
          \<and> (\<forall>h < length (cs_tasks s). h \<in> set hs \<or> \<not> is_running (cs_tasks s ! h)))
     \<and> (cs_pc s = Idle \<longrightarrow> cs_handles s = [])
     \<and> (\<forall>st. cs_pc s \<in> {Exiting (Inr st), Returned (Inr st)} \<longrightarrow>
          st = cs_stats s \<and> cs_handles s = [] \<and> ds_cancelled s)"

definition daemon_ok :: "crawl_conf \<Rightarrow> daemon_state \<Rightarrow> bool" where
  "daemon_ok C s \<longleftrightarrow> pool_ok C s \<and> loop_ok s"

lemma pool_loop_ok: "pool_step E P C s s' \<Longrightarrow> loop_ok s \<Longrightarrow> loop_ok s'"
  by (cases rule: pool_step.cases, assumption) (auto simp: loop_ok_def nth_list_update)

lemma drained_ended:
  assumes "handles_ok s" and "\<not> erring (cs_pc s)" and "joining (cs_pc s) = []"
  shows "\<forall>h < length (cs_tasks s). h \<in> set (cs_handles s) \<or> \<not> is_running (cs_tasks s ! h)"
  using assms by (auto simp: handles_ok_def Let_def)

lemma keep_first_None: "keep_first e r = None \<longleftrightarrow> e = None \<and> join_worker r = Inr ()"
  by (auto simp: keep_first_def split: sum.splits)

lemma erring_Draining: "erring (Draining hs e b) \<longleftrightarrow> e \<noteq> None"
  by (cases e) simp_all

lemma loop_step_ok:
  assumes st: "loop_step E P C s s'" and E: "alone P" "keys_ok E" "orders_ok E" and ok: "daemon_ok C s"
  shows "daemon_ok C s'"
proof -
  have I: "pool_ok C s" "loop_ok s" using ok by (simp_all add: daemon_ok_def)
  note h = pool_okD(3) [OF I(1)] and d = pool_okD(2) [OF I(1)] and l = I(2) [unfolded loop_ok_def]
  note g = good_refl [OF d]
  show ?thesis using st
  proof cases
    case pool
    then show ?thesis using step_pool_ok [OF pool E I(1)] pool_loop_ok [OF pool I(2)] by (simp add: daemon_ok_def)
  next
    case goes_on
    have "pool_ok C s'" by (rule pool_ok_move [OF I(1)]) (use goes_on h g in \<open>auto simp: handles_ok_def\<close>)
    then show ?thesis using goes_on l by (simp add: daemon_ok_def loop_ok_def)
  next
    case stops
    have "pool_ok C s'" by (rule pool_ok_move [OF I(1)]) (use stops h g in \<open>auto simp: handles_ok_def\<close>)
    then show ?thesis using stops l drained_ended [OF h] by (simp add: daemon_ok_def loop_ok_def)
  next
    case (empty w')
    have "good (wdb (cs_world s)) (wdb w')" "leased (wdb w') = leased (wdb (cs_world s))"
      using claim_good [OF E(1) d empty(3)] claim_Inr(2) [OF E(1) d empty(3)] by simp_all
    then have "pool_ok C s'" by (intro pool_ok_move [OF I(1)]) (use empty h in \<open>auto simp: handles_ok_def\<close>)
    then show ?thesis using empty l drained_ended [OF h] by (simp add: daemon_ok_def loop_ok_def)
  next
    case (drains x hs e final batch r)
    have "handles_ok s'"
      using h drains by (auto simp: handles_ok_def erring_Draining keep_first_None)
    then have "pool_ok C s'"
      by (intro pool_ok_move [OF I(1)]) (use drains g in \<open>auto simp: erring_Draining keep_first_def split: sum.split\<close>)
    then show ?thesis using drains l by (auto simp: daemon_ok_def loop_ok_def)
  next
    case (drain_fails e final)
    have "pool_ok C s'" by (rule pool_ok_move [OF I(1)]) (use drain_fails h g in \<open>auto simp: handles_ok_def\<close>)
    then show ?thesis using drain_fails l by (simp add: daemon_ok_def loop_ok_def)
  next
    case drained
    have "pool_ok C s'" by (rule pool_ok_move [OF I(1)]) (use drained h g in \<open>auto simp: handles_ok_def\<close>)
    then show ?thesis using drained l by (auto simp: daemon_ok_def loop_ok_def)
  next
    case idles
    have "pool_ok C s'" by (rule pool_ok_move [OF I(1)]) (use idles h g in \<open>auto simp: handles_ok_def\<close>)
    then show ?thesis using idles l by (auto simp: daemon_ok_def loop_ok_def)
  next
    case wakes
    have "pool_ok C s'" by (rule pool_ok_move [OF I(1)]) (use wakes h g in \<open>auto simp: handles_ok_def\<close>)
    then show ?thesis using wakes l by (simp add: daemon_ok_def loop_ok_def)
  next
    case idle_cancelled
    have "pool_ok C s'" by (rule pool_ok_move [OF I(1)]) (use idle_cancelled h g in \<open>auto simp: handles_ok_def\<close>)
    then show ?thesis using idle_cancelled l drained_ended [OF h] by (simp add: daemon_ok_def loop_ok_def)
  next
    case (leaves r)
    have "pool_ok C s'"
      by (cases r; rule pool_ok_move [OF I(1)]; use leaves h g in \<open>auto simp: handles_ok_def\<close>)
    then show ?thesis using leaves l by (simp add: daemon_ok_def loop_ok_def)
  qed
qed

lemma outside_step_ok:
  assumes "outside_step s s'" and ok: "daemon_ok C s"
  shows "daemon_ok C s'"
proof -
  have I: "pool_ok C s" "loop_ok s" using ok by (simp_all add: daemon_ok_def)
  note m = sweep_moves [OF assms(1) pool_okD(2) [OF I(1)]]
  have l: "live s' = live s" "live_ids s' = live_ids s" "spawned s' = spawned s" "running s' = running s"
    "handles_ok s' = handles_ok s" "healthy s' = healthy s"
    by (simp_all add: live_def live_ids_def spawned_def running_def handles_ok_def healthy_def m(3-7))
  have "pool_ok C s'"
    using I(1) m(1-5) batch_ok_good [OF m(1)] by (auto simp: pool_ok_def batches_ok_def counts_ok_def l good_def)
  moreover have "loop_ok s'" using I(2) m(9) by (auto simp: loop_ok_def m(3-8))
  ultimately show ?thesis by (simp add: daemon_ok_def)
qed

lemma daemon_reach_ok:
  assumes "daemon_reach E P C w s" and E: "alone P" "keys_ok E" "orders_ok E" and "db_ok (wdb w)"
  shows "daemon_ok C s"
  using assms(1)
proof induction
  case (begins n w1 c)
  note s = startup_Inr [OF E(1) assms(5) begins]
  show ?case
    using s by (simp add: daemon_ok_def loop_ok_def daemon_begin_def crawl_begin_def crawl_state.defs pool_ok_def
        handles_ok_def counts_ok_def batches_ok_def spawned_def live_def live_ids_def running_def good_def)
next
  case (inside s s')
  then show ?case using loop_step_ok [OF _ E] by blast
next
  case (outside s s')
  then show ?case using outside_step_ok by blast
qed

text \<open>The continuous loop is the other driver of the pool.\<close>

interpretation run_daemon_loop: pool_driver C
  "\<lambda>s. alone P \<and> keys_ok E \<and> orders_ok E \<and> db_ok (wdb w) \<and> daemon_reach E P C w s" for E P C w
proof unfold_locales
  fix s :: daemon_state and st
  assume s: "alone P \<and> keys_ok E \<and> orders_ok E \<and> db_ok (wdb w) \<and> daemon_reach E P C w s"
  then have "daemon_ok C s" using daemon_reach_ok by blast
  then show "pool_ok C s" and "cs_pc s = Returned (Inr st) \<Longrightarrow> st = cs_stats s \<and> cs_handles s = []"
    by (simp_all add: daemon_ok_def loop_ok_def)
qed

section \<open>Shutting down\<close>

fun rank :: "pc \<Rightarrow> nat" where
  "rank (Returned r) = 0"
| "rank (Exiting r) = 1"
| "rank (Draining hs e final) = (if final then 2 else 5) + length hs"
| "rank Top = 3"
| "rank Idle = 4"
| "rank (Joining hs) = 4 + length hs"
| "rank Spawned = 5"
| "rank (Claimed b) = 8"
| "rank Claiming = 9"

definition shutdown_rank :: "'x crawl_state_scheme \<Rightarrow> nat" where
  "shutdown_rank s = rank (cs_pc s) + length (cs_handles s) + running s"

definition claimed_at_most :: "'x crawl_state_scheme \<Rightarrow> nat" where
  "claimed_at_most s = length (spawned s) + (case cs_pc s of Claiming \<Rightarrow> 1 | _ \<Rightarrow> 0)"

lemma pool_step_rank:
  "pool_step E P C s s' \<Longrightarrow> shutdown_rank s' < shutdown_rank s \<and> claimed_at_most s' \<le> claimed_at_most s"
proof (induction rule: pool_step.induct)
  case (reaps s fin)
  have "length (filter fin (cs_handles s)) + length (filter (\<lambda>h. \<not> fin h) (cs_handles s)) = length (cs_handles s)"
    by (rule sum_length_filter_compl)
  with reaps show ?case by (simp add: shutdown_rank_def running_def claimed_at_most_def spawned_def)
next
  case (ends i s batch B u res w')
  let ?t = "Ended batch (Finished (case res of Inl e \<Rightarrow> Inl e | Inr _ \<Rightarrow> Inr ()))"
  have "Suc (length (filter is_running ((cs_tasks s)[i := ?t]))) = length (filter is_running (cs_tasks s))"
    by (rule running_ends [OF ends(1,2)]) simp
  then show ?case by (simp add: shutdown_rank_def running_def claimed_at_most_def spawned_def)
next
  case (panics i s batch B P' u res w' join_err)
  have "Suc (length (filter is_running ((cs_tasks s)[i := Ended batch (Panicked join_err)])))
      = length (filter is_running (cs_tasks s))"
    by (rule running_ends [OF panics(1,2)]) simp
  then show ?case by (simp add: shutdown_rank_def running_def claimed_at_most_def spawned_def)
qed (simp_all add: shutdown_rank_def running_def claimed_at_most_def spawned_def)

lemma pool_step_cancelled: "pool_step E P C (s :: daemon_state) s' \<Longrightarrow> ds_cancelled s' = ds_cancelled s"
  by (cases rule: pool_step.cases, assumption) simp_all

lemma loop_step_rank:
  assumes "loop_step E P C s s'" and "ds_cancelled s"
  shows "shutdown_rank s' < shutdown_rank s \<and> claimed_at_most s' \<le> claimed_at_most s \<and> ds_cancelled s'"
  using assms
proof (induction rule: loop_step.induct)
  case (pool s s')
  then show ?case using pool_step_rank [OF pool(1)] pool_step_cancelled [OF pool(1)] by simp
qed (simp_all add: shutdown_rank_def running_def claimed_at_most_def spawned_def)

lemma outside_step_rank:
  "outside_step s s' \<Longrightarrow> shutdown_rank s' = shutdown_rank s \<and> claimed_at_most s' = claimed_at_most s
    \<and> (ds_cancelled s \<longrightarrow> ds_cancelled s')"
  by (cases rule: outside_step.cases, assumption)
    (simp_all add: shutdown_rank_def running_def claimed_at_most_def spawned_def)

text \<open>\<open>daemon_run E P C s n s'\<close>: from \<open>s\<close> to \<open>s'\<close> in \<open>n\<close> moves of the loop and its workers.\<close>

inductive daemon_run :: "env \<Rightarrow> pg \<Rightarrow> crawl_conf \<Rightarrow> daemon_state \<Rightarrow> nat \<Rightarrow> daemon_state \<Rightarrow> bool"
  for E P C s where
  here: "daemon_run E P C s 0 s"
| inside: "daemon_run E P C s n s' \<Longrightarrow> loop_step E P C s' s'' \<Longrightarrow> daemon_run E P C s (Suc n) s''"
| outside: "daemon_run E P C s n s' \<Longrightarrow> outside_step s' s'' \<Longrightarrow> daemon_run E P C s n s''"

lemma daemon_run_rank:
  assumes "daemon_run E P C s n s'" and "ds_cancelled s"
  shows "n + shutdown_rank s' \<le> shutdown_rank s \<and> claimed_at_most s' \<le> claimed_at_most s \<and> ds_cancelled s'"
  using assms(1)
proof induction
  case (inside n s' s'')
  then show ?case using loop_step_rank [of E P C s' s''] by auto
next
  case (outside n s' s'')
  then show ?case using outside_step_rank [of s' s''] by auto
qed (simp add: assms(2))

lemma daemon_run_reach:
  "daemon_run E P C s n s' \<Longrightarrow> daemon_reach E P C w s \<Longrightarrow> daemon_reach E P C w s'"
  by (induction rule: daemon_run.induct) (auto intro: daemon_reach.intros)

lemma drain_progress:
  assumes "cs_pc s = Draining hs e final" and "handles_ok s" and "cf_args C \<noteq> {}"
  shows "\<exists>q. loop_step E P C s q"
proof (cases hs)
  case Nil
  then have pc: "cs_pc s = Draining [] e final" using assms(1) by simp
  show ?thesis
  proof (cases e)
    case None
    have "final \<Longrightarrow> ?thesis" "\<not> final \<Longrightarrow> ?thesis"
      using loop_step.drained [of s] loop_step.idles [of s] pc None by auto
    then show ?thesis by blast
  next
    case (Some x)
    show ?thesis using loop_step.drain_fails [OF pc [unfolded Some]] by blast
  qed
next
  case (Cons h hs')
  then have h: "h < length (cs_tasks s)" using assms(1,2) by (simp add: handles_ok_def Let_def)
  show ?thesis
  proof (cases "cs_tasks s ! h")
    case (Running b)
    then show ?thesis using worker_ends [OF h] assms(3) loop_step.pool by blast
  next
    case (Ended b r)
    then show ?thesis using loop_step.drains assms(1) Cons by blast
  qed
qed

lemma loop_progress:
  assumes ok: "daemon_ok C s" and "0 < cf_concurrency C" and "cf_args C \<noteq> {}"
    and "\<forall>r. cs_pc s \<noteq> Returned r"
  shows "\<exists>s'. loop_step E P C s s'"
proof -
  have I: "pool_ok C s" using ok by (simp add: daemon_ok_def)
  show ?thesis
  proof (cases "\<exists>q. pool_step E P C s q")
    case True
    then show ?thesis using loop_step.pool by blast
  next
    case False
    then consider "cs_pc s = Top" | "cs_pc s = Claiming" | r where "cs_pc s = Exiting r" | "cs_pc s = Idle"
      | hs e b where "cs_pc s = Draining hs e b"
      using pool_progress [OF I assms(2,3)] assms(4) by (cases "cs_pc s") auto
    then show ?thesis
    proof cases
      case 1
      then show ?thesis using loop_step.goes_on loop_step.stops by blast
    next
      case 2
      then show ?thesis using claim_progress [of s E P C] False loop_step.empty by blast
    next
      case 3
      then show ?thesis using loop_step.leaves by blast
    next
      case 4
      then show ?thesis using loop_step.wakes by blast
    next
      case 5
      then show ?thesis using drain_progress [OF _ pool_okD(3) [OF I] assms(3)] by blast
    qed
  qed
qed

section \<open>Two runs\<close>

text \<open>The single author of the crawl's run; the server may refuse the fourth round trip.\<close>

definition refusing_pg :: pg where
  "refusing_pg = demo_pg\<lparr>pg_fault := (\<lambda>n. if n = 3 then Refused Sqlx_Io else Fine)\<rparr>"

lemma alone_refusing: "alone refusing_pg"
  by (simp add: alone_def refusing_pg_def demo_pg_def pg_orders_ok_def)

definition demo_daemon :: "pc \<Rightarrow> world \<Rightarrow> task list \<Rightarrow> nat list \<Rightarrow> nat \<Rightarrow> bool \<Rightarrow> bool \<Rightarrow> daemon_state" where
  "demo_daemon q w ts hs n cancelled alive
     = crawl_state.extend (demo_state q w ts hs n) \<lparr>ds_cancelled = cancelled, ds_alive = alive\<rparr>"

lemmas demo_daemon_defs = demo_daemon_def demo_state_def crawl_state.defs

lemma demo_servers:
  assumes "P \<in> {demo_pg, refusing_pg}"
  shows "startup P (sdk_to_bytes demo_env 7) demo_empty = (Inr 0, demo_at 2 demo_row)"
    and "claim P demo_conf (s\<lparr>cs_world := demo_at 2 demo_row\<rparr>) (Inr [demo_claim]) (demo_at 3 (lease_row 2 demo_row))"
proof -
  have "startup refusing_pg (sdk_to_bytes demo_env 7) demo_empty = startup demo_pg (sdk_to_bytes demo_env 7) demo_empty"
    using to_bytes_length [OF demo_keys_ok, of 7]
    by (simp add: startup_def seed_anchor_def bind_io_def upsert_pubkey_def PUBKEY_LEN_def exec_def refusing_pg_def
        demo_pg_def demo_empty_def reclaim_stale_on_startup_def release_where_def split: prod.split)
  then show "startup P (sdk_to_bytes demo_env 7) demo_empty = (Inr 0, demo_at 2 demo_row)"
    using assms demo_startup by auto
  have c: "claim_batch (refusing_pg\<lparr>pg_locked := L\<rparr>) l (demo_at 2 r) = claim_batch (demo_pg\<lparr>pg_locked := L\<rparr>) l (demo_at 2 r)"
    for L l r
    by (cases "l < 0") (simp_all add: claim_batch_def exec_def refusing_pg_def demo_pg_def demo_at_def
        claim_stmt_def claimable_def Let_def)
  then have "claim refusing_pg demo_conf (s\<lparr>cs_world := demo_at 2 demo_row\<rparr>) r w'
      \<longleftrightarrow> claim demo_pg demo_conf (s\<lparr>cs_world := demo_at 2 demo_row\<rparr>) r w'" for r w'
    by (simp add: claim_def)
  then show "claim P demo_conf (s\<lparr>cs_world := demo_at 2 demo_row\<rparr>) (Inr [demo_claim]) (demo_at 3 (lease_row 2 demo_row))"
    using assms demo_claims [of 2 s] by (auto simp: numeral_3_eq_3)
qed

lemma daemon_midway:
  assumes P: "P \<in> {demo_pg, refusing_pg}"
  shows "daemon_reach demo_env P demo_conf demo_empty
    (demo_daemon Top (demo_at 3 (lease_row 2 demo_row)) [Running [demo_claim]] [0] 1 False True)"
proof -
  let ?L = "loop_step demo_env P demo_conf"
  let ?w = "demo_at 2 demo_row" and ?v = "demo_at 3 (lease_row 2 demo_row)" and ?t = "Running [demo_claim]"
  have 0: "daemon_reach demo_env P demo_conf demo_empty (demo_daemon Top ?w [] [] 0 False True)"
    using daemon_reach.begins [of P demo_conf demo_empty 0 ?w demo_env False] demo_servers(1) [OF P]
    by (simp add: demo_conf_def daemon_begin_def crawl_begin_def demo_daemon_defs)
  have 1: "?L (demo_daemon Top ?w [] [] 0 False True) (demo_daemon Claiming ?w [] [] 0 False True)"
    using loop_step.goes_on [of "demo_daemon Top ?w [] [] 0 False True"] by (simp add: demo_daemon_defs)
  have 2: "?L (demo_daemon Claiming ?w [] [] 0 False True) (demo_daemon (Claimed [demo_claim]) ?v [] [] 1 False True)"
    using pool_step.claims [where s = "demo_daemon Claiming ?w [] [] 0 False True" and batch = "[demo_claim]"]
      demo_servers(2) [OF P, of "demo_daemon Claiming ?w [] [] 0 False True"]
    by (intro loop_step.pool) (simp add: demo_daemon_defs counted_def)
  have 3: "?L (demo_daemon (Claimed [demo_claim]) ?v [] [] 1 False True) (demo_daemon Spawned ?v [?t] [0] 1 False True)"
    using pool_step.spawns [where s = "demo_daemon (Claimed [demo_claim]) ?v [] [] 1 False True"]
    by (intro loop_step.pool) (simp add: demo_daemon_defs)
  have 4: "?L (demo_daemon Spawned ?v [?t] [0] 1 False True) (demo_daemon (Joining []) ?v [?t] [0] 1 False True)"
    using pool_step.reaps [where s = "demo_daemon Spawned ?v [?t] [0] 1 False True" and fin = "\<lambda>_. False"]
    by (intro loop_step.pool) (simp add: demo_daemon_defs)
  have 5: "?L (demo_daemon (Joining []) ?v [?t] [0] 1 False True) (demo_daemon Top ?v [?t] [0] 1 False True)"
    using pool_step.joined [where s = "demo_daemon (Joining []) ?v [?t] [0] 1 False True"]
    by (intro loop_step.pool) (simp add: demo_daemon_defs)
  note i = daemon_reach.inside
  show ?thesis by (rule i [OF i [OF i [OF i [OF i [OF 0 1] 2] 3] 4] 5])
qed

text \<open>Cancelled with the worker running: its batch is finished and joined.\<close>

definition demo_stopping :: daemon_state where
  "demo_stopping = demo_daemon Top (demo_at 3 (lease_row 2 demo_row)) [Running [demo_claim]] [0] 1 True True"

lemma demo_stopping_reach: "daemon_reach demo_env demo_pg demo_conf demo_empty demo_stopping"
proof -
  let ?s = "demo_daemon Top (demo_at 3 (lease_row 2 demo_row)) [Running [demo_claim]] [0] 1 False True"
  have "outside_step ?s demo_stopping"
    using outside_step.cancels [of ?s] by (simp add: demo_stopping_def demo_daemon_defs)
  then show ?thesis using daemon_reach.outside [OF daemon_midway] by simp
qed

lemma demo_stopping_run:
  "daemon_run demo_env demo_pg demo_conf demo_stopping 3
    (demo_daemon (Draining [] None True) (demo_at 4 demo_missed) [Ended [demo_claim] (Finished (Inr ()))] [] 1 True True)"
proof -
  let ?L = "loop_step demo_env demo_pg demo_conf"
  let ?v = "demo_at 3 (lease_row 2 demo_row)" and ?u = "demo_at 4 demo_missed"
  let ?t = "Running [demo_claim]" and ?e = "Ended [demo_claim] (Finished (Inr ()))"
  have 1: "?L (demo_daemon Top ?v [?t] [0] 1 True True) (demo_daemon (Draining [0] None True) ?v [?t] [] 1 True True)"
    using loop_step.stops [of "demo_daemon Top ?v [?t] [0] 1 True True"] by (simp add: demo_daemon_defs)
  have 2: "?L (demo_daemon (Draining [0] None True) ?v [?t] [] 1 True True)
      (demo_daemon (Draining [0] None True) ?u [?e] [] 1 True True)"
    using pool_step.ends [where i = 0 and s = "demo_daemon (Draining [0] None True) ?v [?t] [] 1 True True"
        and batch = "[demo_claim]" and B = demo_args and C = demo_conf and E = demo_env and P = demo_pg
        and u = "Inr []"] demo_process [of 3 2]
    by (intro loop_step.pool) (simp add: demo_daemon_defs demo_conf_def demo_missed_def)
  have 3: "?L (demo_daemon (Draining [0] None True) ?u [?e] [] 1 True True)
      (demo_daemon (Draining [] None True) ?u [?e] [] 1 True True)"
    using loop_step.drains [where s = "demo_daemon (Draining [0] None True) ?u [?e] [] 1 True True"]
    by (simp add: demo_daemon_defs keep_first_def join_worker_def)
  note i = daemon_run.inside
  show ?thesis using i [OF i [OF i [OF daemon_run.here 1 [folded demo_stopping_def]] 2] 3]
    by (simp add: numeral_3_eq_3)
qed

lemma demo_draining:
  "daemon_reach demo_env demo_pg demo_conf demo_empty
    (demo_daemon (Draining [] None True) (demo_at 4 demo_missed) [Ended [demo_claim] (Finished (Inr ()))] [] 1 True True)"
  by (rule daemon_run_reach [OF demo_stopping_run demo_stopping_reach])

lemma demo_clean_stop:
  "daemon_reach demo_env demo_pg demo_conf demo_empty (demo_daemon
     (Returned (Inr \<lparr>reclaimed_on_startup = 0, authors_claimed = 1, batches_processed = 1\<rparr>))
     (demo_at 4 demo_missed) [Ended [demo_claim] (Finished (Inr ()))] [] 1 True False)"
proof -
  let ?L = "loop_step demo_env demo_pg demo_conf"
  let ?u = "demo_at 4 demo_missed" and ?e = "Ended [demo_claim] (Finished (Inr ()))"
  let ?st = "\<lparr>reclaimed_on_startup = 0, authors_claimed = 1, batches_processed = 1\<rparr>"
  have 1: "?L (demo_daemon (Draining [] None True) ?u [?e] [] 1 True True)
      (demo_daemon (Exiting (Inr ?st)) ?u [?e] [] 1 True True)"
    using loop_step.drained [of "demo_daemon (Draining [] None True) ?u [?e] [] 1 True True"]
    by (simp add: demo_daemon_defs)
  have 2: "?L (demo_daemon (Exiting (Inr ?st)) ?u [?e] [] 1 True True)
      (demo_daemon (Returned (Inr ?st)) ?u [?e] [] 1 True False)"
    using loop_step.leaves [of "demo_daemon (Exiting (Inr ?st)) ?u [?e] [] 1 True True"]
    by (simp add: demo_daemon_defs)
  note i = daemon_reach.inside
  show ?thesis by (rule i [OF i [OF demo_draining 1] 2])
qed

text \<open>The second claim is refused with the worker running.\<close>

lemma demo_early_exit:
  "daemon_reach demo_env refusing_pg demo_conf demo_empty (demo_daemon (Returned (Inl (Sqlx Sqlx_Io)))
     (demo_at 4 (lease_row 2 demo_row)) [Running [demo_claim]] [0] 1 False False)"
proof -
  let ?L = "loop_step demo_env refusing_pg demo_conf"
  let ?v = "demo_at 3 (lease_row 2 demo_row)" and ?u = "demo_at 4 (lease_row 2 demo_row)"
  let ?t = "Running [demo_claim]" and ?e = "Inl (Sqlx Sqlx_Io)"
  have 1: "?L (demo_daemon Top ?v [?t] [0] 1 False True) (demo_daemon Claiming ?v [?t] [0] 1 False True)"
    using loop_step.goes_on [of "demo_daemon Top ?v [?t] [0] 1 False True"] by (simp add: demo_daemon_defs)
  have "claim refusing_pg demo_conf (demo_daemon Claiming ?v [?t] [0] 1 False True) ?e ?u"
    by (auto simp: claim_def claim_batch_def exec_def refusing_pg_def demo_pg_def demo_daemon_defs demo_at_def running_def)
  then have 2: "?L (demo_daemon Claiming ?v [?t] [0] 1 False True) (demo_daemon (Exiting ?e) ?u [?t] [0] 1 False True)"
    using pool_step.claim_fails [where s = "demo_daemon Claiming ?v [?t] [0] 1 False True" and e = "Sqlx Sqlx_Io"]
    by (intro loop_step.pool) (simp add: demo_daemon_defs)
  have 3: "?L (demo_daemon (Exiting ?e) ?u [?t] [0] 1 False True) (demo_daemon (Returned ?e) ?u [?t] [0] 1 False False)"
    using loop_step.leaves [of "demo_daemon (Exiting ?e) ?u [?t] [0] 1 False True"] by (simp add: demo_daemon_defs)
  note i = daemon_reach.inside
  show ?thesis by (rule i [OF i [OF i [OF daemon_midway 1] 2] 3]) simp
qed

section \<open>What the loop promises\<close>

text \<open>
  C14. A clean stop leaves nothing behind: \<open>run_daemon_loop\<close> returns success only after the
  token was cancelled, with every worker it ever spawned ended without an error and joined,
  every permit free, no row in progress, the readiness flag down, and each batch counted; the
  sweeps may have run at any moment before or since.
\<close>

theorem daemon_stops_clean:
  assumes "alone P" and "keys_ok E" and "orders_ok E" and "db_ok (wdb w)"
    and "daemon_reach E P C w s" and "cs_pc s = Returned (Inr st)"
  shows "ds_cancelled s \<and> \<not> ds_alive s
    \<and> (\<forall>t \<in> set (cs_tasks s). \<exists>b. t = Ended b (Finished (Inr ()))) \<and> cs_permits s = cf_concurrency C
    \<and> (\<forall>r \<in> set (pubkeys (wdb (cs_world s))). row_status r \<noteq> In_Progress)
    \<and> batches_processed st = length (cs_tasks s)
    \<and> authors_claimed st = length (concat (map batch_of (cs_tasks s)))"
proof -
  have r: "alone P \<and> keys_ok E \<and> orders_ok E \<and> db_ok (wdb w) \<and> daemon_reach E P C w s"
    using assms by simp
  have "ds_cancelled s \<and> \<not> ds_alive s"
    using daemon_reach_ok [OF assms(5,1-4)] assms(6) by (simp add: daemon_ok_def loop_ok_def)
  then show ?thesis using run_daemon_loop.clean_end [OF r assms(6)] by blast
qed

theorem daemon_stops_clean_witness:
  "\<exists>s. daemon_reach demo_env demo_pg demo_conf demo_empty s \<and> length (cs_tasks s) = 1
     \<and> \<not> ds_alive s \<and> (\<forall>r \<in> set (pubkeys (wdb (cs_world s))). row_status r \<noteq> In_Progress)"
proof -
  let ?st = "\<lparr>reclaimed_on_startup = 0, authors_claimed = 1, batches_processed = 1\<rparr>"
  let ?s = "demo_daemon (Returned (Inr ?st)) (demo_at 4 demo_missed) [Ended [demo_claim] (Finished (Inr ()))] [] 1 True False"
  have pc: "cs_pc ?s = Returned (Inr ?st)" and l: "length (cs_tasks ?s) = 1" by (simp_all add: demo_daemon_defs)
  show ?thesis
    using daemon_stops_clean [OF demo_alone demo_keys_ok demo_orders_ok demo_empty_ok demo_clean_stop pc]
      demo_clean_stop l by blast
qed

text \<open>
  \<open>drain_all\<close> waits for everyone: whenever the drain has gone through its handles, after an
  empty claim or for the stop, no worker is running, also when the first error it kept is
  about to be returned; and when it kept none, no lease is held.
\<close>

theorem daemon_drain_waits:
  assumes "alone P" and "keys_ok E" and "orders_ok E" and "db_ok (wdb w)"
    and "daemon_reach E P C w s" and "cs_pc s = Draining [] first_err final"
  shows "running s = 0 \<and> cs_permits s = cf_concurrency C
    \<and> (first_err = None \<longrightarrow> leased (wdb (cs_world s)) = {})"
proof -
  have I: "pool_ok C s" "loop_ok s" using daemon_reach_ok [OF assms(5,1-4)] by (simp_all add: daemon_ok_def)
  have e: "\<forall>h < length (cs_tasks s). \<not> is_running (cs_tasks s ! h)" and h: "cs_handles s = []"
    using I(2) assms(6) by (auto simp: loop_ok_def)
  then have a: "\<forall>t \<in> set (cs_tasks s). \<not> is_running t" by (metis in_set_conv_nth)
  have r: "running s = 0" "live_ids s = []"
    using running_live [OF a] assms(6) by (simp_all add: live_ids_def live_def)
  have "leased (wdb (cs_world s)) = {}" if "first_err = None"
  proof -
    have "\<forall>t \<in> set (cs_tasks s). \<not> failed t"
      using all_ended [OF pool_okD(3) [OF I(1)] h] assms(6) that by simp
    then show ?thesis using pool_okD(6) [OF I(1)] r(2) assms(6) that by (simp add: healthy_def)
  qed
  then show ?thesis using r(1) pool_okD(1) [OF I(1)] by simp
qed

theorem daemon_drain_waits_witness:
  "\<exists>s. daemon_reach demo_env demo_pg demo_conf demo_empty s \<and> length (cs_tasks s) = 1 \<and> running s = 0
     \<and> cs_permits s = 1"
proof -
  let ?s = "demo_daemon (Draining [] None True) (demo_at 4 demo_missed) [Ended [demo_claim] (Finished (Inr ()))] [] 1 True True"
  have pc: "cs_pc ?s = Draining [] None True" and l: "length (cs_tasks ?s) = 1" by (simp_all add: demo_daemon_defs)
  show ?thesis
    using daemon_drain_waits [OF demo_alone demo_keys_ok demo_orders_ok demo_empty_ok demo_draining pc]
      demo_draining l by (auto simp: demo_conf_def)
qed

text \<open>
  Cancellation is honoured at the claim boundary: from the moment the token is cancelled
  the loop takes no further batch, but for the one claim that may be under way at that
  moment.
\<close>

theorem daemon_claims_no_more:
  assumes "ds_cancelled s" and "daemon_run E P C s n s'"
  shows "length (spawned s') \<le> length (spawned s) + (if cs_pc s = Claiming then 1 else 0)"
  using daemon_run_rank [OF assms(2,1)] by (cases "cs_pc s") (simp_all add: claimed_at_most_def)

theorem daemon_claims_no_more_witness:
  "\<exists>n s'. daemon_run demo_env demo_pg demo_conf demo_stopping n s' \<and> 0 < n
     \<and> length (spawned s') \<le> 1"
proof -
  have c: "ds_cancelled demo_stopping" and l: "spawned demo_stopping = [[demo_claim]]" "cs_pc demo_stopping = Top"
    by (simp_all add: demo_stopping_def demo_daemon_defs spawned_def)
  show ?thesis
    by (rule exI [of _ 3], intro exI conjI, rule demo_stopping_run, simp)
      (use daemon_claims_no_more [OF c demo_stopping_run] l in simp)
qed

text \<open>
  C16. Shutdown ends: after the cancellation the loop and its workers can make at most as many
  moves as the rank of the state says, however they interleave, whatever fails and whatever
  the sweeps do in between, and until the loop has returned there is always a next one.
\<close>

theorem daemon_shutdown_ends:
  assumes "alone P" and "keys_ok E" and "orders_ok E" and "db_ok (wdb w)"
    and "0 < cf_concurrency C" and "cf_args C \<noteq> {}"
    and "daemon_reach E P C w s" and "ds_cancelled s" and "daemon_run E P C s n s'"
  shows "n \<le> rank (cs_pc s) + length (cs_handles s) + running s
    \<and> ((\<exists>r. cs_pc s' = Returned r) \<or> (\<exists>s''. loop_step E P C s' s''))"
proof -
  have "daemon_ok C s'" using daemon_reach_ok [OF daemon_run_reach [OF assms(9,7)] assms(1-4)] .
  then have "(\<exists>r. cs_pc s' = Returned r) \<or> (\<exists>s''. loop_step E P C s' s'')"
    using loop_progress [OF _ assms(5,6)] by blast
  then show ?thesis using daemon_run_rank [OF assms(9,8)] by (simp add: shutdown_rank_def)
qed

theorem daemon_shutdown_ends_witness:
  "\<exists>n s'. daemon_run demo_env demo_pg demo_conf demo_stopping n s' \<and> 0 < n \<and> n \<le> 5"
proof -
  have c: "ds_cancelled demo_stopping" and r: "rank (cs_pc demo_stopping) + length (cs_handles demo_stopping)
      + running demo_stopping = 5"
    by (simp_all add: demo_stopping_def demo_daemon_defs running_def)
  have a: "0 < cf_concurrency demo_conf" "cf_args demo_conf \<noteq> {}" by (simp_all add: demo_conf_def)
  show ?thesis
    by (rule exI [of _ 3], intro exI conjI, rule demo_stopping_run, simp)
      (use daemon_shutdown_ends [OF demo_alone demo_keys_ok demo_orders_ok demo_empty_ok a demo_stopping_reach c
        demo_stopping_run, unfolded r] in blast)
qed

text \<open>
  The guarantee does not extend to the loop's other exits: when the round trip of a claim
  fails, the \<open>?\<close> leaves the loop without \<open>drain_all\<close>. There is a run in which the daemon has
  returned that error with the flag down while a worker is running that nobody will join, and
  its author is leased.
\<close>

theorem daemon_error_detaches:
  "\<exists>E P C w s. alone P \<and> keys_ok E \<and> orders_ok E \<and> db_ok (wdb w) \<and> daemon_reach E P C w s
    \<and> cs_pc s = Returned (Inl (Sqlx Sqlx_Io)) \<and> \<not> ds_alive s
    \<and> running s = 1 \<and> leased (wdb (cs_world s)) = {1}"
proof -
  let ?s = "demo_daemon (Returned (Inl (Sqlx Sqlx_Io))) (demo_at 4 (lease_row 2 demo_row))
      [Running [demo_claim]] [0] 1 False False"
  have "cs_pc ?s = Returned (Inl (Sqlx Sqlx_Io))" "\<not> ds_alive ?s" "running ?s = 1"
    by (simp_all add: demo_daemon_defs running_def)
  moreover have "leased (wdb (cs_world ?s)) = {1}"
    by (auto simp: leased_def demo_daemon_defs demo_at_def row_by_id_def lease_row_def demo_row_def new_row_def
        split: if_splits)
  ultimately show ?thesis
    using alone_refusing demo_keys_ok demo_orders_ok demo_empty_ok demo_early_exit by blast
qed

text \<open>The lease swept away an hour later, and claimed again, with the worker still running.\<close>

definition swept_world :: world where
  "swept_world = in_run_reclaim_tick hour_pg 300 (demo_at 3 (lease_row 2 demo_row))"

lemma swept_world: "wdb swept_world = wdb (demo_at 4 demo_row)" "wtick swept_world = 4"
  by (simp_all add: swept_world_def in_run_reclaim_tick_def counting_def reclaim_in_progress_older_than_def
      exec_def release_where_def rows_affected_def update_rows_def demo_at_def lease_row_def demo_row_def
      new_row_def release_row_def expired_lease_def before_def hour_pg_def demo_pg_def)

lemma demo_claims_again:
  "claim demo_pg demo_conf (s\<lparr>cs_world := swept_world\<rparr>) (Inr [demo_claim])
     (swept_world\<lparr>wdb := wdb (demo_at 4 (lease_row 4 demo_row)), wtick := 5\<rparr>)"
  unfolding claim_def
  by (rule exI [of _ "\<lambda>_ _. False"])
    (simp add: claim_batch_def exec_def demo_pg_def demo_conf_def claim_stmt_def claimable_def swept_world
      demo_at_def demo_row_def new_row_def Let_def update_rows_def claimed_author_of_def demo_claim_def lease_row_def)

lemma demo_swept:
  "daemon_reach demo_env demo_pg demo_conf demo_empty (demo_daemon (Claimed [demo_claim])
     (swept_world\<lparr>wdb := wdb (demo_at 4 (lease_row 4 demo_row)), wtick := 5\<rparr>) [Running [demo_claim]] [0] 2 False True)"
proof -
  let ?L = "loop_step demo_env demo_pg demo_conf"
  let ?v = "demo_at 3 (lease_row 2 demo_row)" and ?u = swept_world
  let ?w = "swept_world\<lparr>wdb := wdb (demo_at 4 (lease_row 4 demo_row)), wtick := 5\<rparr>"
  let ?t = "Running [demo_claim]"
  have 1: "outside_step (demo_daemon Top ?v [?t] [0] 1 False True) (demo_daemon Top ?u [?t] [0] 1 False True)"
    using outside_step.reclaims [OF alone_quiet [OF quiet_hour], where age_secs = 300
        and s = "demo_daemon Top ?v [?t] [0] 1 False True"]
    by (simp add: demo_daemon_defs swept_world_def)
  have 2: "?L (demo_daemon Top ?u [?t] [0] 1 False True) (demo_daemon Claiming ?u [?t] [0] 1 False True)"
    using loop_step.goes_on [of "demo_daemon Top ?u [?t] [0] 1 False True"] by (simp add: demo_daemon_defs)
  have 3: "?L (demo_daemon Claiming ?u [?t] [0] 1 False True) (demo_daemon (Claimed [demo_claim]) ?w [?t] [0] 2 False True)"
    using pool_step.claims [where s = "demo_daemon Claiming ?u [?t] [0] 1 False True" and batch = "[demo_claim]"]
      demo_claims_again [of "demo_daemon Claiming ?u [?t] [0] 1 False True"]
    by (intro loop_step.pool) (simp add: demo_daemon_defs counted_def eval_nat_numeral)
  have 0: "daemon_reach demo_env demo_pg demo_conf demo_empty (demo_daemon Top ?v [?t] [0] 1 False True)"
    by (rule daemon_midway) simp
  note i = daemon_reach.inside
  show ?thesis by (rule i [OF i [OF daemon_reach.outside [OF 0 1] 2] 3])
qed

text \<open>
  The age-based sweep can take the lease of a fetch that is under way: the age counts from
  the claim, whatever the batch is waiting for. There is a healthy run in which an author is
  in the batch of a running worker and, once swept, in a second batch as well.
\<close>

theorem daemon_sweeps_live_lease:
  "\<exists>E P C w s. alone P \<and> keys_ok E \<and> orders_ok E \<and> db_ok (wdb w) \<and> daemon_reach E P C w s
    \<and> healthy s \<and> running s = 1 \<and> live_ids s = [1, 1]"
proof -
  let ?w = "swept_world\<lparr>wdb := wdb (demo_at 4 (lease_row 4 demo_row)), wtick := 5\<rparr>"
  let ?s = "demo_daemon (Claimed [demo_claim]) ?w [Running [demo_claim]] [0] 2 False True"
  have "healthy ?s" "running ?s = 1" "live_ids ?s = [1, 1]"
    by (simp_all add: demo_daemon_defs healthy_def running_def live_ids_def live_def demo_claim_def)
  then show ?thesis using demo_alone demo_keys_ok demo_orders_ok demo_empty_ok demo_swept by blast
qed

end
