(* ===== verification/Fanout.thy ===== *)
theory Fanout imports Batch begin

text \<open>
  The closures of \<open>src/daemon/mod.rs\<close> that the loop injects into every batch: the health-driven
  fetch over the curated relays, the fallback to an author's write relays, and the fetch of
  its relay list. One client serves all of them. The moments the closures read the clock at
  are arguments; the admission gate, whose concurrency is the subject of \<open>Admission\<close>, shows
  here as the slot it counts in and out around the fetch.
\<close>

section \<open>The constants\<close>

definition WANT_KIND :: kind where "WANT_KIND = ContactList"
definition FUTURE_CLAMP_SECS :: u64 where "FUTURE_CLAMP_SECS = 3600"
definition FOLLOW_CAP :: nat where "FOLLOW_CAP = 10000"
definition MAX_AUTHORS_PER_REQ :: nat where "MAX_AUTHORS_PER_REQ = DEFAULT_MAX_LIMIT"

section \<open>The closures\<close>

text \<open>
  What the closures capture, and what they share behind \<open>Arc\<close>. \<open>'s\<close> is the state of the
  client. A turn is one iteration: the instant, the wall clock, and the time the fetch took.
\<close>

record 's fan_conf =
  fc_rnd :: "real \<Rightarrow> real"
  fc_http_get :: "ustring \<Rightarrow> response"
  fc_parse :: doc_parser
  fc_client :: "'s client"
  fc_relays :: "ustring list"
  fc_timeout :: duration
  fc_threshold :: real

record 's fan =
  fan_health :: health
  fan_limiter :: limiter_registry
  fan_cache :: limit_cache
  fan_client :: 's

record turn =
  tn_instant :: nat
  tn_clock :: timestamp
  tn_latency :: duration

text \<open>One relay's fetch, between the slot's count in and out.\<close>

definition ask_relay ::
  "'s fan_conf \<Rightarrow> turn \<Rightarrow> pubkey list \<Rightarrow> kind \<Rightarrow> ustring \<Rightarrow> 's fan \<Rightarrow> (relay_error + event list) \<times> 's fan" where
  "ask_relay C t authors kind relay_url F =
     (let (limits, cache1) = get_or_fetch (fc_http_get C) (fc_parse C) relay_url (fan_cache F);
          H1 = incr_in_use relay_url (fan_health F);
          (outcome, R1, s1) = fetch_complete_with_timeout (tn_clock t) (fc_client C) relay_url authors kind
             (max_limit limits) MAX_AUTHORS_PER_REQ (fc_timeout C) (fan_limiter F, fan_client F)
      in (outcome, \<lparr>fan_health = decr_in_use relay_url H1, fan_limiter = R1, fan_cache = cache1,
            fan_client = s1\<rparr>))"

fun fan_out ::
  "'s fan_conf \<Rightarrow> (nat \<Rightarrow> turn) \<Rightarrow> pubkey list \<Rightarrow> ustring list \<Rightarrow> nat \<Rightarrow> event list \<Rightarrow> 's fan
   \<Rightarrow> (relay_error + event list) \<times> 's fan" where
  "fan_out C turns authors [] i got F = (Inr got, F)"
| "fan_out C turns authors (relay_url # relays) i got F =
     (let (allowed, H1) = try_mark_attempt relay_url (fc_threshold C) (tn_instant (turns i)) (fan_health F)
      in if \<not> allowed then fan_out C turns authors relays (Suc i) got F
         else
           let (outcome, F1) = ask_relay C (turns i) authors WANT_KIND relay_url (F\<lparr>fan_health := H1\<rparr>);
               F2 = F1\<lparr>fan_health := record_fetch_health (fc_rnd C) relay_url (tn_latency (turns i)) outcome
                  (fan_health F1)\<rparr>
           in case outcome of
                Inl e \<Rightarrow> (Inl e, F2)
              | Inr events \<Rightarrow>
                  fan_out C turns authors relays (Suc i) (got @ events)
                    (F2\<lparr>fan_limiter := limiter_reset relay_url (fan_limiter F2)\<rparr>))"

definition fetch_union ::
  "env \<Rightarrow> 's fan_conf \<Rightarrow> (nat \<Rightarrow> turn) \<Rightarrow> claimed_author list \<Rightarrow> 's fan
   \<Rightarrow> (relay_error + event list) \<times> 's fan" where
  "fetch_union E C turns batch F =
     (let authors = List.map_filter (\<lambda>c. sdk_from_slice E (ca_pubkey c)) batch
      in if authors = [] then (Inr [], F) else fan_out C turns authors (fc_relays C) 0 [] F)"

text \<open>The two fallback closures have one loop, over the write relays and the curated ones.\<close>

fun ask_all ::
  "'s fan_conf \<Rightarrow> (nat \<Rightarrow> turn) \<Rightarrow> pubkey list \<Rightarrow> kind \<Rightarrow> ustring list \<Rightarrow> nat \<Rightarrow> event list \<Rightarrow> 's fan
   \<Rightarrow> (relay_error + event list) \<times> 's fan" where
  "ask_all C turns authors kind [] i got F = (Inr got, F)"
| "ask_all C turns authors kind (relay_url # relays) i got F =
     (case ask_relay C (turns i) authors kind relay_url F of
        (Inl e, F1) \<Rightarrow> (Inl e, F1)
      | (Inr events, F1) \<Rightarrow> ask_all C turns authors kind relays (Suc i) (got @ events) F1)"

definition fallback_fetch ::
  "'s fan_conf \<Rightarrow> (nat \<Rightarrow> turn) \<Rightarrow> pubkey \<Rightarrow> ustring list \<Rightarrow> 's fan
   \<Rightarrow> (relay_error + event list) \<times> 's fan" where
  "fallback_fetch C turns author urls F = ask_all C turns [author] WANT_KIND urls 0 [] F"

definition relay_list_fetch ::
  "'s fan_conf \<Rightarrow> (nat \<Rightarrow> turn) \<Rightarrow> pubkey \<Rightarrow> 's fan \<Rightarrow> (relay_error + event list) \<times> 's fan" where
  "relay_list_fetch C turns author F = ask_all C turns [author] RelayList (fc_relays C) 0 [] F"

section \<open>What they return\<close>

lemma ask_relay_set:
  assumes "client_truthful pool (fc_timeout C) (fc_client C)"
    and "ask_relay C t authors k relay_url F = (Inr events, F')"
  shows "set events = matching pool authors k (tn_clock t)"
  using assms(2) fetch_complete_set [OF assms(1)] by (auto simp: ask_relay_def Let_def split: prod.splits)

lemma ask_all_set:
  assumes "client_truthful pool (fc_timeout C) (fc_client C)"
    and "ask_all C turns authors k relays i got F = (Inr events, F')"
  shows "set events = set got \<union> (\<Union>j < length relays. matching pool authors k (tn_clock (turns (i + j))))"
  using assms(2)
proof (induction relays arbitrary: i got F)
  case (Cons r rs)
  from Cons.prems obtain evs F1 where a: "ask_relay C (turns i) authors k r F = (Inr evs, F1)"
    and rest: "ask_all C turns authors k rs (Suc i) (got @ evs) F1 = (Inr events, F')"
    by (auto split: prod.splits sum.splits)
  have "set evs = matching pool authors k (tn_clock (turns i))" by (rule ask_relay_set [OF assms(1) a])
  then show ?case
    using Cons.IH [OF rest] by (simp add: lessThan_Suc_eq_insert_0 image_image Un_assoc)
qed simp

lemma in_use_scores [simp]:
  "h_scores (incr_in_use r H) = h_scores H" "h_scores (decr_in_use r H) = h_scores H"
  "h_last_probe (incr_in_use r H) = h_last_probe H" "h_last_probe (decr_in_use r H) = h_last_probe H"
  by (simp_all add: incr_in_use_def decr_in_use_def split: option.split)

lemma ask_relay_scores:
  "ask_relay C t authors k r F = (x, F') \<Longrightarrow> h_scores (fan_health F') = h_scores (fan_health F)
    \<and> h_last_probe (fan_health F') = h_last_probe (fan_health F)"
  by (auto simp: ask_relay_def Let_def split: prod.splits)

lemma ask_all_scores:
  "ask_all C turns authors k rs i got F = (x, F') \<Longrightarrow> h_scores (fan_health F') = h_scores (fan_health F)
    \<and> h_last_probe (fan_health F') = h_last_probe (fan_health F)"
proof (induction rs arbitrary: i got F)
  case (Cons r rs)
  then show ?case using ask_relay_scores by (fastforce split: prod.splits sum.splits)
qed simp

lemma fan_out_skips:
  assumes "\<forall>r \<in> set relays. \<forall>i. score (fan_health F) r < fc_threshold C
      \<and> \<not> probe_due (h_last_probe (fan_health F) r) (tn_instant (turns i))"
  shows "fan_out C turns authors relays i got F = (Inr got, F)"
  using assms
proof (induction relays arbitrary: i)
  case (Cons r rs)
  then have "try_mark_attempt r (fc_threshold C) (tn_instant (turns i)) (fan_health F) = (False, fan_health F)"
    by (simp add: try_mark_attempt_def)
  then show ?case using Cons by simp
qed simp

text \<open>With every relay in good health, all of them are asked.\<close>

lemma score_fan:
  assumes "ask_relay C t authors k r (F\<lparr>fan_health := mark_attempt r now (fan_health F)\<rparr>) = (x, F1)"
    and "q \<noteq> r"
  shows "score (record_fetch_health rnd r lat x (fan_health F1)) q = score (fan_health F) q"
proof -
  have "h_scores (fan_health F1) = h_scores (fan_health F)"
    using ask_relay_scores [OF assms(1)] by (simp add: mark_attempt_def)
  then show ?thesis using assms(2)
    by (auto simp: record_fetch_health_def record_success_def record_timeout_def record_connect_failure_def
        health_update_def score_def Let_def split: sum.split relay_error.split)
qed

lemma fan_out_set:
  assumes T: "client_truthful pool (fc_timeout C) (fc_client C)" and "distinct relays"
    and "\<forall>r \<in> set relays. fc_threshold C \<le> score (fan_health F) r"
    and "fan_out C turns authors relays i got F = (Inr events, F')"
  shows "set events = set got
    \<union> (\<Union>j < length relays. matching pool authors WANT_KIND (tn_clock (turns (i + j))))"
  using assms(2-4)
proof (induction relays arbitrary: i got F)
  case (Cons r rs)
  let ?H = "mark_attempt r (tn_instant (turns i)) (fan_health F)"
  have m: "try_mark_attempt r (fc_threshold C) (tn_instant (turns i)) (fan_health F) = (True, ?H)"
    using Cons.prems(2) by (simp add: try_mark_attempt_def)
  obtain x F1 where a: "ask_relay C (turns i) authors WANT_KIND r (F\<lparr>fan_health := ?H\<rparr>) = (x, F1)"
    by (metis prod.collapse)
  obtain evs where x: "x = Inr evs" using Cons.prems(3) m a by (cases x) simp_all
  let ?F2 = "F1\<lparr>fan_health := record_fetch_health (fc_rnd C) r (tn_latency (turns i)) x (fan_health F1)\<rparr>"
  let ?F3 = "?F2\<lparr>fan_limiter := limiter_reset r (fan_limiter ?F2)\<rparr>"
  have rest: "fan_out C turns authors rs (Suc i) (got @ evs) ?F3 = (Inr events, F')"
    using Cons.prems(3) m a x by simp
  have "\<forall>q \<in> set rs. fc_threshold C \<le> score (fan_health ?F3) q"
  proof
    fix q assume q: "q \<in> set rs"
    then have "q \<noteq> r" using Cons.prems(1) by auto
    then show "fc_threshold C \<le> score (fan_health ?F3) q"
      using Cons.prems(2) q by (simp add: score_fan [OF a])
  qed
  note IH = Cons.IH [OF _ this rest]
  have "set evs = matching pool authors WANT_KIND (tn_clock (turns i))"
    using ask_relay_set [OF T] a x by blast
  then show ?case
    using IH Cons.prems(1) by (simp add: lessThan_Suc_eq_insert_0 image_image Un_assoc)
qed simp

text \<open>One relay that is connected and stores one list, and another that is a stranger's.\<close>

definition demo_fan_conf :: "unit fan_conf" where
  "demo_fan_conf = \<lparr>fc_rnd = demo_rnd, fc_http_get = (\<lambda>_. Inl []), fc_parse = (\<lambda>_. Inl []),
     fc_client = demo_client, fc_relays = [[119]], fc_timeout = 5, fc_threshold = 1 / 4\<rparr>"

definition demo_turns :: "nat \<Rightarrow> turn" where
  "demo_turns i = \<lparr>tn_instant = i, tn_clock = 100, tn_latency = 0\<rparr>"

definition demo_fan :: "unit fan" where
  "demo_fan = \<lparr>fan_health = health_new 1, fan_limiter = limiter_new, 
     fan_cache = (\<lambda>_. Some \<lparr>max_limit = 2, max_subscriptions = 20, max_filters = 10\<rparr>), fan_client = ()\<rparr>"

definition demo_outage :: "unit fan" where
  "demo_outage = demo_fan\<lparr>fan_health := \<lparr>h_alpha = 1, h_scores = [[119] \<mapsto> 0], h_in_use = (\<lambda>_. None),
     h_last_probe = [[119] \<mapsto> 0]\<rparr>\<rparr>"

lemma demo_fan_truthful: "client_truthful {demo_page} (fc_timeout demo_fan_conf) (fc_client demo_fan_conf)"
  using newest_single [of demo_page] by (simp add: client_truthful_def demo_client_def demo_fan_conf_def)

lemma demo_fetched:
  "fst (fetch_complete_with_timeout 100 demo_client url [7] ContactList 2 500 5 (limiter_new, ())) = Inr [demo_page]"
  by (simp add: fetch_complete_with_timeout_def chunks_def paginate_chunk_gated_def paginate_chunk_def
      Let_def)
    (subst paginate_loop.simps,
     simp add: MAX_PAGES_PER_CHUNK_def gated_def fetch_window_with_deadline_def demo_client_def
       demo_page_def oldest_of_def page_back_def Let_def)

lemma demo_ask:
  assumes "fan_cache F = fan_cache demo_fan" "fan_limiter F = limiter_new"
  shows "\<exists>F'. ask_relay demo_fan_conf (demo_turns i) [7] ContactList url F = (Inr [demo_page], F')"
proof -
  obtain R s where "fetch_complete_with_timeout 100 demo_client url [7] ContactList 2 500 5 (limiter_new, ())
      = (Inr [demo_page], R, s)"
    using demo_fetched [of url] by (metis prod.collapse)
  then show ?thesis using assms
    by (simp add: ask_relay_def demo_fan_conf_def demo_turns_def get_or_fetch_def demo_fan_def
        DEFAULT_MAX_LIMIT_def MAX_AUTHORS_PER_REQ_def Let_def)
qed

lemma no_events:
  assumes "orders_ok E"
  shows "fst (ingest_events E [] k req now clamp cap m) = []"
proof -
  have "mset (group_order E []) = mset []" using assms by (simp add: orders_ok_def)
  then show ?thesis by (simp add: ingest_events_def)
qed

lemma fetch_union_set:
  assumes "client_truthful pool (fc_timeout C) (fc_client C)" and "distinct (fc_relays C)"
    and "\<forall>r \<in> set (fc_relays C). fc_threshold C \<le> score (fan_health F) r"
    and "fetch_union E C turns batch F = (Inr events, F')"
  shows "set events = {e \<in> pool. ev_kind e = 3
      \<and> (\<exists>c \<in> set batch. sdk_from_slice E (ca_pubkey c) = Some (ev_pubkey e))
      \<and> (\<exists>i < length (fc_relays C). ev_created_at e \<le> tn_clock (turns i))}"
proof -
  let ?A = "List.map_filter (\<lambda>c. sdk_from_slice E (ca_pubkey c)) batch"
  have A: "a \<in> set ?A \<longleftrightarrow> (\<exists>c \<in> set batch. sdk_from_slice E (ca_pubkey c) = Some a)" for a
    by (auto simp: List.map_filter_def image_iff)
  show ?thesis
  proof (cases "?A = []")
    case True
    then have "\<not> (\<exists>c \<in> set batch. sdk_from_slice E (ca_pubkey c) = Some a)" for a using A [of a] by simp
    then show ?thesis using assms(4) True by (auto simp: fetch_union_def)
  next
    case False
    then have "fan_out C turns ?A (fc_relays C) 0 [] F = (Inr events, F')"
      using assms(4) by (simp add: fetch_union_def)
    from fan_out_set [OF assms(1-3) this] show ?thesis
      using A by (auto simp: matching_def WANT_KIND_def ContactList_def)
  qed
qed

section \<open>What the closures promise\<close>

text \<open>
  The fan-out misses nothing: with every curated relay in good health, a union that is
  returned holds exactly the stored lists of the batch's authors that the connected relays
  have, as of each relay's turn; a relay that fails or is slow makes it an error instead.
\<close>

theorem fan_out_complete:
  assumes "client_truthful pool (fc_timeout C) (fc_client C)" and "distinct (fc_relays C)"
    and "\<forall>r \<in> set (fc_relays C). fc_threshold C \<le> score (fan_health F) r"
    and "fetch_union E C turns batch F = (Inr events, F')"
  shows "set events = {e \<in> pool. ev_kind e = 3
      \<and> (\<exists>c \<in> set batch. sdk_from_slice E (ca_pubkey c) = Some (ev_pubkey e))
      \<and> (\<exists>i < length (fc_relays C). ev_created_at e \<le> tn_clock (turns i))}"
  by (rule fetch_union_set [OF assms])

theorem fan_out_complete_witness:
  "\<exists>events F'. fetch_union demo_env demo_fan_conf demo_turns [demo_claim] demo_fan = (Inr events, F')
    \<and> demo_page \<in> set events"
proof -
  let ?H = "mark_attempt [119] 0 (fan_health demo_fan)"
  have t: "try_mark_attempt [119] (fc_threshold demo_fan_conf) (tn_instant (demo_turns 0)) (fan_health demo_fan)
      = (True, ?H)"
    by (simp add: try_mark_attempt_def demo_fan_conf_def demo_turns_def demo_fan_def score_def health_new_def)
  obtain F1 where a: "ask_relay demo_fan_conf (demo_turns 0) [7] ContactList [119] (demo_fan\<lparr>fan_health := ?H\<rparr>)
      = (Inr [demo_page], F1)"
    using demo_ask [of "demo_fan\<lparr>fan_health := ?H\<rparr>" 0 "[119]"] by (auto simp: demo_fan_def)
  have "fetch_union demo_env demo_fan_conf demo_turns [demo_claim] demo_fan
      = fan_out demo_fan_conf demo_turns [7] [[119]] 0 [] demo_fan"
  proof -
    have "fc_relays demo_fan_conf = [[119]]" by (simp add: demo_fan_conf_def)
    then show ?thesis using demo_claim_author by (simp add: fetch_union_def List.map_filter_def del: fan_out.simps)
  qed
  then obtain F' where f: "fetch_union demo_env demo_fan_conf demo_turns [demo_claim] demo_fan = (Inr [demo_page], F')"
    using t a by (simp add: WANT_KIND_def)
  have d: "distinct (fc_relays demo_fan_conf)"
      "\<forall>r \<in> set (fc_relays demo_fan_conf). fc_threshold demo_fan_conf \<le> score (fan_health demo_fan) r"
    by (simp_all add: demo_fan_conf_def demo_fan_def score_def health_new_def)
  have "demo_page \<in> set [demo_page]"
    using demo_claim_author
    by (subst fan_out_complete [OF demo_fan_truthful d f])
      (simp add: demo_page_def ContactList_def demo_fan_conf_def demo_turns_def)
  then show ?thesis using f by blast
qed

text \<open>
  C34. An outage is recorded as an answer: when every curated relay is below the threshold and
  no probe is due, the fan-out asks nobody and returns an empty union as a success. The batch
  then does not requeue its authors as after a failed fetch: it marks each of them not found,
  unless the NIP-65 fallback is enabled and delivers a list that passes the gate; without the
  fallback it marks all of them.
\<close>

theorem outage_not_found:
  assumes "shared (ca_id ` set batch) P" and "keys_ok E" and "orders_ok E" and "db_ok (wdb w)"
    and "\<forall>c \<in> set batch. claims_row (wdb w) c" and "distinct (map ca_id batch)"
    and "\<forall>r \<in> set (fc_relays C). \<forall>i. score (fan_health F) r < fc_threshold C
      \<and> \<not> probe_due (h_last_probe (fan_health F) r) (tn_instant (turns i))"
    and "fetch_union E C turns batch F = (u, F')"
  shows "u = Inr [] \<and> F' = F \<and> (\<exists>n w'. process_batch E P B batch u w = (Inr n, w')
    \<and> (\<forall>c \<in> set batch. \<exists>r. row_by_id (wdb w) (ca_id c) = Some r
         \<and> (missed (timestamp_to_datetime E (b_now B)) (ca_id c) r (wdb w) (wdb w') \<or> recovered E B c r (wdb w) (wdb w')))
    \<and> (\<not> b_fallback_enabled B \<longrightarrow>
         (\<forall>c \<in> set batch. map_option row_status (row_by_id (wdb w') (ca_id c)) = Some Not_Found)))"
proof -
  let ?stamp = "timestamp_to_datetime E (b_now B)"
  have u: "u = Inr []" "F' = F"
    using assms(8) fan_out_skips [OF assms(7)] by (auto simp: fetch_union_def Let_def split: if_splits)
  obtain n w' where p: "process_batch E P B batch (Inr []) w = (Inr n, w')"
    and s: "outcomes E B (index_by_author []) ?stamp batch (wdb w) (wdb w')"
    using process_batch_shared [OF assms(1-6) refl, of B "[]"] no_events [OF assms(3)]
    by (auto simp: delivers_def)
  have "index_by_author [] = (\<lambda>_. None)" by (simp add: index_by_author_def fun_eq_iff)
  then have each: "\<exists>r. row_by_id (wdb w) (ca_id c) = Some r
      \<and> (missed ?stamp (ca_id c) r (wdb w) (wdb w') \<or> recovered E B c r (wdb w) (wdb w'))" if "c \<in> set batch" for c
    using s that by (fastforce simp: outcomes_def author_outcome_def split: option.splits)
  moreover have "map_option row_status (row_by_id (wdb w') (ca_id c)) = Some Not_Found"
    if "\<not> b_fallback_enabled B" "c \<in> set batch" for c
    using each [OF that(2)] that(1) by (auto simp: missed_def recovered_def)
  ultimately show ?thesis using u p by blast
qed

theorem outage_not_found_witness:
  "\<exists>n w'. process_batch demo_env busy_pg demo_args [demo_claim]
      (fst (fetch_union demo_env demo_fan_conf (\<lambda>_. demo_turns 1) [demo_claim] demo_outage)) demo_batch_world = (Inr n, w')
    \<and> map_option row_status (row_by_id (wdb w') 1) = Some Not_Found"
proof -
  have o: "\<forall>r \<in> set (fc_relays demo_fan_conf). \<forall>i :: nat. score (fan_health demo_outage) r < fc_threshold demo_fan_conf
      \<and> \<not> probe_due (h_last_probe (fan_health demo_outage) r) (tn_instant (demo_turns 1))"
    by (simp add: demo_fan_conf_def demo_outage_def score_def probe_due_def demo_turns_def PROBE_INTERVAL_def)
  have b: "\<not> b_fallback_enabled demo_args" by (simp add: demo_args_def)
  obtain u F' where f: "fetch_union demo_env demo_fan_conf (\<lambda>_. demo_turns 1) [demo_claim] demo_outage = (u, F')"
    by (metis prod.collapse)
  show ?thesis
    using outage_not_found [OF shared_busy demo_keys_ok demo_orders_ok demo_batch_ok(1-3) o f, of demo_args] f b
    by (auto simp: demo_claim_def)
qed

text \<open>
  The NIP-65 fallback does not reach the write relays: what it returns for an author is
  what the connected relays store of it, whatever urls it was given, since the urls only key
  the rate limiter, the slots and the cached limits while the request goes to the client's
  own pool. And it reports no outcome, so no health score ever tells two write relays apart.
\<close>

theorem fallback_asks_own_pool:
  assumes "client_truthful pool (fc_timeout C) (fc_client C)"
    and "fallback_fetch C turns author urls F = (Inr events, F')"
  shows "set events = {e \<in> pool. ev_pubkey e = author \<and> ev_kind e = 3
      \<and> (\<exists>i < length urls. ev_created_at e \<le> tn_clock (turns i))}
    \<and> score (fan_health F') = score (fan_health F)"
proof -
  have a: "ask_all C turns [author] WANT_KIND urls 0 [] F = (Inr events, F')"
    using assms(2) by (simp add: fallback_fetch_def)
  show ?thesis
    using ask_all_set [OF assms(1) a] ask_all_scores [OF a]
    by (auto simp: matching_def WANT_KIND_def ContactList_def score_def)
qed

theorem fallback_asks_own_pool_witness:
  "\<exists>events F'. fallback_fetch demo_fan_conf demo_turns 7 [[120]] demo_fan = (Inr events, F')
    \<and> set events = {demo_page}"
proof -
  have "\<exists>F'. fallback_fetch demo_fan_conf demo_turns 7 [[120]] demo_fan = (Inr [demo_page], F')"
    using demo_ask [of demo_fan 0 "[120]"] by (auto simp: fallback_fetch_def WANT_KIND_def demo_fan_def)
  then show ?thesis
    using fallback_asks_own_pool [OF demo_fan_truthful] by (auto simp: demo_turns_def demo_page_def ContactList_def)
qed

end
