(* ===== verification/Daemon.thy ===== *)
theory Daemon imports Config Daemon_Loop Fanout begin

text \<open>
  \<open>src/daemon/mod.rs\<close> and \<open>src/main.rs\<close>: how \<open>run\<close> builds the loop's arguments, the registries
  and the sweeps' thresholds from the validated settings, and the binary's path from its
  argument to the exit code; what the readiness probe says of the loop.
\<close>

section \<open>From the settings to the parts\<close>

definition SHUTDOWN_TIMEOUT :: duration where "SHUTDOWN_TIMEOUT = 30 * 10 ^ 9"

text \<open>\<open>Duration::as_secs() as i64\<close>.\<close>

definition secs_i64 :: "duration \<Rightarrow> int" where
  "secs_i64 d = sint (of_nat (d div 10 ^ 9) :: 64 word)"

fun real_of_f64 :: "f64 \<Rightarrow> real" where
  "real_of_f64 (Finite x) = x"
| "real_of_f64 _ = 0"

definition batch_settings :: "config \<Rightarrow> batch_args \<Rightarrow> bool" where
  "batch_settings c B \<longleftrightarrow> b_kind B = WANT_KIND \<and> b_clamp B = FUTURE_CLAMP_SECS \<and> b_follow_cap B = FOLLOW_CAP
     \<and> b_max_attempts B = cfg_max_attempts c \<and> b_fallback_enabled B = cfg_nip65_fallback_enabled c
     \<and> b_max_write_relays B = cfg_nip65_max_write_relays c"

definition loop_conf :: "env \<Rightarrow> pubkey \<Rightarrow> config \<Rightarrow> crawl_conf" where
  "loop_conf E anchor c = \<lparr>cf_anchor = sdk_to_bytes E anchor, cf_batch_size = sint (cfg_batch_size c),
     cf_concurrency = cfg_concurrency c, cf_args = {B. batch_settings c B}\<rparr>"

definition daemon_limiter :: "config \<Rightarrow> limiter_registry option" where
  "daemon_limiter c = (if cfg_reqs_per_second c = 0 then None
     else Some (with_params (cfg_reqs_per_second c) DEFAULT_BACKOFF_BASE DEFAULT_BACKOFF_CAP))"

definition daemon_health :: "config \<Rightarrow> health" where
  "daemon_health c = health_new (real_of_f64 (cfg_health_alpha c))"

section \<open>The binary\<close>

text \<open>
  \<open>src/main.rs\<close>: the argument as text if it is UTF-8, the sources and the daemon with their
  errors as printed; the result is the exit code, the lines on stderr, and the configuration
  the daemon was started with, if it was.
\<close>

datatype exit_code = SUCCESS | FAILURE

definition crawler_main ::
  "ustring option \<Rightarrow> (ustring \<Rightarrow> ustring + raw_config) \<Rightarrow> (ustring \<Rightarrow> ustring + pubkey)
   \<Rightarrow> (config \<Rightarrow> ustring + unit) \<Rightarrow> exit_code \<times> ustring list \<times> config option" where
  "crawler_main arg build parse run =
     (case arg of
        None \<Rightarrow> (FAILURE, [lit ''error: --config path is not valid UTF-8''], None)
      | Some path \<Rightarrow>
          (case load_config build path of
             Inl e \<Rightarrow> (FAILURE, [lit ''error: failed to load config from '' @ path @ lit '': '' @ e], None)
           | Inr cfg \<Rightarrow>
               (case validate parse cfg of
                  Inl e \<Rightarrow> (FAILURE, [lit ''error: invalid config: '' @ e], None)
                | Inr _ \<Rightarrow>
                    (case run cfg of
                       Inr _ \<Rightarrow> (SUCCESS, [], Some cfg)
                     | Inl e \<Rightarrow> (FAILURE, [lit ''error: crawler daemon failed: '' @ e], Some cfg)))))"

text \<open>
  The daemon never starts on a configuration that does not validate, and one that was started
  came from the sources at the path of the argument.
\<close>

lemma main_fails_fast:
  assumes "crawler_main arg build parse run = (code, errs, started)"
  shows "(\<forall>c. started = Some c \<longrightarrow> validate parse c = Inr ()
      \<and> (\<exists>path raw. arg = Some path \<and> build path = Inr raw \<and> deserialize raw = Inr c))
    \<and> (code = SUCCESS \<longleftrightarrow> errs = []) \<and> (code = SUCCESS \<longleftrightarrow> (\<exists>c. started = Some c \<and> run c = Inr ()))"
  using assms by (auto simp: crawler_main_def load_config_def split: option.splits sum.splits)

section \<open>Readiness\<close>

text \<open>The probe reports ready exactly while the loop has not returned and the ping is answered.\<close>

lemma readiness:
  assumes "alone P" and "keys_ok E" and "orders_ok E" and "db_ok (wdb w)" and "daemon_reach E P C w s"
  shows "ready_handler (ds_alive s) ping_time ping_ok = OK
    \<longleftrightarrow> (\<forall>r. cs_pc s \<noteq> Returned r) \<and> ping_time < READY_PING_TIMEOUT \<and> ping_ok"
  using daemon_reach_ok [OF assms(5,1-4)] by (simp add: ready_OK daemon_ok_def loop_ok_def)

section \<open>What validation buys\<close>

lemma exec_error: "fst (exec P s w) \<noteq> Inl (InvalidPubkey n)"
  by (simp add: exec_def Let_def split: fault.split sum.split prod.split)

lemma seed_accepts:
  assumes "length k = 32"
  shows "fst (startup P k w) \<noteq> Inl (InvalidPubkey n)"
proof -
  obtain x w1 where s: "seed_anchor P k w = (x, w1)" by (metis prod.collapse)
  have "seed_anchor P k w = exec P (\<lambda>n d. Inr (insert_pubkey k d)) w"
    using assms by (simp add: seed_anchor_def upsert_pubkey_def PUBKEY_LEN_def)
  then have "x \<noteq> Inl (InvalidPubkey n)" using s exec_error by (metis fst_conv)
  then show ?thesis
    using s exec_error by (cases x) (auto simp: startup_def bind_io_def reclaim_stale_on_startup_def)
qed

lemma loop_conf_runs:
  assumes "validate parse c = Inr ()"
  shows "0 < cf_concurrency (loop_conf E anchor c)" "cf_args (loop_conf E anchor c) \<noteq> {}"
proof -
  show "0 < cf_concurrency (loop_conf E anchor c)" using assms by (simp add: validate_Inr loop_conf_def)
  have "batch_settings c \<lparr>b_kind = WANT_KIND, b_now = 0, b_clamp = FUTURE_CLAMP_SECS,
      b_follow_cap = FOLLOW_CAP, b_max_attempts = cfg_max_attempts c,
      b_fallback_enabled = cfg_nip65_fallback_enabled c, b_max_write_relays = cfg_nip65_max_write_relays c,
      b_health = (\<lambda>_. daemon_health c), b_fallback_fetch = (\<lambda>_ _. Inr []),
      b_relay_list_fetch = (\<lambda>_. Inr [])\<rparr>"
    by (simp add: batch_settings_def)
  then show "cf_args (loop_conf E anchor c) \<noteq> {}" unfolding loop_conf_def by auto
qed

text \<open>
  A configuration that passes the validation runs: the anchor is a key the store takes,
  the limiter can be built, the score stays a score, every claim asks for at least one row,
  and the loop, once its semaphore is built (\<open>Process\<close> has the exception), never gets stuck,
  whatever fails, before it has returned.
\<close>

theorem validated_daemon_runs:
  assumes "validate parse c = Inr ()" and "parse (cfg_anchor_pubkey c) = Inr anchor"
    and "alone P" and "keys_ok E" and "orders_ok E" and "db_ok (wdb w)"
    and "daemon_reach E P (loop_conf E anchor c) w s" and "\<forall>r. cs_pc s \<noteq> Returned r"
  shows "(\<exists>s'. loop_step E P (loop_conf E anchor c) s s')
    \<and> (\<forall>w n. fst (startup P (cf_anchor (loop_conf E anchor c)) w) \<noteq> Inl (InvalidPubkey n))
    \<and> daemon_limiter c \<noteq> None \<and> 0 < h_alpha (daemon_health c) \<and> h_alpha (daemon_health c) \<le> 1
    \<and> 0 < cf_batch_size (loop_conf E anchor c)"
proof -
  have v: "0 < sint (cfg_batch_size c)" "0 < cfg_reqs_per_second c"
      "\<exists>x. cfg_health_alpha c = Finite x \<and> 0 < x \<and> x \<le> 1"
    using assms(1) by (simp_all add: validate_Inr)
  have "\<exists>s'. loop_step E P (loop_conf E anchor c) s s'"
    by (rule loop_progress [OF daemon_reach_ok [OF assms(7,3-6)] loop_conf_runs [OF assms(1)] assms(8)])
  moreover have "length (cf_anchor (loop_conf E anchor c)) = 32"
    using to_bytes_length [OF assms(4)] by (simp add: loop_conf_def)
  ultimately show ?thesis
    using v seed_accepts by (auto simp: daemon_limiter_def daemon_health_def health_new_def loop_conf_def word_gt_0)
qed

definition demo_config :: config where
  "demo_config = projr (deserialize demo_raw)"

lemma demo_validates: "validate (\<lambda>_. Inr 7) demo_config = Inr ()"
  using demo_url
  by (simp add: demo_config_def demo_raw_def deserialize_def required_def with_default_def validate_Inr
      DEFAULT_CONCURRENCY_def DEFAULT_BATCH_SIZE_def DEFAULT_REQS_PER_SECOND_def
      DEFAULT_NIP65_MAX_WRITE_RELAYS_def DEFAULT_PER_RELAY_CONCURRENCY_def
      DEFAULT_RELAY_HEALTH_THRESHOLD_def DEFAULT_HEALTH_ALPHA_def)
    (rule conjI, rule exI [of _ "1 / 4"], simp, rule exI [of _ "3 / 10"], simp)

theorem validated_daemon_runs_witness:
  "\<exists>s s'. daemon_reach demo_env demo_pg (loop_conf demo_env 7 demo_config) demo_empty s
     \<and> loop_step demo_env demo_pg (loop_conf demo_env 7 demo_config) s s' \<and> 0 < h_alpha (daemon_health demo_config)"
proof -
  let ?C = "loop_conf demo_env 7 demo_config"
  let ?s = "daemon_begin ?C 0 False (demo_at 2 demo_row)"
  have r: "daemon_reach demo_env demo_pg ?C demo_empty ?s"
    by (rule daemon_reach.begins) (simp add: loop_conf_def demo_startup)
  have pc: "\<forall>r. cs_pc ?s \<noteq> Returned r" by (simp add: daemon_begin_def crawl_begin_def crawl_state.defs)
  show ?thesis
    using validated_daemon_runs [OF demo_validates _ demo_alone demo_keys_ok demo_orders_ok demo_empty_ok r pc] r
    by blast
qed

text \<open>
  The guard on the ttl is on the duration, the sweep uses whole seconds: a ttl of half a
  second passes the validation and reaches the sweep as 0, for which a row fetched a
  microsecond ago is stale; and one of \<open>2^63\<close> seconds wraps to a negative number of seconds.
\<close>

theorem ttl_rounds:
  assumes "validate parse c = Inr ()"
  shows "validate parse (c\<lparr>cfg_ttl := 5 * 10 ^ 8\<rparr>) = Inr () \<and> secs_i64 (5 * 10 ^ 8) = 0
    \<and> (\<forall>now r. stale now 0 (r\<lparr>row_status := Fetched, last_fetched_at := Some (now - 1)\<rparr>))
    \<and> validate parse (c\<lparr>cfg_ttl := 2 ^ 63 * 10 ^ 9\<rparr>) = Inr () \<and> secs_i64 (2 ^ 63 * 10 ^ 9) = - (2 ^ 63)"
proof -
  have "secs_i64 (2 ^ 63 * 10 ^ 9) = sint (2 ^ 63 :: 64 word)" by (simp add: secs_i64_def)
  also have "\<dots> = - (2 ^ 63)" by simp
  finally have "secs_i64 (2 ^ 63 * 10 ^ 9) = - (2 ^ 63)" .
  then show ?thesis
    using assms by (simp add: validate_Inr secs_i64_def stale_def before_def)
qed

theorem ttl_rounds_witness:
  "\<exists>c. validate (\<lambda>_. Inr 7) c = Inr () \<and> 0 < cfg_ttl c \<and> secs_i64 (cfg_ttl c) = 0"
proof -
  let ?c = "demo_config\<lparr>cfg_ttl := 5 * 10 ^ 8\<rparr>"
  have "validate (\<lambda>_. Inr 7) ?c = Inr ()" "secs_i64 (cfg_ttl ?c) = 0" "0 < cfg_ttl ?c"
    using ttl_rounds [OF demo_validates] by simp_all
  then show ?thesis by blast
qed

end
