(* ===== verification/Boot.thy ===== *)
theory Boot imports Daemon Observe "HOL-Library.Sublist" begin

text \<open>
  \<open>src/daemon/mod.rs\<close>, the first half of \<open>run\<close>, and \<open>src/store/mod.rs\<close>: from the validated
  settings to the spawned tasks. The boot is a computation that leaves a trace of what it did
  and ends with a value, an error or a panic; what the libraries and the machine answer is the
  record \<open>host\<close>.
\<close>

section \<open>Steps with a trace\<close>

datatype task_name = Crawl_Loop | Sample_Gauges | Progress_Summary | Staleness_Timer | Reclaim_Timer

datatype boot_event =
    Sets_Subscriber ustring log_format
  | Logs string "(string \<times> dbg) list"
  | Sets_Recorder "(string \<times> real list) list"
  | Opens_Pool
  | Migrates
  | Spawns_Signal_Listener
  | Connects "ustring list" reconnect_policy
  | Spawns_Notice_Consumer
  | Binds socket_addr
  | Spawns task_name

datatype anyhow = From_Store store_error | From_Relay relay_error | From_Io ustring | Anyhow ustring

datatype 'a outcome = Value 'a | Error anyhow | Panic string

type_synonym 'a boot = "boot_event list \<Rightarrow> 'a outcome \<times> boot_event list"

definition boot_ret :: "'a \<Rightarrow> 'a boot" where "boot_ret x tr = (Value x, tr)"

definition boot_bind :: "'a boot \<Rightarrow> ('a \<Rightarrow> 'b boot) \<Rightarrow> 'b boot" where
  "boot_bind c k tr =
     (case c tr of (Value x, tr1) \<Rightarrow> k x tr1 | (Error e, tr1) \<Rightarrow> (Error e, tr1) | (Panic msg, tr1) \<Rightarrow> (Panic msg, tr1))"

definition emit :: "boot_event \<Rightarrow> unit boot" where
  "emit ev tr = (Value (), tr @ [ev])"

text \<open>
  A call of something outside the program: it leaves its event and has its answer in one step,
  and the \<open>?\<close> behind it converts the error. There is no other way to an answer of the outside
  that the trace would not show.
\<close>

definition call :: "boot_event \<Rightarrow> ('e \<Rightarrow> anyhow) \<Rightarrow> 'e + 'a \<Rightarrow> 'a boot" where
  "call ev conv answer tr = (case answer of Inl e \<Rightarrow> (Error (conv e), tr @ [ev]) | Inr x \<Rightarrow> (Value x, tr @ [ev]))"

text \<open>The \<open>?\<close> on a result of the program's own, and \<open>expect\<close>.\<close>

definition try_ok :: "('e \<Rightarrow> anyhow) \<Rightarrow> 'e + 'a \<Rightarrow> 'a boot" where
  "try_ok conv r tr = (case r of Inl e \<Rightarrow> (Error (conv e), tr) | Inr x \<Rightarrow> (Value x, tr))"

definition expect :: "string \<Rightarrow> 'a option \<Rightarrow> 'a boot" where
  "expect msg r tr = (case r of None \<Rightarrow> (Panic msg, tr) | Some x \<Rightarrow> (Value x, tr))"

lemma boot_steps [simp]:
  "boot_bind (boot_ret x) k tr = k x tr"
  "boot_bind (emit ev) k' tr = k' () (tr @ [ev])"
  "boot_bind (call ev conv (Inl e)) k tr = (Error (conv e), tr @ [ev])"
  "boot_bind (call ev conv (Inr x)) k tr = k x (tr @ [ev])"
  "boot_bind (try_ok conv (Inl e)) k tr = (Error (conv e), tr)"
  "boot_bind (try_ok conv (Inr x)) k tr = k x tr"
  "boot_bind (expect msg None) k tr = (Panic msg, tr)"
  "boot_bind (expect msg (Some x)) k tr = k x tr"
  by (simp_all add: boot_bind_def boot_ret_def emit_def call_def try_ok_def expect_def)

section \<open>Set-up of the libraries\<close>

text \<open>
  \<open>ho_rust_log\<close> is the filter of the environment variable, if it is set and parses;
  \<open>ho_fresh\<close> says that no subscriber and no recorder was installed in this process before.
\<close>

record ('p, 'c) host =
  ho_rust_log :: "ustring option"
  ho_fresh :: bool
  ho_open_pool :: "u32 \<Rightarrow> ustring \<Rightarrow> sqlx_error + 'p"
  ho_migrator :: "'p \<Rightarrow> ustring + unit"
  ho_client :: 'c
  ho_add_relay :: "ustring \<Rightarrow> relay_options \<Rightarrow> 'c \<Rightarrow> ustring + 'c"
  ho_connect :: "'c \<Rightarrow> 'c"
  ho_bind :: "socket_addr \<Rightarrow> ustring + unit"
  ho_parse :: "ustring \<Rightarrow> ustring + pubkey"

definition init_tracing :: "('p, 'c) host \<Rightarrow> ustring \<Rightarrow> log_format \<Rightarrow> unit boot" where
  "init_tracing H level format =
     boot_bind (expect ''a global default trace dispatcher has already been set'' (if ho_fresh H then Some () else None))
       (\<lambda>_. emit (Sets_Subscriber (case ho_rust_log H of Some directive \<Rightarrow> directive | None \<Rightarrow> level) format))"

definition install_metrics :: "('p, 'c) host \<Rightarrow> unit boot" where
  "install_metrics H =
     boot_bind (expect ''the global Prometheus recorder installs exactly once per process'' (if ho_fresh H then Some () else None))
       (\<lambda>_. emit (Sets_Recorder configured_builder))"

text \<open>\<open>tokio::sync::Semaphore::new\<close> panics above \<open>MAX_PERMITS\<close>, \<open>usize::MAX >> 3\<close>.\<close>

definition MAX_PERMITS :: nat where "MAX_PERMITS = 2 ^ 61 - 1"

definition semaphore_new :: "nat \<Rightarrow> nat boot" where
  "semaphore_new cap = expect ''a semaphore may not have more than MAX_PERMITS permits''
     (if cap \<le> MAX_PERMITS then Some cap else None)"

text \<open>One fixed-size semaphore per curated relay, collected into a map.\<close>

fun relay_semaphores :: "ustring list \<Rightarrow> nat \<Rightarrow> (ustring \<Rightarrow> nat option) \<Rightarrow> (ustring \<Rightarrow> nat option) boot" where
  "relay_semaphores [] cap sems = boot_ret sems"
| "relay_semaphores (r # rs) cap sems =
     boot_bind (semaphore_new cap) (\<lambda>s. relay_semaphores rs cap (sems(r \<mapsto> s)))"

section \<open>The pool\<close>

definition MAX_CONNECTIONS :: u32 where "MAX_CONNECTIONS = 8"

definition store_connect :: "('p, 'c) host \<Rightarrow> ustring \<Rightarrow> 'p boot" where
  "store_connect H database_url =
     call Opens_Pool (\<lambda>e. From_Store (Sqlx e)) (ho_open_pool H MAX_CONNECTIONS database_url)"

definition run_migrations :: "('p, 'c) host \<Rightarrow> 'p \<Rightarrow> unit boot" where
  "run_migrations H pool = call Migrates (\<lambda>e. From_Store (Migrate e)) (ho_migrator H pool)"

section \<open>The boot\<close>

text \<open>What the closures and the tasks are given.\<close>

record ('p, 'c) parts =
  pt_pool :: 'p
  pt_client :: 'c
  pt_registry :: limiter_registry
  pt_health :: health
  pt_limit_cache :: limit_cache
  pt_per_relay_sems :: "ustring \<Rightarrow> nat option"
  pt_fallback_sems :: "ustring \<Rightarrow> nat option"
  pt_loop :: crawl_conf
  pt_ttl_secs :: int
  pt_age_secs :: int
  pt_progress_interval :: duration
  pt_staleness_interval :: duration
  pt_reclaim_interval :: duration

text \<open>
  Behind the closures, the listener of the server and the bytes of the anchor's key, in hex or
  bech32; with the key the loop's arguments are complete.
\<close>

definition listen :: "('p, 'c) host \<Rightarrow> socket_addr \<Rightarrow> unit boot" where
  "listen H addr =
     boot_bind (call (Binds addr) From_Io (ho_bind H addr)) (\<lambda>_.
     emit (Logs ''observability server listening'' [(''addr'', D_Addr addr)]))"

text \<open>The curated relays are added to the client one by one and connected (\<open>connect_curated\<close>).\<close>

definition connect_relays :: "('p, 'c) host \<Rightarrow> ustring list \<Rightarrow> reconnect_policy \<Rightarrow> 'c boot" where
  "connect_relays H relays policy = call (Connects relays policy) From_Relay
     (connect_curated (ho_add_relay H) (ho_connect H) (ho_client H) relays policy)"

definition decode_anchor :: "('p, 'c) host \<Rightarrow> ustring \<Rightarrow> pubkey boot" where
  "decode_anchor H anchor_pubkey =
     try_ok (\<lambda>e. Anyhow (lit ''invalid anchor_pubkey: '' @ e)) (ho_parse H anchor_pubkey)"

definition prepare :: "env \<Rightarrow> ('p, 'c) host \<Rightarrow> config \<Rightarrow> ('p, 'c) parts boot" where
  "prepare E H cfg =
     boot_bind (init_tracing H (cfg_log_level cfg) (cfg_log_format cfg)) (\<lambda>_.
     boot_bind (emit (Logs ''crawler daemon starting'' (config_debug cfg))) (\<lambda>_.
     boot_bind (install_metrics H) (\<lambda>_.
     boot_bind (store_connect H (cfg_database_url cfg)) (\<lambda>pool.
     boot_bind (run_migrations H pool) (\<lambda>_.
     boot_bind (emit (Logs ''database connected and migrations applied'' [])) (\<lambda>_.
     boot_bind (emit Spawns_Signal_Listener) (\<lambda>_.
     boot_bind (connect_relays H (cfg_relays cfg) crawler_default) (\<lambda>client.
     boot_bind (expect ''config::validate guarantees reqs_per_second > 0'' (daemon_limiter cfg)) (\<lambda>registry.
     boot_bind (emit Spawns_Notice_Consumer) (\<lambda>_.
     boot_bind (relay_semaphores (cfg_relays cfg) (cfg_per_relay_concurrency cfg) (\<lambda>_. None)) (\<lambda>sems.
     boot_bind (listen H (cfg_metrics_addr cfg)) (\<lambda>_.
     boot_bind (decode_anchor H (cfg_anchor_pubkey cfg)) (\<lambda>anchor.
     boot_ret \<lparr>pt_pool = pool, pt_client = client, pt_registry = registry, pt_health = daemon_health cfg,
       pt_limit_cache = (\<lambda>_. None), pt_per_relay_sems = sems, pt_fallback_sems = (\<lambda>_. None),
       pt_loop = loop_conf E anchor cfg, pt_ttl_secs = secs_i64 (cfg_ttl cfg),
       pt_age_secs = secs_i64 (cfg_reclaim_age cfg),
       pt_progress_interval = cfg_progress_interval cfg, pt_staleness_interval = cfg_staleness_scan_interval cfg,
       pt_reclaim_interval = cfg_reclaim_interval cfg\<rparr>)))))))))))))"

definition spawn_tasks :: "unit boot" where
  "spawn_tasks =
     boot_bind (emit (Spawns Crawl_Loop)) (\<lambda>_.
     boot_bind (emit (Spawns Sample_Gauges)) (\<lambda>_.
     boot_bind (emit (Spawns Progress_Summary)) (\<lambda>_.
     boot_bind (emit (Spawns Staleness_Timer)) (\<lambda>_.
     emit (Spawns Reclaim_Timer)))))"

definition boot :: "env \<Rightarrow> ('p, 'c) host \<Rightarrow> config \<Rightarrow> ('p, 'c) parts boot" where
  "boot E H cfg = boot_bind (prepare E H cfg) (\<lambda>parts. boot_bind spawn_tasks (\<lambda>_. boot_ret parts))"

text \<open>The order the comment on \<open>run\<close> declares load-bearing.\<close>

definition prepare_order :: "('p, 'c) host \<Rightarrow> config \<Rightarrow> boot_event list" where
  "prepare_order H cfg =
     [Sets_Subscriber (case ho_rust_log H of Some directive \<Rightarrow> directive | None \<Rightarrow> cfg_log_level cfg) (cfg_log_format cfg),
      Logs ''crawler daemon starting'' (config_debug cfg), Sets_Recorder configured_builder, Opens_Pool, Migrates,
      Logs ''database connected and migrations applied'' [], Spawns_Signal_Listener,
      Connects (cfg_relays cfg) crawler_default, Spawns_Notice_Consumer, Binds (cfg_metrics_addr cfg),
      Logs ''observability server listening'' [(''addr'', D_Addr (cfg_metrics_addr cfg))]]"

definition spawn_order :: "boot_event list" where
  "spawn_order = [Spawns Crawl_Loop, Spawns Sample_Gauges, Spawns Progress_Summary, Spawns Staleness_Timer,
     Spawns Reclaim_Timer]"

lemma spawn_tasks_done: "spawn_tasks tr = (Value (), tr @ spawn_order)"
  by (simp add: spawn_tasks_def boot_bind_def emit_def spawn_order_def)

lemma relay_semaphores_eq:
  "relay_semaphores rs cap sems tr =
     (if rs = [] \<or> cap \<le> MAX_PERMITS then (Value (\<lambda>r. if r \<in> set rs then Some cap else sems r), tr)
      else (Panic ''a semaphore may not have more than MAX_PERMITS permits'', tr))"
  by (induction rs arbitrary: sems) (auto simp: boot_ret_def boot_bind_def semaphore_new_def expect_def fun_eq_iff)

lemma connect_curated_Inl:
  "connect_curated add_relay connect new relays policy = Inl e \<Longrightarrow>
    \<exists>x. e = Client x \<and> (\<exists>url \<in> set relays. \<exists>c. add_relay url (to_relay_options policy) c = Inl x)"
proof -
  have "\<exists>x. e = Client x \<and> (\<exists>url \<in> set urls. \<exists>c. add_relay url opts c = Inl x)"
    if "add_relays add_relay opts urls c = Inl e" for opts urls c
    using that by (induction urls arbitrary: c) (fastforce split: sum.splits)+
  then show "connect_curated add_relay connect new relays policy = Inl e \<Longrightarrow> ?thesis"
    by (auto simp: connect_curated_def split: sum.splits)
qed

lemma set_up_steps:
  assumes "ho_fresh H"
  shows "boot_bind (init_tracing H level format) k tr = k () (tr @ [Sets_Subscriber (case ho_rust_log H of
      Some directive \<Rightarrow> directive | None \<Rightarrow> level) format])"
    "boot_bind (install_metrics H) k tr = k () (tr @ [Sets_Recorder configured_builder])"
    "boot_bind (listen H addr) k tr = (case ho_bind H addr of Inl e \<Rightarrow> (Error (From_Io e), tr @ [Binds addr])
      | Inr _ \<Rightarrow> k () (tr @ [Binds addr, Logs ''observability server listening'' [(''addr'', D_Addr addr)]]))"
  using assms by (simp_all add: init_tracing_def install_metrics_def listen_def boot_bind_def expect_def emit_def
      call_def split: sum.split)

lemma semaphore_steps:
  "boot_bind (relay_semaphores rs cap sems) k tr =
     (if rs = [] \<or> cap \<le> MAX_PERMITS then k (\<lambda>r. if r \<in> set rs then Some cap else sems r) tr
      else (Panic ''a semaphore may not have more than MAX_PERMITS permits'', tr))"
  by (simp add: boot_bind_def relay_semaphores_eq)

text \<open>What the boot asks, in this order, and how far it has come when an answer stops it.\<close>

lemma boot_run:
  assumes "ho_fresh H"
  shows "boot E H cfg [] =
    (case ho_open_pool H MAX_CONNECTIONS (cfg_database_url cfg) of
       Inl e \<Rightarrow> (Error (From_Store (Sqlx e)), take 4 (prepare_order H cfg)) | Inr pool \<Rightarrow>
     (case ho_migrator H pool of Inl e \<Rightarrow> (Error (From_Store (Migrate e)), take 5 (prepare_order H cfg)) | Inr _ \<Rightarrow>
     (case connect_curated (ho_add_relay H) (ho_connect H) (ho_client H) (cfg_relays cfg) crawler_default of
        Inl e \<Rightarrow> (Error (From_Relay e), take 8 (prepare_order H cfg)) | Inr client \<Rightarrow>
     (case daemon_limiter cfg of
        None \<Rightarrow> (Panic ''config::validate guarantees reqs_per_second > 0'', take 8 (prepare_order H cfg)) | Some registry \<Rightarrow>
     (if cfg_relays cfg \<noteq> [] \<and> MAX_PERMITS < cfg_per_relay_concurrency cfg
      then (Panic ''a semaphore may not have more than MAX_PERMITS permits'', take 9 (prepare_order H cfg))
      else case ho_bind H (cfg_metrics_addr cfg) of Inl e \<Rightarrow> (Error (From_Io e), take 10 (prepare_order H cfg)) | Inr _ \<Rightarrow>
     (case ho_parse H (cfg_anchor_pubkey cfg) of
        Inl e \<Rightarrow> (Error (Anyhow (lit ''invalid anchor_pubkey: '' @ e)), prepare_order H cfg)
      | Inr anchor \<Rightarrow> (Value \<lparr>pt_pool = pool, pt_client = client, pt_registry = registry,
          pt_health = daemon_health cfg, pt_limit_cache = (\<lambda>_. None),
          pt_per_relay_sems = (\<lambda>r. if r \<in> set (cfg_relays cfg) then Some (cfg_per_relay_concurrency cfg) else None),
          pt_fallback_sems = (\<lambda>_. None), pt_loop = loop_conf E anchor cfg, pt_ttl_secs = secs_i64 (cfg_ttl cfg),
          pt_age_secs = secs_i64 (cfg_reclaim_age cfg),
          pt_progress_interval = cfg_progress_interval cfg, pt_staleness_interval = cfg_staleness_scan_interval cfg,
          pt_reclaim_interval = cfg_reclaim_interval cfg\<rparr>, prepare_order H cfg @ spawn_order)))))))"
proof -
  have b: "boot E H cfg tr0 = (case prepare E H cfg tr0 of (Value x, tr) \<Rightarrow> (Value x, tr @ spawn_order)
      | (Error e, tr) \<Rightarrow> (Error e, tr) | (Panic msg, tr) \<Rightarrow> (Panic msg, tr))" for tr0
    by (simp add: boot_def boot_bind_def boot_ret_def spawn_tasks_done split: prod.split outcome.split)
  note go = b prepare_def decode_anchor_def set_up_steps [OF assms] semaphore_steps boot_ret_def store_connect_def
    run_migrations_def connect_relays_def prepare_order_def
  show ?thesis
  proof (cases "ho_open_pool H MAX_CONNECTIONS (cfg_database_url cfg)")
    case pool: (Inr pool)
    show ?thesis
    proof (cases "ho_migrator H pool")
      case mig: (Inr u)
      show ?thesis
      proof (cases "connect_curated (ho_add_relay H) (ho_connect H) (ho_client H) (cfg_relays cfg) crawler_default")
        case con: (Inr client)
        show ?thesis
        proof (cases "daemon_limiter cfg")
          case lim: (Some registry)
          show ?thesis
            by (cases "ho_bind H (cfg_metrics_addr cfg)"; cases "ho_parse H (cfg_anchor_pubkey cfg)")
              (simp_all add: go pool mig con lim)
        qed (simp add: go pool mig con)
      qed (simp add: go pool mig)
    qed (simp add: go pool)
  qed (simp add: go)
qed


section \<open>What the boot promises\<close>


text \<open>
  C27. The database URL is never logged: apart from handing it to the pool, the boot does not
  depend on it. With two URLs that the pool answers alike, everything it does, logs and
  returns is the same.
\<close>

theorem boot_hides_url:
  assumes "ho_open_pool H MAX_CONNECTIONS url = ho_open_pool H MAX_CONNECTIONS url'"
  shows "boot E H (cfg\<lparr>cfg_database_url := url\<rparr>) = boot E H (cfg\<lparr>cfg_database_url := url'\<rparr>)"
proof -
  have "loop_conf E anchor (cfg\<lparr>cfg_database_url := u\<rparr>) = loop_conf E anchor cfg" for anchor u
    by (simp add: loop_conf_def batch_settings_def)
  moreover have "daemon_limiter (cfg\<lparr>cfg_database_url := u\<rparr>) = daemon_limiter cfg"
      "daemon_health (cfg\<lparr>cfg_database_url := u\<rparr>) = daemon_health cfg" for u
    by (simp_all add: daemon_limiter_def daemon_health_def)
  ultimately show ?thesis using assms by (simp add: boot_def prepare_def store_connect_def debug_redacts)
qed

lemma boot_value:
  assumes "fst (boot E H cfg []) = Value parts"
  shows "\<exists>anchor. ho_parse H (cfg_anchor_pubkey cfg) = Inr anchor \<and> pt_loop parts = loop_conf E anchor cfg"
    and "pt_progress_interval parts = cfg_progress_interval cfg"
    and "pt_staleness_interval parts = cfg_staleness_scan_interval cfg"
    and "pt_reclaim_interval parts = cfg_reclaim_interval cfg"
proof -
  have "ho_fresh H"
    using assms by (cases "ho_fresh H") (simp_all add: boot_def prepare_def init_tracing_def boot_bind_def expect_def)
  from assms [unfolded boot_run [OF this]]
  show "\<exists>anchor. ho_parse H (cfg_anchor_pubkey cfg) = Inr anchor \<and> pt_loop parts = loop_conf E anchor cfg"
    "pt_progress_interval parts = cfg_progress_interval cfg"
    "pt_staleness_interval parts = cfg_staleness_scan_interval cfg"
    "pt_reclaim_interval parts = cfg_reclaim_interval cfg"
    by (auto split: sum.splits option.splits if_splits)
qed

text \<open>
  C21. After the validation only the outside can stop the boot: in a fresh process, with
  settings that validate, it ends with an error only if the pool, the migrations, a relay url
  or the listener's address was refused, and that is the error it reports; the checks it makes
  by \<open>expect\<close> hold, but for the size of the semaphores, which the validation does not bound;
  and when it succeeds every curated relay has a semaphore, as the fan-out expects.
\<close>

theorem boot_fails_outside:
  assumes "validate (ho_parse H) cfg = Inr ()" and "ho_fresh H"
  shows "case fst (boot E H cfg []) of
      Value parts \<Rightarrow> (\<forall>r \<in> set (cfg_relays cfg). pt_per_relay_sems parts r = Some (cfg_per_relay_concurrency cfg))
        \<and> (\<exists>anchor. ho_parse H (cfg_anchor_pubkey cfg) = Inr anchor \<and> pt_loop parts = loop_conf E anchor cfg)
    | Error e \<Rightarrow> (\<exists>x. e = From_Store (Sqlx x) \<and> ho_open_pool H MAX_CONNECTIONS (cfg_database_url cfg) = Inl x)
        \<or> (\<exists>x pool. e = From_Store (Migrate x) \<and> ho_migrator H pool = Inl x)
        \<or> (\<exists>x. e = From_Relay (Client x)
             \<and> (\<exists>url \<in> set (cfg_relays cfg). \<exists>c. ho_add_relay H url (to_relay_options crawler_default) c = Inl x))
        \<or> (\<exists>x. e = From_Io x \<and> ho_bind H (cfg_metrics_addr cfg) = Inl x)
    | Panic msg \<Rightarrow> MAX_PERMITS < cfg_per_relay_concurrency cfg"
proof -
  obtain anchor reg where r: "ho_parse H (cfg_anchor_pubkey cfg) = Inr anchor" "daemon_limiter cfg = Some reg"
    using assms(1) by (auto simp: validate_Inr daemon_limiter_def word_gt_0)
  note go = boot_run [OF assms(2)] r
  show ?thesis
  proof (cases "ho_open_pool H MAX_CONNECTIONS (cfg_database_url cfg)")
    case pool: (Inr pool)
    show ?thesis
    proof (cases "ho_migrator H pool")
      case mig: (Inr u)
      show ?thesis
      proof (cases "connect_curated (ho_add_relay H) (ho_connect H) (ho_client H) (cfg_relays cfg) crawler_default")
        case (Inl e)
        obtain x where "e = Client x" "\<exists>url \<in> set (cfg_relays cfg). \<exists>c. ho_add_relay H url (to_relay_options crawler_default) c = Inl x"
          using connect_curated_Inl [OF Inl] by blast
        then show ?thesis by (simp add: go pool mig Inl)
      next
        case con: (Inr client)
        show ?thesis by (cases "ho_bind H (cfg_metrics_addr cfg)") (simp_all add: go pool mig con)
      qed
    next
      case (Inl x)
      then show ?thesis by (simp add: go pool) blast
    qed
  qed (simp add: go)
qed


text \<open>A machine on which everything works.\<close>

definition demo_host :: "(unit, unit) host" where
  "demo_host = \<lparr>ho_rust_log = None, ho_fresh = True, ho_open_pool = (\<lambda>_ _. Inr ()), ho_migrator = (\<lambda>_. Inr ()),
     ho_client = (), ho_add_relay = (\<lambda>_ _ c. Inr c), ho_connect = (\<lambda>c. c), ho_bind = (\<lambda>_. Inr ()),
     ho_parse = (\<lambda>_. Inr 7)\<rparr>"

lemma demo_host_ok: "validate (ho_parse demo_host) demo_config = Inr ()" "ho_fresh demo_host"
  using demo_validates by (simp_all add: demo_host_def)

lemma demo_boots:
  assumes "cfg_per_relay_concurrency cfg \<le> MAX_PERMITS" and "daemon_limiter cfg = Some reg"
  shows "\<exists>parts. fst (boot demo_env demo_host cfg []) = Value parts"
proof -
  have "add_relays (ho_add_relay demo_host) opts urls c = Inr c" for opts urls c
    by (induction urls) (simp_all add: demo_host_def)
  then show ?thesis using assms unfolding boot_run [OF demo_host_ok(2)]
    by (simp add: demo_host_def store_connect_def run_migrations_def connect_curated_def)
qed

theorem boot_hides_url_witness:
  "lit ''pg://u:secret@db'' \<noteq> lit ''pg://db'' \<and>
   snd (boot demo_env demo_host (demo_config\<lparr>cfg_database_url := lit ''pg://u:secret@db''\<rparr>) [])
     = snd (boot demo_env demo_host (demo_config\<lparr>cfg_database_url := lit ''pg://db''\<rparr>) [])"
  using boot_hides_url [of demo_host "lit ''pg://u:secret@db''" "lit ''pg://db''" demo_env demo_config]
  by (simp add: demo_host_def lit_def)

lemma demo_config_boots: "\<exists>parts. fst (boot demo_env demo_host demo_config []) = Value parts"
proof -
  obtain reg where "daemon_limiter demo_config = Some reg"
    using demo_validates by (auto simp: validate_Inr daemon_limiter_def word_gt_0)
  moreover have "cfg_per_relay_concurrency demo_config \<le> MAX_PERMITS"
    by (simp add: demo_config_def demo_raw_def deserialize_def required_def with_default_def
        DEFAULT_PER_RELAY_CONCURRENCY_def MAX_PERMITS_def)
  ultimately show ?thesis using demo_boots by blast
qed

theorem boot_fails_outside_witness:
  "\<exists>parts. fst (boot demo_env demo_host demo_config []) = Value parts
     \<and> (\<forall>r \<in> set (cfg_relays demo_config). pt_per_relay_sems parts r = Some (cfg_per_relay_concurrency demo_config))"
proof -
  obtain parts where p: "fst (boot demo_env demo_host demo_config []) = Value parts" using demo_config_boots by blast
  then show ?thesis using boot_fails_outside [OF demo_host_ok, of demo_env] by simp
qed

text \<open>
  The exception is real: a \<open>per_relay_concurrency\<close> of \<open>2^61\<close>, which a TOML integer can hold and
  the validation accepts, panics the boot after the migrations ran and the relays were
  connected.
\<close>

theorem huge_concurrency_panics:
  "\<exists>cfg. validate (ho_parse demo_host) cfg = Inr () \<and> cfg_per_relay_concurrency cfg < 2 ^ 63
     \<and> fst (boot demo_env demo_host cfg []) = Panic ''a semaphore may not have more than MAX_PERMITS permits''
     \<and> Spawns_Notice_Consumer \<in> set (snd (boot demo_env demo_host cfg []))"
proof -
  let ?cfg = "demo_config\<lparr>cfg_per_relay_concurrency := 2 ^ 61\<rparr>"
  have v: "validate (ho_parse demo_host) ?cfg = Inr ()"
    using demo_host_ok(1) by (simp add: validate_Inr)
  then obtain reg where l: "daemon_limiter ?cfg = Some reg"
    by (auto simp: validate_Inr daemon_limiter_def word_gt_0)
  have a: "add_relays (ho_add_relay demo_host) opts urls c = Inr c" for opts urls c
    by (induction urls) (simp_all add: demo_host_def)
  have r: "cfg_relays ?cfg \<noteq> []" using v by (simp add: validate_Inr)
  have c: "connect_curated (ho_add_relay demo_host) (ho_connect demo_host) (ho_client demo_host) urls policy = Inr ()"
    for urls policy
    using a by (simp add: connect_curated_def)
  have "boot demo_env demo_host ?cfg [] = (Panic ''a semaphore may not have more than MAX_PERMITS permits'',
      take 9 (prepare_order demo_host ?cfg))"
    unfolding boot_run [OF demo_host_ok(2)] c l using r by (simp add: demo_host_def MAX_PERMITS_def)
  then show ?thesis using v by (intro exI [of _ ?cfg]) (simp add: prepare_order_def)
qed

end
