(* ===== verification/Process.thy ===== *)
theory Process imports Boot begin

text \<open>
  \<open>src/daemon/mod.rs\<close>, the second half of \<open>run\<close>: the process from the spawned tasks to its
  result. The loop's task is the one of \<open>Daemon_Loop\<close>; around it are the signal, the server, the
  timers, and the join of all tasks under the shutdown budget. Sweeps act on the tables at any
  time while their timers run, and a kill is any state the process is left in.
\<close>

section \<open>The process\<close>

text \<open>
  The loop's task: before the loop, ended by a failed start-up or by the panic of a semaphore
  too large to be built, or in the loop.
\<close>

datatype loop_task =
    Seeding world
  | Seed_Failed store_error world
  | Loop_Panicked world
  | Looping daemon_state

fun task_world :: "loop_task \<Rightarrow> world" where
  "task_world (Seeding w) = w"
| "task_world (Seed_Failed e w) = w"
| "task_world (Loop_Panicked w) = w"
| "task_world (Looping d) = cs_world d"

fun with_world :: "world \<Rightarrow> loop_task \<Rightarrow> loop_task" where
  "with_world w' (Seeding w) = Seeding w'"
| "with_world w' (Seed_Failed e w) = Seed_Failed e w'"
| "with_world w' (Loop_Panicked w) = Loop_Panicked w'"
| "with_world w' (Looping d) = Looping (d\<lparr>cs_world := w'\<rparr>)"

text \<open>\<open>loop_alive\<close> is set before the semaphore is built and reset behind the loop.\<close>

fun task_alive :: "loop_task \<Rightarrow> bool" where
  "task_alive (Seeding w) = False"
| "task_alive (Seed_Failed e w) = False"
| "task_alive (Loop_Panicked w) = True"
| "task_alive (Looping d) = ds_alive d"

text \<open>What joining the task gives: nothing yet, its result, or the panic.\<close>

datatype joined = Joined "store_error + crawl_stats" | Join_Panic

fun task_joined :: "loop_task \<Rightarrow> joined option" where
  "task_joined (Seeding w) = None"
| "task_joined (Seed_Failed e w) = Some (Joined (Inl e))"
| "task_joined (Loop_Panicked w) = Some Join_Panic"
| "task_joined (Looping d) = (case cs_pc d of Returned r \<Rightarrow> Some (Joined r) | _ \<Rightarrow> None)"

fun cancel_task :: "loop_task \<Rightarrow> loop_task" where
  "cancel_task (Looping d) = Looping (d\<lparr>ds_cancelled := True\<rparr>)"
| "cancel_task t = t"

text \<open>What the drain logs; \<open>run\<close> returns \<open>Ok\<close> with any of them.\<close>

datatype verdict = Drained_Cleanly crawl_stats | Ended_With_Error store_error | Task_Panicked | Overrun

datatype phase = Serving | Draining_Tasks | Exited "anyhow + verdict"

record process =
  pr_task :: loop_task
  pr_cancelled :: bool
  pr_timers :: nat
  pr_phase :: phase

definition up :: "process \<Rightarrow> bool" where
  "up s \<longleftrightarrow> (\<forall>r. pr_phase s \<noteq> Exited r)"

definition drain_verdict :: "joined \<Rightarrow> verdict" where
  "drain_verdict j = (case j of
     Joined (Inr stats) \<Rightarrow> Drained_Cleanly stats | Joined (Inl e) \<Rightarrow> Ended_With_Error e | Join_Panic \<Rightarrow> Task_Panicked)"

definition sweeps :: "world \<Rightarrow> world \<Rightarrow> bool" where
  "sweeps w w' \<longleftrightarrow> (\<exists>P secs. alone P \<and> (w' = staleness_tick P secs w \<or> w' = in_run_reclaim_tick P secs w))"

inductive process_step :: "env \<Rightarrow> pg \<Rightarrow> crawl_conf \<Rightarrow> process \<Rightarrow> process \<Rightarrow> bool"
  for E P C where
  signal: "up s \<Longrightarrow> process_step E P C s (s\<lparr>pr_cancelled := True, pr_task := cancel_task (pr_task s)\<rparr>)"
| seeds: "\<lbrakk>up s; pr_task s = Seeding w; startup P (cf_anchor C) w = (Inr n, w1); cf_concurrency C \<le> MAX_PERMITS\<rbrakk> \<Longrightarrow>
    process_step E P C s (s\<lparr>pr_task := Looping (daemon_begin C n (pr_cancelled s) w1)\<rparr>)"
| seeds_panics: "\<lbrakk>up s; pr_task s = Seeding w; startup P (cf_anchor C) w = (Inr n, w1); MAX_PERMITS < cf_concurrency C\<rbrakk> \<Longrightarrow>
    process_step E P C s (s\<lparr>pr_task := Loop_Panicked w1\<rparr>)"
| seed_fails: "\<lbrakk>up s; pr_task s = Seeding w; startup P (cf_anchor C) w = (Inl e, w1)\<rbrakk> \<Longrightarrow>
    process_step E P C s (s\<lparr>pr_task := Seed_Failed e w1\<rparr>)"
| loops: "\<lbrakk>up s; pr_task s = Looping d; loop_step E P C d d'\<rbrakk> \<Longrightarrow>
    process_step E P C s (s\<lparr>pr_task := Looping d'\<rparr>)"
| sweeps: "\<lbrakk>up s; 0 < pr_timers s; sweeps (task_world (pr_task s)) w'\<rbrakk> \<Longrightarrow>
    process_step E P C s (s\<lparr>pr_task := with_world w' (pr_task s)\<rparr>)"
| timer_stops: "\<lbrakk>up s; pr_cancelled s; 0 < pr_timers s\<rbrakk> \<Longrightarrow>
    process_step E P C s (s\<lparr>pr_timers := pr_timers s - 1\<rparr>)"
| server_stops: "\<lbrakk>pr_phase s = Serving; pr_cancelled s\<rbrakk> \<Longrightarrow>
    process_step E P C s (s\<lparr>pr_phase := Draining_Tasks\<rparr>)"
| server_fails: "pr_phase s = Serving \<Longrightarrow>
    process_step E P C s (s\<lparr>pr_phase := Exited (Inl (From_Io e))\<rparr>)"
| joins_all: "\<lbrakk>pr_phase s = Draining_Tasks; task_joined (pr_task s) = Some j; pr_timers s = 0\<rbrakk> \<Longrightarrow>
    process_step E P C s (s\<lparr>pr_phase := Exited (Inr (drain_verdict j))\<rparr>)"
| overruns: "pr_phase s = Draining_Tasks \<Longrightarrow>
    process_step E P C s (s\<lparr>pr_phase := Exited (Inr Overrun)\<rparr>)"

text \<open>
  The boot leaves the loop's task and the four timers spawned; the signal may have come
  already. A timer with a period of zero panics when it is first polled (\<open>timed\<close>) and is never
  more than an ended task to join, so it is not counted. \<open>run_result\<close> is what \<open>run\<close> returns to
  \<open>main\<close>.
\<close>

definition live_timers :: "('p, 'c) parts \<Rightarrow> nat" where
  "live_timers parts = length (filter (\<lambda>i. i \<noteq> 0) [pt_progress_interval parts, pt_progress_interval parts,
     pt_staleness_interval parts, pt_reclaim_interval parts])"

definition process_begin :: "world \<Rightarrow> bool \<Rightarrow> nat \<Rightarrow> process" where
  "process_begin w cancelled timers =
     \<lparr>pr_task = Seeding w, pr_cancelled = cancelled, pr_timers = timers, pr_phase = Serving\<rparr>"

inductive process_reach :: "env \<Rightarrow> pg \<Rightarrow> crawl_conf \<Rightarrow> world \<Rightarrow> process \<Rightarrow> bool"
  for E P C w where
  begins: "process_reach E P C w (process_begin w c timers)"
| goes: "process_reach E P C w s \<Longrightarrow> process_step E P C s s' \<Longrightarrow> process_reach E P C w s'"

fun run_result :: "phase \<Rightarrow> (anyhow + unit) option" where
  "run_result (Exited (Inl e)) = Some (Inl e)"
| "run_result (Exited (Inr v)) = Some (Inr ())"
| "run_result _ = None"

text \<open>
  The validation does not look at the periods. With all of them zero the daemon boots like any
  other, but none of its timers ever ticks: nothing is sampled, no stale row is put back into
  the queue and no orphaned lease released, and only an ended task, whose panic the drain
  discards, tells of it.
\<close>

theorem zero_periods_pass:
  assumes "validate parse cfg = Inr ()"
    and "cfg' = cfg\<lparr>cfg_progress_interval := 0, cfg_staleness_scan_interval := 0, cfg_reclaim_interval := 0\<rparr>"
  shows "validate parse cfg' = Inr () \<and> (\<forall>E H parts. fst (boot E H cfg' []) = Value parts \<longrightarrow> live_timers parts = 0
    \<and> (\<forall>P wakes w. staleness_timer P (pt_ttl_secs parts) (pt_staleness_interval parts) wakes w = None
         \<and> in_run_reclaim_timer P (pt_age_secs parts) (pt_reclaim_interval parts) wakes w = None))"
proof (intro conjI allI impI)
  show "validate parse cfg' = Inr ()" using assms by (simp add: validate_Inr)
  fix E and H :: "('p, 'c) host" and parts P wakes w
  assume "fst (boot E H cfg' []) = Value parts"
  note v = boot_value(2-4) [OF this]
  show "live_timers parts = 0" using v by (simp add: assms(2) live_timers_def)
  show "staleness_timer P (pt_ttl_secs parts) (pt_staleness_interval parts) wakes w = None"
    "in_run_reclaim_timer P (pt_age_secs parts) (pt_reclaim_interval parts) wakes w = None"
    using v by (simp_all add: assms(2) staleness_timer_def in_run_reclaim_timer_def timed_def)
qed

section \<open>Invariant\<close>

lemma sweeps_good:
  assumes "sweeps w w'" and "db_ok (wdb w)"
  shows "good (wdb w) (wdb w')" "leased (wdb w') \<subseteq> leased (wdb w)"
proof -
  obtain P secs where P: "alone P" "w' = staleness_tick P secs w \<or> w' = in_run_reclaim_tick P secs w"
    using assms(1) by (auto simp: sweeps_def)
  let ?s = "daemon_begin \<lparr>cf_anchor = [], cf_batch_size = 0, cf_concurrency = 0, cf_args = {}\<rparr> 0 False w"
  have w: "cs_world ?s = w" by (simp add: daemon_begin_def crawl_begin_def crawl_state.defs)
  have "outside_step ?s (?s\<lparr>cs_world := w'\<rparr>)"
    using P outside_step.rescans [OF P(1), of ?s secs] outside_step.reclaims [OF P(1), of ?s secs] w by auto
  from sweep_moves(1,2) [OF this] assms(2) show "good (wdb w) (wdb w')" "leased (wdb w') \<subseteq> leased (wdb w)"
    by (simp_all add: w)
qed

lemma sweeps_outside: "sweeps (cs_world d) w' \<Longrightarrow> outside_step d (d\<lparr>cs_world := w'\<rparr>)"
  unfolding sweeps_def using outside_step.rescans outside_step.reclaims by blast

text \<open>
  The loop runs as \<open>Daemon_Loop\<close> has it, from tables the start-up found; whatever the process
  is doing, the tables are well-formed and have lost no row.
\<close>

definition process_ok :: "env \<Rightarrow> pg \<Rightarrow> crawl_conf \<Rightarrow> world \<Rightarrow> process \<Rightarrow> bool" where
  "process_ok E P C w s \<longleftrightarrow> good (wdb w) (wdb (task_world (pr_task s)))
     \<and> (\<forall>d. pr_task s = Looping d \<longrightarrow> ds_cancelled d = pr_cancelled s
          \<and> (\<exists>w0. db_ok (wdb w0) \<and> daemon_reach E P C w0 d))
     \<and> (pr_phase s = Draining_Tasks \<longrightarrow> pr_cancelled s)
     \<and> (\<forall>v. pr_phase s = Exited (Inr v) \<longrightarrow> pr_cancelled s
          \<and> (v = Overrun \<or> pr_timers s = 0 \<and> (\<exists>j. task_joined (pr_task s) = Some j \<and> v = drain_verdict j)))"

lemma loop_step_good:
  assumes "loop_step E P C d d'" and "alone P" and "db_ok (wdb (cs_world d))"
  shows "good (wdb (cs_world d)) (wdb (cs_world d'))" "ds_cancelled d' = ds_cancelled d"
proof -
  show "good (wdb (cs_world d)) (wdb (cs_world d'))"
    using assms by (induction rule: loop_step.induct) (auto simp: claim_good step_good good_refl)
  show "ds_cancelled d' = ds_cancelled d"
    using assms(1) by (induction rule: loop_step.induct) (auto simp: pool_step_cancelled)
qed

lemma process_okD:
  assumes "process_ok E P C w s"
  shows "good (wdb w) (wdb (task_world (pr_task s)))" "db_ok (wdb (task_world (pr_task s)))"
    "pr_task s = Looping d \<Longrightarrow> ds_cancelled d = pr_cancelled s \<and> (\<exists>w0. db_ok (wdb w0) \<and> daemon_reach E P C w0 d)"
  using assms by (simp_all add: process_ok_def good_def)

lemma with_world_simps [simp]:
  "task_world (with_world w' t) = w'" "task_joined (with_world w' t) = task_joined t"
  "task_alive (with_world w' t) = task_alive t"
  by (cases t; simp)+

lemma cancel_task_simps [simp]:
  "task_world (cancel_task t) = task_world t" "task_joined (cancel_task t) = task_joined t"
  "task_alive (cancel_task t) = task_alive t"
  by (cases t; simp)+

lemma process_step_ok:
  assumes "process_step E P C s s'" and A: "alone P" and ok: "process_ok E P C w s"
  shows "process_ok E P C w s'"
proof -
  note d = process_okD [OF ok]
  have trans: "good (wdb w) e" if "good (wdb (task_world (pr_task s))) e" for e
    using good_trans [OF d(1) that] .
  show ?thesis using assms(1)
  proof cases
    case signal
    have "\<exists>w0. db_ok (wdb w0) \<and> daemon_reach E P C w0 (x\<lparr>ds_cancelled := True\<rparr>)" if "pr_task s = Looping x" for x
      using d(3) [OF that] daemon_reach.outside [OF _ outside_step.cancels] by blast
    then show ?thesis using ok signal
      by (cases "pr_task s") (auto simp: process_ok_def up_def)
  next
    case (seeds w1 n w2)
    have "db_ok (wdb w1)" using d(2) seeds(3) by simp
    moreover have "ds_cancelled (daemon_begin C n (pr_cancelled s) w2) = pr_cancelled s"
        "cs_world (daemon_begin C n (pr_cancelled s) w2) = w2"
      by (simp_all add: daemon_begin_def crawl_begin_def crawl_state.defs)
    ultimately show ?thesis
      using ok seeds trans startup_Inr(1) [OF A _ seeds(4)] daemon_reach.begins [OF seeds(4)]
      by (auto simp: process_ok_def up_def)
  next
    case (seeds_panics w1 n w2)
    then show ?thesis using ok d(2) trans startup_Inr(1) [OF A _ seeds_panics(4)]
      by (auto simp: process_ok_def up_def)
  next
    case (seed_fails w1 e w2)
    have "keeps (good (wdb w1)) (startup P (cf_anchor C))"
      unfolding startup_def by (intro keeps_intros rely_alone [OF A])
    then have "good (wdb w1) (wdb w2)" using d(2) seed_fails(3,4) good_refl keepsD by fastforce
    then show ?thesis using ok seed_fails trans by (auto simp: process_ok_def up_def)
  next
    case (loops x x')
    note l = loop_step_good [OF loops(4) A]
    show ?thesis using ok loops d(2,3) trans l daemon_reach.inside [OF _ loops(4)]
      by (fastforce simp: process_ok_def up_def)
  next
    case (sweeps w')
    have "good (wdb (task_world (pr_task s))) (wdb w')" by (rule sweeps_good(1) [OF sweeps(4) d(2)])
    moreover have "\<exists>w0. db_ok (wdb w0) \<and> daemon_reach E P C w0 (x\<lparr>cs_world := w'\<rparr>)" if "pr_task s = Looping x" for x
      using d(3) [OF that] sweeps(4) that daemon_reach.outside [OF _ sweeps_outside] by auto
    ultimately show ?thesis using ok sweeps trans
      by (cases "pr_task s") (auto simp: process_ok_def up_def)
  qed (use ok in \<open>auto simp: process_ok_def up_def\<close>)
qed

lemma process_reach_ok:
  assumes "process_reach E P C w s" and "alone P" and "db_ok (wdb w)"
  shows "process_ok E P C w s"
  using assms(1)
proof induction
  case (begins c timers)
  show ?case using assms(3) by (simp add: process_ok_def process_begin_def good_refl)
next
  case (goes s s')
  then show ?case using process_step_ok [OF _ assms(2)] by blast
qed

lemma process_reach_trans:
  assumes "process_reach E P C w s" and "(process_step E P C)\<^sup>*\<^sup>* s s'"
  shows "process_reach E P C w s'"
  using assms(2,1) by induction (auto intro: process_reach.goes)

lemma drain_verdict_joined: "drain_verdict j \<noteq> Overrun"
  by (simp add: drain_verdict_def split: joined.split sum.split)

section \<open>Shutting down\<close>

lemma loop_returned: "loop_step E P C d d' \<Longrightarrow> cs_pc d = Returned r \<Longrightarrow> cs_pc d' = Returned r"
  by (erule loop_step.cases) (auto elim: pool_step.cases)

lemma joined_Some: "task_joined (Looping d) = Some j \<longleftrightarrow> (\<exists>r. cs_pc d = Returned r \<and> j = Joined r)"
  by (cases "cs_pc d") auto

lemma joined_stays: "loop_step E P C d d' \<Longrightarrow> task_joined (Looping d) = Some j \<Longrightarrow> task_joined (Looping d') = Some j"
  unfolding joined_Some using loop_returned by blast

lemma joined_Returned: "task_joined (Looping d) = None \<longleftrightarrow> (\<forall>r. cs_pc d \<noteq> Returned r)"
  by (cases "cs_pc d") simp_all

text \<open>
  Cancelled and draining, with the loop's task past its start-up, the process has a way to its
  end in which everything is joined: the timers stop and the loop's moves run out.
\<close>

lemma drains:
  assumes E: "alone P" "keys_ok E" "orders_ok E" "db_ok (wdb w)" "0 < cf_concurrency C" "cf_args C \<noteq> {}"
    and "process_reach E P C w s" and "pr_phase s = Draining_Tasks" and "pr_cancelled s"
    and "\<forall>v. pr_task s \<noteq> Seeding v"
  shows "\<exists>s' j. (process_step E P C)\<^sup>*\<^sup>* s s' \<and> pr_phase s' = Exited (Inr (drain_verdict j))
    \<and> (\<forall>j'. task_joined (pr_task s) = Some j' \<longrightarrow> j = j')"
  using assms(7-10)
proof (induction "pr_timers s + (case pr_task s of Looping d \<Rightarrow> shutdown_rank d | _ \<Rightarrow> 0)" arbitrary: s
    rule: less_induct)
  case less
  have go: "\<exists>s' j. (process_step E P C)\<^sup>*\<^sup>* s s' \<and> pr_phase s' = Exited (Inr (drain_verdict j))
      \<and> (\<forall>j'. task_joined (pr_task s) = Some j' \<longrightarrow> j = j')"
    if st: "process_step E P C s s1" and s1: "pr_phase s1 = Draining_Tasks" "pr_cancelled s1"
      "\<forall>v. pr_task s1 \<noteq> Seeding v" and j: "\<And>j. task_joined (pr_task s) = Some j \<Longrightarrow> task_joined (pr_task s1) = Some j"
      and m: "pr_timers s1 + (case pr_task s1 of Looping d \<Rightarrow> shutdown_rank d | _ \<Rightarrow> 0)
        < pr_timers s + (case pr_task s of Looping d \<Rightarrow> shutdown_rank d | _ \<Rightarrow> 0)" for s1
    using less.hyps [OF m process_reach.goes [OF less.prems(1) st] s1] j st
    by (meson converse_rtranclp_into_rtranclp)
  have u: "up s" using less.prems(2) by (simp add: up_def)
  show ?case
  proof (cases "pr_timers s = 0")
    case False
    then have t: "process_step E P C s (s\<lparr>pr_timers := pr_timers s - 1\<rparr>)"
      using process_step.timer_stops [OF u less.prems(3)] by simp
    show ?thesis by (rule go [OF t]) (use less.prems False in simp_all)
  next
    case True
    show ?thesis
    proof (cases "task_joined (pr_task s)")
      case (Some j)
      have "process_step E P C s (s\<lparr>pr_phase := Exited (Inr (drain_verdict j))\<rparr>)"
        by (rule process_step.joins_all [OF less.prems(2) Some True])
      then show ?thesis using Some by (intro exI [of _ "s\<lparr>pr_phase := Exited (Inr (drain_verdict j))\<rparr>"] exI [of _ j]) auto
    next
      case None
      then obtain d where d: "pr_task s = Looping d" using less.prems(4) by (cases "pr_task s") simp_all
      obtain w0 where r: "db_ok (wdb w0)" "daemon_reach E P C w0 d" "ds_cancelled d"
        using process_okD(3) [OF process_reach_ok [OF less.prems(1) E(1,4)] d] less.prems(3) by auto
      obtain d' where st: "loop_step E P C d d'"
        using loop_progress [OF daemon_reach_ok [OF r(2) E(1-3) r(1)] E(5,6), of E P] None d joined_Returned by auto
      have "process_step E P C s (s\<lparr>pr_task := Looping d'\<rparr>)" by (rule process_step.loops [OF u d st])
      then show ?thesis
        by (rule go) (use less.prems loop_step_rank [OF st r(3)] d None in simp_all)
    qed
  qed
qed

section \<open>What the process promises\<close>

lemma clean_drain:
  assumes "alone P" and "keys_ok E" and "orders_ok E" and "db_ok (wdb w)"
    and "process_reach E P C w s" and c: "pr_phase s = Exited (Inr (Drained_Cleanly st))"
  shows "pr_timers s = 0" "\<exists>d. pr_task s = Looping d \<and> cs_pc d = Returned (Inr st) \<and> \<not> ds_alive d
         \<and> (\<forall>t \<in> set (cs_tasks d). \<exists>b. t = Ended b (Finished (Inr ())))
         \<and> (\<forall>r \<in> set (pubkeys (wdb (cs_world d))). row_status r \<noteq> In_Progress)"
proof -
  note ok = process_reach_ok [OF assms(5,1,4)]
  obtain j where j: "pr_timers s = 0" "task_joined (pr_task s) = Some j" "Drained_Cleanly st = drain_verdict j"
    using ok c by (auto simp: process_ok_def)
  show "pr_timers s = 0" by (rule j(1))
  have "j = Joined (Inr st)" using j(3) by (cases j) (auto simp: drain_verdict_def split: sum.splits)
  then obtain d where d: "pr_task s = Looping d" "cs_pc d = Returned (Inr st)"
    using j(2) by (cases "pr_task s") (auto split: pc.splits)
  obtain w0 where r: "db_ok (wdb w0)" "daemon_reach E P C w0 d" using process_okD(3) [OF ok d(1)] by blast
  have R: "alone P \<and> keys_ok E \<and> orders_ok E \<and> db_ok (wdb w0) \<and> daemon_reach E P C w0 d" using assms(1-3) r by simp
  have "\<not> ds_alive d" using daemon_reach_ok [OF r(2) assms(1-3) r(1)] d(2) by (simp add: daemon_ok_def loop_ok_def)
  then show "\<exists>d. pr_task s = Looping d \<and> cs_pc d = Returned (Inr st) \<and> \<not> ds_alive d
         \<and> (\<forall>t \<in> set (cs_tasks d). \<exists>b. t = Ended b (Finished (Inr ())))
         \<and> (\<forall>r \<in> set (pubkeys (wdb (cs_world d))). row_status r \<noteq> In_Progress)"
    using d run_daemon_loop.clean_end(1,4) [OF R d(2)] by blast
qed

text \<open>
  C7. \<open>run\<close> returns success only after the token was cancelled, and when it reports a clean
  drain, it is one: the timers have stopped, the loop has returned its counts, every worker
  has ended without an error, and no row is leased.
\<close>

theorem run_returns_ok:
  assumes "alone P" and "keys_ok E" and "orders_ok E" and "db_ok (wdb w)"
    and "process_reach E P C w s" and "run_result (pr_phase s) = Some (Inr ())"
  shows "pr_cancelled s \<and> (\<forall>st. pr_phase s = Exited (Inr (Drained_Cleanly st)) \<longrightarrow> pr_timers s = 0
    \<and> (\<exists>d. pr_task s = Looping d \<and> cs_pc d = Returned (Inr st) \<and> \<not> ds_alive d
         \<and> (\<forall>t \<in> set (cs_tasks d). \<exists>b. t = Ended b (Finished (Inr ())))
         \<and> (\<forall>r \<in> set (pubkeys (wdb (cs_world d))). row_status r \<noteq> In_Progress)))"
proof (intro conjI allI impI)
  obtain v where "pr_phase s = Exited (Inr v)" using assms(6) by (cases "pr_phase s" rule: run_result.cases) simp_all
  then show "pr_cancelled s" using process_reach_ok [OF assms(5,1,4)] by (simp add: process_ok_def)
qed (use clean_drain [OF assms(1-5)] in blast)+

text \<open>
  C6. A crash costs nothing but the fetches under way: wherever the process is killed, also in
  the middle of its batches, the next start-up finds well-formed tables that have lost no row
  since the boot, puts exactly the orphaned leases back into the queue with their attempts
  forgiven, and leaves every other row and every edge as it was.
\<close>

theorem restart_recovers:
  assumes "alone P" and "db_ok (wdb w)" and "process_reach E P C w s"
    and "alone P'" and "wdb w1 = wdb (task_world (pr_task s))" and "startup P' anchor w1 = (Inr n, w')"
  shows "db_ok (wdb w') \<and> extends (wdb w) (wdb w') \<and> leased (wdb w') = {}
    \<and> (\<forall>i r. row_by_id (wdb w1) i = Some r \<longrightarrow> row_by_id (wdb w') i = Some (if row_status r = In_Progress
         then r\<lparr>row_status := Discovered, claimed_at := None, fetch_attempts := 0\<rparr> else r))
    \<and> follows (wdb w') = follows (wdb w1) \<and> pubkey_relays (wdb w') = pubkey_relays (wdb w1)"
proof -
  have g: "good (wdb w) (wdb w1)" "db_ok (wdb w1)"
    using process_okD(1,2) [OF process_reach_ok [OF assms(3,1,2)]] assms(5) by simp_all
  note st = startup_Inr [OF assms(4) g(2) assms(6)] and eq = startup_eq(2) [OF assms(4,6)]
  have row: "row_by_id (wdb w') i = Some (if row_status r = In_Progress then release_row r else r)"
    if "row_by_id (wdb w1) i = Some r" for i r
    using row_by_id_insert [OF row_by_id_ids [OF that], of anchor] that
    by (simp add: eq row_by_id_update orphaned_def)
  have "follows (wdb w') = follows (wdb w1)" "pubkey_relays (wdb w') = pubkey_relays (wdb w1)"
    by (simp_all add: eq insert_pubkey_def split: option.split)
  then show ?thesis using good_trans [OF g(1) st(1)] st(2) row by (simp add: good_def release_row_def)
qed

text \<open>
  From every state after the cancellation in which the process is still up, whatever has
  failed, it can join its tasks and leave, without the budget having to run out.
\<close>

lemma completes:
  assumes "alone P" and "keys_ok E" and "orders_ok E" and "db_ok (wdb w)"
    and "0 < cf_concurrency C" and "cf_args C \<noteq> {}"
    and "process_reach E P C w s" and "up s" and "pr_cancelled s"
  shows "\<exists>s' j. (process_step E P C)\<^sup>*\<^sup>* s s' \<and> pr_phase s' = Exited (Inr (drain_verdict j))"
proof -
  obtain s1 where s1: "(process_step E P C)\<^sup>*\<^sup>* s s1" "process_reach E P C w s1" "pr_cancelled s1"
      "pr_phase s1 = Draining_Tasks"
  proof (cases "pr_phase s")
    case Serving
    note st = process_step.server_stops [OF Serving assms(9), of E P C]
    then have "(process_step E P C)\<^sup>*\<^sup>* s (s\<lparr>pr_phase := Draining_Tasks\<rparr>)" by blast
    then show ?thesis by (rule that [OF _ process_reach.goes [OF assms(7) st]]) (simp_all add: assms(9))
  next
    case Draining_Tasks
    then show ?thesis using that [of s] assms(7,9) by simp
  qed (use assms(8) in \<open>simp add: up_def\<close>)
  have "\<exists>s2. (process_step E P C)\<^sup>*\<^sup>* s1 s2 \<and> process_reach E P C w s2 \<and> pr_cancelled s2
      \<and> pr_phase s2 = Draining_Tasks \<and> (\<forall>v. pr_task s2 \<noteq> Seeding v)"
  proof (cases "\<exists>v. pr_task s1 = Seeding v")
    case True
    then obtain v r v' where v: "pr_task s1 = Seeding v" "startup P (cf_anchor C) v = (r, v')" by (metis prod.collapse)
    have u: "up s1" using s1(4) by (simp add: up_def)
    have "\<exists>t. process_step E P C s1 (s1\<lparr>pr_task := t\<rparr>) \<and> (\<forall>v. t \<noteq> Seeding v)"
    proof (cases r)
      case (Inl e)
      show ?thesis using process_step.seed_fails [OF u v(1) v(2) [unfolded Inl]] by (intro exI conjI, assumption) simp
    next
      case (Inr n)
      note v2 = v(2) [unfolded Inr]
      show ?thesis
      proof (cases "cf_concurrency C \<le> MAX_PERMITS")
        case True
        show ?thesis using process_step.seeds [OF u v(1) v2 True] by (intro exI conjI, assumption) simp
      next
        case False
        then have "MAX_PERMITS < cf_concurrency C" by simp
        from process_step.seeds_panics [OF u v(1) v2 this] show ?thesis by (intro exI conjI, assumption) simp
      qed
    qed
    then obtain t where t: "process_step E P C s1 (s1\<lparr>pr_task := t\<rparr>)" "\<forall>v. t \<noteq> Seeding v" by blast
    then have "(process_step E P C)\<^sup>*\<^sup>* s1 (s1\<lparr>pr_task := t\<rparr>)" by blast
    then show ?thesis using process_reach.goes [OF s1(2) t(1)] s1(3,4) t(2)
      by (intro exI [of _ "s1\<lparr>pr_task := t\<rparr>"]) simp
  qed (use s1 in blast)
  then obtain s2 where s2: "(process_step E P C)\<^sup>*\<^sup>* s1 s2" "process_reach E P C w s2" "pr_cancelled s2"
      "pr_phase s2 = Draining_Tasks" "\<forall>v. pr_task s2 \<noteq> Seeding v" by blast
  from drains [OF assms(1-6) s2(2,4,3,5)] show ?thesis using s1(1) s2(1) by (meson rtranclp_trans)
qed

text \<open>
  C26. A dead loop does not end the process. Once the loop's task has ended, with an error as
  well, nothing but a signal or a failure of the server makes the process leave: it goes on
  serving with nobody crawling; and after the signal \<open>run\<close> can return success all the same,
  with the loop's error only logged, so that the binary exits with success.
\<close>

theorem dead_loop_serves:
  assumes "alone P" and "keys_ok E" and "orders_ok E" and "db_ok (wdb w)"
    and "0 < cf_concurrency C" and "cf_args C \<noteq> {}" and "process_reach E P C w s"
    and "pr_phase s = Serving" and "\<not> pr_cancelled s" and "task_joined (pr_task s) = Some j"
  shows "(\<forall>s'. process_step E P C s s' \<and> \<not> pr_cancelled s' \<longrightarrow>
      pr_phase s' = Serving \<and> task_joined (pr_task s') = Some j \<or> (\<exists>e. pr_phase s' = Exited (Inl e)))
    \<and> (\<exists>s'. (process_step E P C)\<^sup>*\<^sup>* s s' \<and> pr_phase s' = Exited (Inr (drain_verdict j))
         \<and> run_result (pr_phase s') = Some (Inr ()))"
proof (intro conjI allI impI)
  fix s' assume "process_step E P C s s' \<and> \<not> pr_cancelled s'"
  then show "pr_phase s' = Serving \<and> task_joined (pr_task s') = Some j \<or> (\<exists>e. pr_phase s' = Exited (Inl e))"
    using assms(8-10) joined_stays by (auto elim!: process_step.cases simp del: task_joined.simps(4))
next
  let ?s1 = "s\<lparr>pr_cancelled := True, pr_task := cancel_task (pr_task s)\<rparr>"
  let ?s2 = "?s1\<lparr>pr_phase := Draining_Tasks\<rparr>"
  have 1: "process_step E P C s ?s1" by (rule process_step.signal) (simp add: up_def assms(8))
  have 2: "process_step E P C ?s1 ?s2" by (rule process_step.server_stops) (simp_all add: assms(8))
  have r: "process_reach E P C w ?s2" by (rule process_reach.goes [OF process_reach.goes [OF assms(7) 1] 2])
  have n: "\<forall>v. cancel_task (pr_task s) \<noteq> Seeding v" using assms(10) by (cases "pr_task s") simp_all
  obtain s' where s': "(process_step E P C)\<^sup>*\<^sup>* ?s2 s'" "pr_phase s' = Exited (Inr (drain_verdict j))"
    using drains [OF assms(1-6) r] n assms(10) by auto
  have "(process_step E P C)\<^sup>*\<^sup>* s s'"
    by (rule converse_rtranclp_into_rtranclp [OF 1 converse_rtranclp_into_rtranclp [OF 2 s'(1)]])
  then show "\<exists>s'. (process_step E P C)\<^sup>*\<^sup>* s s' \<and> pr_phase s' = Exited (Inr (drain_verdict j))
      \<and> run_result (pr_phase s') = Some (Inr ())" using s'(2) by auto
qed

text \<open>A server that is not there: the very first round trip of the loop fails.\<close>

definition absent_pg :: pg where
  "absent_pg = demo_pg\<lparr>pg_fault := (\<lambda>_. Refused Sqlx_Io)\<rparr>"

lemma alone_absent: "alone absent_pg"
  by (simp add: alone_def absent_pg_def demo_pg_def pg_orders_ok_def)

lemma absent_startup:
  "startup absent_pg (sdk_to_bytes demo_env 7) demo_empty = (Inl (Sqlx Sqlx_Io), demo_empty\<lparr>wtick := 1\<rparr>)"
  using to_bytes_length [OF demo_keys_ok, of 7]
  by (simp add: startup_def seed_anchor_def bind_io_def upsert_pubkey_def PUBKEY_LEN_def exec_def absent_pg_def
      demo_pg_def demo_empty_def)

lemma demo_conf_runs: "0 < cf_concurrency demo_conf" "cf_args demo_conf \<noteq> {}"
  "cf_anchor demo_conf = sdk_to_bytes demo_env 7" "cf_concurrency demo_conf \<le> MAX_PERMITS"
  by (simp_all add: demo_conf_def MAX_PERMITS_def)

theorem dead_loop_serves_witness:
  "\<exists>s s'. process_reach demo_env absent_pg demo_conf demo_empty s \<and> \<not> task_alive (pr_task s)
    \<and> (process_step demo_env absent_pg demo_conf)\<^sup>*\<^sup>* s s'
    \<and> pr_phase s' = Exited (Inr (Ended_With_Error (Sqlx Sqlx_Io))) \<and> run_result (pr_phase s') = Some (Inr ())"
proof -
  let ?a = "process_begin demo_empty False 4"
  let ?s = "?a\<lparr>pr_task := Seed_Failed (Sqlx Sqlx_Io) (demo_empty\<lparr>wtick := 1\<rparr>)\<rparr>"
  have "process_step demo_env absent_pg demo_conf ?a ?s"
    using process_step.seed_fails [of ?a demo_empty absent_pg demo_conf "Sqlx Sqlx_Io" "demo_empty\<lparr>wtick := 1\<rparr>" demo_env]
    by (simp add: process_begin_def up_def demo_conf_runs absent_startup)
  then have r: "process_reach demo_env absent_pg demo_conf demo_empty ?s"
    by (rule process_reach.goes [OF process_reach.begins])
  have "drain_verdict (Joined (Inl (Sqlx Sqlx_Io))) = Ended_With_Error (Sqlx Sqlx_Io)" by (simp add: drain_verdict_def)
  then have "\<exists>s'. (process_step demo_env absent_pg demo_conf)\<^sup>*\<^sup>* ?s s'
      \<and> pr_phase s' = Exited (Inr (Ended_With_Error (Sqlx Sqlx_Io))) \<and> run_result (pr_phase s') = Some (Inr ())"
    using dead_loop_serves [OF alone_absent demo_keys_ok demo_orders_ok demo_empty_ok demo_conf_runs(1,2) r,
        of "Joined (Inl (Sqlx Sqlx_Io))"]
    by (simp add: process_begin_def)
  then obtain s' where "(process_step demo_env absent_pg demo_conf)\<^sup>*\<^sup>* ?s s'"
    "pr_phase s' = Exited (Inr (Ended_With_Error (Sqlx Sqlx_Io)))" "run_result (pr_phase s') = Some (Inr ())" by blast
  moreover have "\<not> task_alive (pr_task ?s)" by simp
  ultimately show ?thesis using r by blast
qed

text \<open>
  A \<open>concurrency\<close> above the limit of the semaphore passes the validation. The start-up then
  succeeds, readiness is announced, and the task panics on the next line: the process is ready
  for as long as the database answers, and crawls nothing.
\<close>

theorem panicked_loop_ready:
  assumes "C = demo_conf\<lparr>cf_concurrency := 2 ^ 61\<rparr>"
  shows "\<exists>s. process_reach demo_env demo_pg C demo_empty s \<and> pr_phase s = Serving
    \<and> task_joined (pr_task s) = Some Join_Panic \<and> ready_handler (task_alive (pr_task s)) 0 True = OK"
proof -
  let ?a = "process_begin demo_empty False 4"
  have "process_step demo_env demo_pg C ?a (?a\<lparr>pr_task := Loop_Panicked (demo_at 2 demo_row)\<rparr>)"
    using process_step.seeds_panics [of ?a demo_empty demo_pg C 0 "demo_at 2 demo_row" demo_env]
    by (simp add: process_begin_def up_def assms demo_conf_runs demo_startup MAX_PERMITS_def)
  from process_reach.goes [OF process_reach.begins this] show ?thesis
    by (intro exI conjI, assumption) (simp_all add: process_begin_def ready_OK READY_PING_TIMEOUT_def)
qed

text \<open>Two runs: one cancelled before its first claim, and one killed with a row leased.\<close>

definition demo_process :: "daemon_state \<Rightarrow> nat \<Rightarrow> phase \<Rightarrow> process" where
  "demo_process d timers ph = \<lparr>pr_task = Looping d, pr_cancelled = ds_cancelled d, pr_timers = timers, pr_phase = ph\<rparr>"

lemma demo_started:
  "process_reach demo_env demo_pg demo_conf demo_empty
     (demo_process (demo_daemon Top (demo_at 2 demo_row) [] [] 0 c True) 4 Serving)"
proof -
  have d: "daemon_begin demo_conf 0 c (demo_at 2 demo_row) = demo_daemon Top (demo_at 2 demo_row) [] [] 0 c True"
    by (simp add: demo_conf_def daemon_begin_def crawl_begin_def demo_daemon_defs)
  have "process_step demo_env demo_pg demo_conf (process_begin demo_empty c 4)
      (process_begin demo_empty c 4\<lparr>pr_task := Looping (daemon_begin demo_conf 0 c (demo_at 2 demo_row))\<rparr>)"
    using process_step.seeds [of "process_begin demo_empty c 4" demo_empty demo_pg demo_conf 0 "demo_at 2 demo_row" demo_env]
    by (simp add: process_begin_def up_def demo_conf_runs demo_startup)
  from process_reach.goes [OF process_reach.begins this] show ?thesis
    by (simp add: d) (simp add: demo_process_def process_begin_def demo_daemon_defs)
qed

lemma demo_moves:
  assumes "process_reach E P C w (demo_process d t ph)" and "\<forall>r. ph \<noteq> Exited r"
  shows "loop_step E P C d d' \<Longrightarrow> ds_cancelled d' = ds_cancelled d \<Longrightarrow> process_reach E P C w (demo_process d' t ph)"
    and "ds_cancelled d \<Longrightarrow> t = Suc n \<Longrightarrow> process_reach E P C w (demo_process d n ph)"
    and "ds_cancelled d \<Longrightarrow> ph = Serving \<Longrightarrow> process_reach E P C w (demo_process d t Draining_Tasks)"
proof -
  have u: "up (demo_process d t ph)" using assms(2) by (simp add: demo_process_def up_def)
  show "process_reach E P C w (demo_process d' t ph)" if "loop_step E P C d d'" "ds_cancelled d' = ds_cancelled d"
    using process_reach.goes [OF assms(1) process_step.loops [OF u _ that(1)]] that(2) by (simp add: demo_process_def)
  show "process_reach E P C w (demo_process d n ph)" if "ds_cancelled d" "t = Suc n"
    using process_reach.goes [OF assms(1) process_step.timer_stops [OF u]] that by (simp add: demo_process_def)
  show "process_reach E P C w (demo_process d t Draining_Tasks)" if "ds_cancelled d" "ph = Serving"
    using process_reach.goes [OF assms(1) process_step.server_stops] that by (simp add: demo_process_def)
qed

lemma demo_cancelled:
  "process_reach demo_env demo_pg demo_conf demo_empty
     (demo_process (demo_daemon (Returned (Inr (cs_stats (demo_state Top demo_empty [] [] 0)))) (demo_at 2 demo_row) [] [] 0
        True False) 0 Draining_Tasks)"
proof -
  let ?R = "\<lambda>d t ph. process_reach demo_env demo_pg demo_conf demo_empty (demo_process d t ph)"
  let ?L = "loop_step demo_env demo_pg demo_conf"
  let ?d = "\<lambda>q. demo_daemon q (demo_at 2 demo_row) [] [] 0 True"
  let ?x = "Inr (cs_stats (demo_state Top demo_empty [] [] 0))"
  have c: "ds_cancelled (?d q a)" for q a by (simp add: demo_daemon_defs)
  have "?L (?d Top True) (?d (Draining [] None True) True)"
    using loop_step.stops [of "?d Top True"] by (simp add: demo_daemon_defs)
  from demo_moves(1) [OF demo_started _ this] have "?R (?d (Draining [] None True) True) 4 Serving" by (simp add: c)
  note 1 = demo_moves(1) [OF this]
  have "?L (?d (Draining [] None True) True) (?d (Exiting ?x) True)"
    using loop_step.drained [of "?d (Draining [] None True) True"] by (simp add: demo_daemon_defs)
  from 1 [OF _ this] have "?R (?d (Exiting ?x) True) 4 Serving" by (simp add: c)
  note 2 = demo_moves(1) [OF this]
  have "?L (?d (Exiting ?x) True) (?d (Returned ?x) False)"
    using loop_step.leaves [of "?d (Exiting ?x) True"] by (simp add: demo_daemon_defs)
  from 2 [OF _ this] have "?R (?d (Returned ?x) False) 4 Serving" by (simp add: c)
  from demo_moves(3) [OF this _ c] have 3: "?R (?d (Returned ?x) False) 4 Draining_Tasks" by simp
  have stop: "?R (?d (Returned ?x) False) n Draining_Tasks" if "?R (?d (Returned ?x) False) (Suc n) Draining_Tasks" for n
    by (rule demo_moves(2) [OF that _ c]) simp_all
  have "?R (?d (Returned ?x) False) (4 - k) Draining_Tasks" if "k \<le> 4" for k
    using that
  proof (induction k)
    case (Suc k)
    then show ?case using stop [of "4 - Suc k"] by (simp add: Suc_diff_le [symmetric])
  qed (simp add: 3)
  from this [of 4] show ?thesis by simp
qed

theorem run_returns_ok_witness:
  "\<exists>s d st. process_reach demo_env demo_pg demo_conf demo_empty s \<and> pr_phase s = Exited (Inr (Drained_Cleanly st))
    \<and> pr_cancelled s \<and> pr_timers s = 0 \<and> pr_task s = Looping d \<and> \<not> ds_alive d
    \<and> (\<forall>r \<in> set (pubkeys (wdb (cs_world d))). row_status r \<noteq> In_Progress)"
proof -
  let ?st = "cs_stats (demo_state Top demo_empty [] [] 0)"
  let ?d = "demo_daemon (Returned (Inr ?st)) (demo_at 2 demo_row) [] [] 0 True False"
  let ?s = "demo_process ?d 0 (Exited (Inr (Drained_Cleanly ?st)))"
  have r: "process_reach demo_env demo_pg demo_conf demo_empty ?s"
    using process_reach.goes [OF demo_cancelled process_step.joins_all, of "Joined (Inr ?st)"]
    by (simp add: demo_process_def demo_daemon_defs drain_verdict_def)
  have p: "pr_phase ?s = Exited (Inr (Drained_Cleanly ?st))" by (simp add: demo_process_def)
  from run_returns_ok [OF demo_alone demo_keys_ok demo_orders_ok demo_empty_ok r] p
  have "pr_cancelled ?s \<and> pr_timers ?s = 0 \<and> (\<exists>d. pr_task ?s = Looping d \<and> \<not> ds_alive d
      \<and> (\<forall>x \<in> set (pubkeys (wdb (cs_world d))). row_status x \<noteq> In_Progress))" by auto
  then show ?thesis using r p by blast
qed

lemma demo_claimed:
  "process_reach demo_env demo_pg demo_conf demo_empty
     (demo_process (demo_daemon (Claimed [demo_claim]) (demo_at 3 (lease_row 2 demo_row)) [] [] 1 False True) 4 Serving)"
proof -
  let ?L = "loop_step demo_env demo_pg demo_conf"
  let ?w = "demo_at 2 demo_row" and ?v = "demo_at 3 (lease_row 2 demo_row)"
  have "?L (demo_daemon Top ?w [] [] 0 False True) (demo_daemon Claiming ?w [] [] 0 False True)"
    using loop_step.goes_on [of "demo_daemon Top ?w [] [] 0 False True"] by (simp add: demo_daemon_defs)
  from demo_moves(1) [OF demo_started _ this]
  have 1: "process_reach demo_env demo_pg demo_conf demo_empty
      (demo_process (demo_daemon Claiming ?w [] [] 0 False True) 4 Serving)" by (simp add: demo_daemon_defs)
  have "?L (demo_daemon Claiming ?w [] [] 0 False True) (demo_daemon (Claimed [demo_claim]) ?v [] [] 1 False True)"
    using pool_step.claims [where s = "demo_daemon Claiming ?w [] [] 0 False True" and batch = "[demo_claim]"]
      demo_servers(2) [of demo_pg "demo_daemon Claiming ?w [] [] 0 False True"]
    by (intro loop_step.pool) (simp add: demo_daemon_defs counted_def)
  from demo_moves(1) [OF 1 _ this] show ?thesis by (simp add: demo_daemon_defs)
qed

theorem restart_recovers_witness:
  "\<exists>n w'. startup demo_pg (sdk_to_bytes demo_env 7) (demo_at 3 (lease_row 2 demo_row)) = (Inr n, w')
    \<and> row_by_id (wdb (demo_at 3 (lease_row 2 demo_row))) 1 = Some (lease_row 2 demo_row)
    \<and> row_by_id (wdb w') 1 = Some demo_row \<and> leased (wdb w') = {}"
proof -
  let ?w = "demo_at 3 (lease_row 2 demo_row)"
  have "\<exists>n w'. startup demo_pg (sdk_to_bytes demo_env 7) ?w = (Inr n, w')"
    using to_bytes_length [OF demo_keys_ok, of 7]
    by (simp add: startup_def seed_anchor_def bind_io_step upsert_quiet [OF quiet_demo] reclaim_stale_on_startup_def
        exec_quiet [OF quiet_demo] release_where_def split: prod.split)
  then obtain n w' where run: "startup demo_pg (sdk_to_bytes demo_env 7) ?w = (Inr n, w')" by blast
  have row: "row_by_id (wdb ?w) 1 = Some (lease_row 2 demo_row)"
    by (simp add: demo_at_def row_by_id_def demo_row_def new_row_def lease_row_def)
  have home: "(lease_row 2 demo_row)\<lparr>row_status := Discovered, claimed_at := None, fetch_attempts := 0\<rparr> = demo_row"
    by (simp add: lease_row_def demo_row_def new_row_def)
  have w: "wdb ?w = wdb (task_world (pr_task (demo_process (demo_daemon (Claimed [demo_claim]) ?w [] [] 1 False True) 4 Serving)))"
    by (simp add: demo_process_def demo_daemon_defs)
  have busy: "row_status (lease_row 2 demo_row) = In_Progress" by (simp add: lease_row_def)
  note back_again = restart_recovers [OF demo_alone demo_empty_ok demo_claimed demo_alone w run]
  have "leased (wdb w') = {}" using back_again by (elim conjE)
  moreover have "row_by_id (wdb w') 1 = Some (if row_status (lease_row 2 demo_row) = In_Progress
      then (lease_row 2 demo_row)\<lparr>row_status := Discovered, claimed_at := None, fetch_attempts := 0\<rparr> else lease_row 2 demo_row)"
    using back_again row by blast
  ultimately show ?thesis using run row home busy by simp
qed

end
