(* ===== verification/Script.thy ===== *)
theory Script imports Faults begin

text \<open>
  A computation of \<open>Database\<close> runs to its end in one go, with the moves of the others folded into
  the server. To let several of them take turns on one database they are taken apart here: a
  \<open>script\<close> is the tree of what a computation does next, a round trip or a step of its own, and
  \<open>scripts\<close> says that a tree does, on every server, what the computation does. What a batch does
  for one author has one, and in it only the last round trip can touch the author's row.
\<close>

section \<open>Scripts\<close>

text \<open>
  \<open>Trip s k\<close> makes a round trip with the statement \<open>s\<close>; what it found in the tables decides how
  it goes on. \<open>Local f k\<close> counts and looks at its clock, without a round trip.
\<close>

datatype 'a script =
    Done "store_error + 'a"
  | Local "nat \<Rightarrow> metrics \<Rightarrow> metrics" "nat \<Rightarrow> metrics \<Rightarrow> 'a script"
  | Trip "nat \<Rightarrow> db \<Rightarrow> sqlx_error + db" "nat \<Rightarrow> db \<Rightarrow> 'a script"

primrec play :: "'a script \<Rightarrow> pg \<Rightarrow> 'a io" where
  "play (Done r) P w = (r, w)"
| "play (Local f k) P w = play (k (wtick w) (wmet w)) P (w\<lparr>wmet := f (wtick w) (wmet w)\<rparr>)"
| "play (Trip s k) P w =
     (let n = wtick w; d = pg_others P n (wdb w); w1 = w\<lparr>wdb := d, wtick := Suc n\<rparr>
      in case pg_fault P n of
           Refused e \<Rightarrow> (Inl (Sqlx e), w1)
         | Lost_Ack e \<Rightarrow> (Inl (Sqlx e), case s n d of Inl _ \<Rightarrow> w1 | Inr d' \<Rightarrow> w1\<lparr>wdb := d'\<rparr>)
         | Fine \<Rightarrow> (case s n d of Inl e \<Rightarrow> (Inl (Sqlx e), w1) | Inr d' \<Rightarrow> play (k n d) P (w1\<lparr>wdb := d'\<rparr>)))"

primrec bind_script :: "'a script \<Rightarrow> ('a \<Rightarrow> 'b script) \<Rightarrow> 'b script" where
  "bind_script (Done r) g = (case r of Inl e \<Rightarrow> Done (Inl e) | Inr x \<Rightarrow> g x)"
| "bind_script (Local f k) g = Local f (\<lambda>n m. bind_script (k n m) g)"
| "bind_script (Trip s k) g = Trip s (\<lambda>n d. bind_script (k n d) g)"

lemma play_bind: "play (bind_script T g) P w = bind_io (play T P) (\<lambda>x. play (g x) P) w"
proof (induction T arbitrary: w)
  case (Done r)
  then show ?case by (simp add: bind_io_def split: sum.split)
next
  case (Local f k)
  show ?case using Local.IH [OF rangeI rangeI] by (simp add: bind_io_def)
next
  case (Trip s k)
  show ?case using Trip.IH [OF rangeI rangeI] by (simp add: bind_io_def Let_def split: fault.split sum.split)
qed

definition stmt_script :: "'a stmt \<Rightarrow> 'a script" where
  "stmt_script s = Trip (\<lambda>n d. map_sum id snd (s n d))
     (\<lambda>n d. Done (case s n d of Inl e \<Rightarrow> Inl (Sqlx e) | Inr (x, d') \<Rightarrow> Inr x))"

lemma play_stmt: "play (stmt_script s) P w = exec P s w"
  by (simp add: stmt_script_def exec_def Let_def split: fault.split sum.split prod.split)

section \<open>Computations with a script\<close>

text \<open>
  The computation depends on the server: on its clock and its orders, which stay, and on the
  others and the faults, which come with the turns. \<open>facing\<close> replaces the latter.
\<close>

definition facing :: "pg \<Rightarrow> (nat \<Rightarrow> db \<Rightarrow> db) \<Rightarrow> (nat \<Rightarrow> fault) \<Rightarrow> pg" where
  "facing P others faults = P\<lparr>pg_others := others, pg_fault := faults\<rparr>"

lemma facing_simps [simp]:
  "pg_others (facing P others faults) = others" "pg_fault (facing P others faults) = faults"
  "pg_now (facing P others faults) = pg_now P" "pg_id_order (facing P others faults) = pg_id_order P"
  "pg_row_order (facing P others faults) = pg_row_order P" "pg_url_order (facing P others faults) = pg_url_order P"
  "pg_orders_ok (facing P others faults) = pg_orders_ok P"
  by (simp_all add: facing_def pg_orders_ok_def)

definition scripts :: "(pg \<Rightarrow> 'a io) \<Rightarrow> pg \<Rightarrow> 'a script \<Rightarrow> bool" where
  "scripts c P T \<longleftrightarrow> (\<forall>others faults. c (facing P others faults) = play T (facing P others faults))"

section \<open>When a script touches a row\<close>

text \<open>
  \<open>tripless\<close>: no round trip is left. \<open>sparing I\<close>: none of the round trips touches the rows \<open>I\<close> or
  their edges. \<open>late I\<close>: none but the last one.
\<close>

definition spares_rows :: "int set \<Rightarrow> (nat \<Rightarrow> db \<Rightarrow> sqlx_error + db) \<Rightarrow> bool" where
  "spares_rows I s \<longleftrightarrow> (\<forall>n d d'. db_ok d \<longrightarrow> I \<subseteq> ids d \<longrightarrow> s n d = Inr d' \<longrightarrow> peer I d d')"

primrec tripless :: "'a script \<Rightarrow> bool" where
  "tripless (Done r) = True"
| "tripless (Local f k) = (\<forall>n m. tripless (k n m))"
| "tripless (Trip s k) = False"

primrec sparing :: "int set \<Rightarrow> 'a script \<Rightarrow> bool" where
  "sparing I (Done r) = True"
| "sparing I (Local f k) = (\<forall>n m. sparing I (k n m))"
| "sparing I (Trip s k) = (spares_rows I s \<and> (\<forall>n d. sparing I (k n d)))"

primrec late :: "int set \<Rightarrow> 'a script \<Rightarrow> bool" where
  "late I (Done r) = True"
| "late I (Local f k) = (\<forall>n m. late I (k n m))"
| "late I (Trip s k) = (spares_rows I s \<and> (\<forall>n d. late I (k n d)) \<or> (\<forall>n d. tripless (k n d)))"

lemma sparing_late: "sparing I T \<Longrightarrow> late I T"
proof (induction T)
  case (Local f k)
  then show ?case using Local.IH [OF rangeI rangeI] by simp
next
  case (Trip s k)
  then show ?case using Trip.IH [OF rangeI rangeI] by simp
qed simp

lemma tripless_late: "tripless T \<Longrightarrow> late I T"
proof (induction T)
  case (Local f k)
  then show ?case using Local.IH [OF rangeI rangeI] by simp
next
  case (Trip s k)
  then show ?case using Trip.IH [OF rangeI rangeI] by simp
qed simp

lemma tripless_bind: "tripless T \<Longrightarrow> (\<And>x. tripless (g x)) \<Longrightarrow> tripless (bind_script T g)"
proof (induction T)
  case (Done r)
  then show ?case by (cases r) (simp_all)
next
  case (Local f k)
  then show ?case using Local.IH [OF rangeI rangeI] by simp
next
  case (Trip s k)
  then show ?case using Trip.IH [OF rangeI rangeI] by simp
qed

lemma sparing_bind: "sparing I T \<Longrightarrow> (\<And>x. sparing I (g x)) \<Longrightarrow> sparing I (bind_script T g)"
proof (induction T)
  case (Done r)
  then show ?case by (cases r) (simp_all)
next
  case (Local f k)
  then show ?case using Local.IH [OF rangeI rangeI] by simp
next
  case (Trip s k)
  then show ?case using Trip.IH [OF rangeI rangeI] by simp
qed

lemma late_bind: "sparing I T \<Longrightarrow> (\<And>x. late I (g x)) \<Longrightarrow> late I (bind_script T g)"
proof (induction T)
  case (Done r)
  then show ?case by (cases r) (simp_all)
next
  case (Local f k)
  then show ?case using Local.IH [OF rangeI rangeI] by simp
next
  case (Trip s k)
  then show ?case using Trip.IH [OF rangeI rangeI] by simp
qed

lemma late_bind_tripless: "late I T \<Longrightarrow> (\<And>x. tripless (g x)) \<Longrightarrow> late I (bind_script T g)"
proof (induction T)
  case (Done r)
  then show ?case by (cases r) (simp_all add: tripless_late)
next
  case (Local f k)
  then show ?case using Local.IH [OF rangeI rangeI] by simp
next
  case (Trip s k)
  have "tripless (bind_script (k n d) g)" if "tripless (k n d)" for n d
    by (rule tripless_bind [OF that Trip.prems(2)])
  then show ?case using Trip.prems(1) Trip.IH [OF rangeI rangeI] Trip.prems(2) by auto
qed

text \<open>A computation with a script of the kind \<open>Q\<close>.\<close>

definition scripted :: "('a script \<Rightarrow> bool) \<Rightarrow> (pg \<Rightarrow> 'a io) \<Rightarrow> pg \<Rightarrow> bool" where
  "scripted Q c P \<longleftrightarrow> (\<exists>T. scripts c P T \<and> Q T)"

named_theorems scripted_intros

lemma scriptedI:
  "(\<And>others faults w. c (facing P others faults) w = play T (facing P others faults) w) \<Longrightarrow> Q T \<Longrightarrow> scripted Q c P"
  by (auto simp: scripted_def scripts_def fun_eq_iff)

lemma scripted_ret [scripted_intros]: "(\<And>r. Q (Done r)) \<Longrightarrow> scripted Q (\<lambda>_. ret x) P"
  by (rule scriptedI [of _ _ "Done (Inr x)"]) (simp_all add: ret_def)

lemma scripted_fail: "(\<And>r. Q (Done r)) \<Longrightarrow> scripted Q (\<lambda>_. fail e) P"
  by (rule scriptedI [of _ _ "Done (Inl e)"]) (simp_all add: fail_def)

lemma scripted_moment: "scripted (sparing I) (\<lambda>_. moment) P"
  by (rule scriptedI [of _ _ "Local (\<lambda>_ m. m) (\<lambda>n _. Done (Inr n))"]) (simp_all add: moment_def)

lemma scripted_tally:
  "(\<And>f g. (\<And>n m. Q (g n m)) \<Longrightarrow> Q (Local f g)) \<Longrightarrow> (\<And>r. Q (Done r)) \<Longrightarrow> scripted Q (\<lambda>_. tally f) P"
  by (rule scriptedI [of _ _ "Local (\<lambda>_ m. snd (f m)) (\<lambda>_ m. Done (Inr (fst (f m))))"])
    (simp_all add: tally_def split: prod.split)

lemma scripted_bind_from:
  assumes "scripted Q c P" and "\<And>x. scripted R (\<lambda>P'. k P' x) P"
    and "\<And>T g. Q T \<Longrightarrow> (\<And>x. R (g x)) \<Longrightarrow> S (bind_script T g)"
  shows "scripted S (\<lambda>P'. bind_io (c P') (k P')) P"
proof -
  obtain T where T: "scripts c P T" "Q T" using assms(1) by (auto simp: scripted_def)
  have "\<forall>x. \<exists>g. scripts (\<lambda>P'. k P' x) P g \<and> R g" using assms(2) by (simp add: scripted_def)
  then obtain g where g: "\<forall>x. scripts (\<lambda>P'. k P' x) P (g x) \<and> R (g x)" by metis
  have k: "k (facing P others faults) = (\<lambda>x. play (g x) (facing P others faults))" for others faults
    using g by (simp add: scripts_def fun_eq_iff)
  show ?thesis
    by (rule scriptedI [of _ _ "bind_script T g"]) (use T g assms(3) in \<open>simp_all add: scripts_def play_bind k\<close>)
qed

lemma scripted_if [scripted_intros]:
  "scripted Q c P \<Longrightarrow> scripted Q c' P \<Longrightarrow> scripted Q (\<lambda>P'. if b then c P' else c' P') P"
  by (cases b) simp_all

lemma scripted_option [scripted_intros]:
  "scripted Q c P \<Longrightarrow> (\<And>x. scripted Q (\<lambda>P'. k P' x) P)
    \<Longrightarrow> scripted Q (\<lambda>P'. case y of None \<Rightarrow> c P' | Some x \<Rightarrow> k P' x) P"
  by (cases y) simp_all

lemma scripted_sum [scripted_intros]:
  "(\<And>x. scripted Q (\<lambda>P'. c P' x) P) \<Longrightarrow> (\<And>x. scripted Q (\<lambda>P'. k P' x) P)
    \<Longrightarrow> scripted Q (\<lambda>P'. case y of Inl x \<Rightarrow> c P' x | Inr x \<Rightarrow> k P' x) P"
  by (cases y) simp_all

text \<open>The rules by kind: a sparing part before what follows, and a write at the end.\<close>

lemma spares_exec:
  assumes "\<And>others faults. s (facing P others faults) = s P"
    and "\<And>n d x d'. db_ok d \<Longrightarrow> I \<subseteq> ids d \<Longrightarrow> s P n d = Inr (x, d') \<Longrightarrow> peer I d d'"
  shows "scripted (sparing I) (\<lambda>P'. exec P' (s P')) P"
proof (rule scriptedI [of _ _ "stmt_script (s P)"])
  show "sparing I (stmt_script (s P))"
    using assms(2) by (auto simp: stmt_script_def spares_rows_def map_sum_def split: sum.splits prod.splits)
qed (simp add: play_stmt assms(1))

lemma late_exec:
  "(\<And>others faults. s (facing P others faults) = s P) \<Longrightarrow> scripted (late I) (\<lambda>P'. exec P' (s P')) P"
  by (rule scriptedI [of _ _ "stmt_script (s P)"]) (simp_all add: play_stmt, simp add: stmt_script_def)

lemma spares_bind [scripted_intros]:
  "scripted (sparing I) c P \<Longrightarrow> (\<And>x. scripted (sparing I) (\<lambda>P'. k P' x) P)
    \<Longrightarrow> scripted (sparing I) (\<lambda>P'. bind_io (c P') (k P')) P"
  by (rule scripted_bind_from [of "sparing I" c P "sparing I"]) (auto intro: sparing_bind)

lemma late_after:
  "scripted (sparing I) c P \<Longrightarrow> (\<And>x. scripted (late I) (\<lambda>P'. k P' x) P)
    \<Longrightarrow> scripted (late I) (\<lambda>P'. bind_io (c P') (k P')) P"
  by (rule scripted_bind_from [of "sparing I" c P "late I"]) (auto intro: late_bind)

lemma late_before:
  "scripted (late I) c P \<Longrightarrow> (\<And>x. scripted tripless (\<lambda>P'. k P' x) P)
    \<Longrightarrow> scripted (late I) (\<lambda>P'. bind_io (c P') (k P')) P"
  by (rule scripted_bind_from [of "late I" c P tripless]) (auto intro: late_bind_tripless)

lemma counted_ret: "scripted tripless (\<lambda>P'. bind_io (tally f) (\<lambda>_. ret x)) P"
  by (rule scripted_bind_from [of tripless _ _ tripless, OF scripted_tally scripted_ret]) (auto intro: tripless_bind)

lemma spares_tally [scripted_intros]: "scripted (sparing I) (\<lambda>_. tally f) P"
  by (rule scripted_tally) simp_all

lemma spares_map [scripted_intros]:
  "(\<And>x. scripted (sparing I) (\<lambda>P'. f P' x) P) \<Longrightarrow> scripted (sparing I) (\<lambda>P'. map_io (f P') xs) P"
  by (induction xs) (auto intro!: scripted_intros)

lemmas spares_intros = scripted_intros scripted_moment spares_exec

section \<open>What a batch does for one author\<close>

lemma spares_upsert [scripted_intros]: "scripted (sparing I) (\<lambda>P'. upsert_pubkey P' k) P"
proof (cases "length k = 32")
  case True
  have "scripted (sparing I) (\<lambda>P'. exec P' (\<lambda>n d. Inr (insert_pubkey k d))) P"
  proof (rule spares_exec)
    fix n :: nat and d x d' assume a: "db_ok d" "I \<subseteq> ids d" and r: "Inr (insert_pubkey k d) = (Inr (x, d') :: sqlx_error + int \<times> db)"
    have "d' = snd (insert_pubkey k d)" using r by (metis snd_conv sum.inject(2))
    then show "peer I d d'" using settled_peer [OF settled_insert [OF a(1) True] _ a(2)] by simp
  qed simp
  then show ?thesis using True by (simp add: upsert_pubkey_def PUBKEY_LEN_def)
qed (simp add: upsert_pubkey_def PUBKEY_LEN_def scripted_fail)

lemma spares_lookup [scripted_intros]: "scripted (sparing I) (\<lambda>P'. lookup_write_relays P' i) P"
  unfolding lookup_write_relays_def by (rule spares_exec) (auto simp: peer_refl)

lemma spares_relay_list [scripted_intros]: "scripted (sparing I) (\<lambda>P'. apply_relay_list P' i rs ts) P"
  unfolding apply_relay_list_def
proof (rule spares_exec)
  fix n d x d' assume a: "db_ok d" "I \<subseteq> ids d" and t: "replace_relays_tx i rs ts n d = Inr (x, d')"
  have "same_graph d d'" "db_ok d'" using replace_relays_Inr [OF t a(1)] by auto
  then show "peer I d d'" using settled_peer [OF settled_graph, of d d' I "{}"] a(2) by simp
qed simp

lemma diff_tx_facing: "diff_tx (facing P others faults) = diff_tx P"
  unfolding fun_eq_iff diff_tx_def facing_simps by simp

lemma late_status [scripted_intros]: "scripted (late I) (\<lambda>P'. set_fetch_status P' i st ts) P"
  unfolding set_fetch_status_def by (rule late_exec) simp

lemma late_requeue [scripted_intros]: "scripted (late I) (\<lambda>P'. requeue_or_fail P' i mx ts) P"
  unfolding requeue_or_fail_def by (rule late_exec) simp

lemma late_apply_follow_list: "scripted (late I) (\<lambda>P'. apply_follow_list P' i ev ts fs) P"
proof -
  have sel: "scripted (sparing I) (\<lambda>P'. exec P' (select_applied_event i)) P"
    by (rule spares_exec) (auto simp: select_applied_event_def peer_refl split: option.splits)
  have same: "scripted (late I) (\<lambda>P'. bind_io (exec P' (\<lambda>n d. Inr ((), update_rows (\<lambda>r. row_id r = i)
      (confirm_row (pg_now P' n)) d))) (\<lambda>_. ret False)) P"
    by (rule late_before [OF late_exec scripted_ret]) simp_all
  have cur: "scripted (sparing I) (\<lambda>P'. exec P' (\<lambda>n d. Inr (followees_of d i, d))) P"
    by (rule spares_exec) (auto simp: peer_refl)
  have diff: "scripted (late I) (\<lambda>P'. bind_io (exec P' (diff_tx P' i ev ts (g P') (h P') (q P'))) (\<lambda>_. ret True)) P"
    if "\<And>others faults. g (facing P others faults) = g P \<and> h (facing P others faults) = h P
      \<and> q (facing P others faults) = q P" for g h q
    by (rule late_before [OF late_exec scripted_ret]) (simp_all add: diff_tx_facing that)
  show ?thesis
    unfolding apply_follow_list_def Let_def
    by (rule late_after [OF sel], rule scripted_if [OF same], rule late_after [OF cur], rule diff) simp
qed

lemma late_apply_validated [scripted_intros]: "scripted (late I) (\<lambda>P'. apply_validated E P' v) P"
  unfolding apply_validated_def
  by (intro late_after [OF spares_upsert] late_after [OF spares_map] spares_upsert late_apply_follow_list)

lemma spares_resolve_write_relays: "scripted (sparing I) (\<lambda>P'. resolve_write_relays E P' B c a) P"
  unfolding resolve_write_relays_def by (intro scripted_intros) simp_all

lemma spares_fallback_recover: "scripted (sparing I) (\<lambda>P'. fallback_recover E P' B c a) P"
  unfolding fallback_recover_def Let_def
  by (intro scripted_intros spares_resolve_write_relays scripted_moment) simp_all

lemma late_settle_author: "scripted (late I) (\<lambda>P'. settle_author E P' B f ts c) P"
proof -
  have miss: "scripted (late I) (\<lambda>P'. bind_io (set_fetch_status P' i st ts) (\<lambda>_. ret x)) P" for i st ts and x :: nat
    by (rule late_before [OF late_status scripted_ret]) simp
  have hit: "scripted (late I) (\<lambda>P'. bind_io (apply_validated E P' v) (\<lambda>_. ret x)) P" for v and x :: nat
    by (rule late_before [OF late_apply_validated scripted_ret]) simp
  have hit': "scripted (late I) (\<lambda>P'. bind_io (apply_validated E P' v) (\<lambda>_. bind_io (tally g) (\<lambda>_. ret x))) P"
    for v and g :: "metrics \<Rightarrow> unit \<times> metrics" and x :: nat
    by (rule late_before [OF late_apply_validated counted_ret])
  have tried: "scripted (sparing I) (\<lambda>P'. if b_fallback_enabled B then fallback_recover E P' B c a else ret None) P" for a
    by (intro scripted_if spares_fallback_recover scripted_ret) simp
  show ?thesis
    unfolding settle_author_def by (intro scripted_option miss hit late_after [OF tried] hit')
qed

section \<open>Once nothing succeeds any more\<close>

text \<open>A script that finds every round trip refused and nobody else at work makes at most one.\<close>

lemma play_refused:
  assumes "\<forall>j \<ge> wtick w. others j = (\<lambda>d. d) \<and> (\<exists>e. faults j = Refused e)"
  shows "\<exists>r w'. play T (facing P others faults) w = (r, w') \<and> wdb w' = wdb w
    \<and> (wtick w' = wtick w \<or> wtick w' = Suc (wtick w))"
  using assms
proof (induction T arbitrary: w)
  case (Trip s k)
  from Trip.prems obtain e where "faults (wtick w) = Refused e" "others (wtick w) = (\<lambda>d. d)" by blast
  then show ?case by (simp add: Let_def)
next
  case (Local f k)
  show ?case using Local.IH [OF rangeI rangeI, of "w\<lparr>wmet := f (wtick w) (wmet w)\<rparr>"] Local.prems by simp
qed simp

end
