(* ===== verification/Jobs.thy ===== *)
theory Jobs imports Script begin

text \<open>
  \<open>process_batch\<close> author by author. Behind the gate the batch is a loop over its authors, and the
  turn of one author, a \<open>author_job\<close>, is what touches the author's row: here is the contract of
  one job, which needs nothing of the others but that they leave that one row alone while the
  job runs.
\<close>

section \<open>The loop\<close>

abbreviation gate ::
  "env \<Rightarrow> batch_args \<Rightarrow> claimed_author list \<Rightarrow> relay_error + event list \<Rightarrow> metrics
   \<Rightarrow> (relay_error + validated_follow_list list) \<times> metrics" where
  "gate E B batch u \<equiv> acquire_validated_lists E (authors_of E batch) (b_kind B) (b_now B) (b_clamp B)
     (b_follow_cap B) u"

text \<open>The body of either loop of \<open>process_batch\<close>: that of the failed fetch and that of the answered one.\<close>

definition author_job ::
  "env \<Rightarrow> pg \<Rightarrow> batch_args \<Rightarrow> claimed_author list \<Rightarrow> relay_error + event list \<Rightarrow> metrics
   \<Rightarrow> claimed_author \<Rightarrow> nat io" where
  "author_job E P B batch u m claimed =
     (let stamp = timestamp_to_datetime E (b_now B)
      in case fst (gate E B batch u m) of
           Inl _ \<Rightarrow> bind_io (requeue_or_fail P (ca_id claimed) (b_max_attempts B) stamp) (\<lambda>_. ret 0)
         | Inr validated \<Rightarrow> settle_author E P B (index_by_author validated) stamp claimed)"

fun run_jobs :: "(claimed_author \<Rightarrow> nat io) \<Rightarrow> claimed_author list \<Rightarrow> nat \<Rightarrow> nat io" where
  "run_jobs job [] applied = ret applied"
| "run_jobs job (claimed # cs) applied = bind_io (job claimed) (\<lambda>k. run_jobs job cs (applied + k))"

lemma settle_batch_jobs: "settle_batch E P B f stamp cs n = run_jobs (settle_author E P B f stamp) cs n"
  by (induction cs arbitrary: n) simp_all

lemma requeue_jobs:
  "bind_io (for_io cs (\<lambda>c. requeue_or_fail P (ca_id c) mx stamp)) (\<lambda>_. ret n)
    = run_jobs (\<lambda>c. bind_io (requeue_or_fail P (ca_id c) mx stamp) (\<lambda>_. ret 0)) cs n"
proof (induction cs)
  case (Cons c cs)
  have a: "bind_io (bind_io x f) g = bind_io x (\<lambda>y. bind_io (f y) g)" for x :: "unit io" and f :: "unit \<Rightarrow> unit io" and g :: "unit \<Rightarrow> nat io"
    by (simp add: bind_io_def fun_eq_iff split: prod.split sum.split)
  have b: "bind_io (bind_io x (\<lambda>_. ret 0)) g = bind_io x (\<lambda>_. g 0)" for x :: "unit io" and g :: "nat \<Rightarrow> nat io"
    by (simp add: bind_io_def ret_def fun_eq_iff split: prod.split sum.split)
  show ?case by (simp add: a b Cons.IH)
qed (simp add: bind_io_def ret_def fun_eq_iff)

lemma process_batch_jobs:
  assumes "batch \<noteq> []"
  shows "process_batch E P B batch u w
    = run_jobs (author_job E P B batch u (wmet w)) batch 0 (w\<lparr>wmet := snd (gate E B batch u (wmet w))\<rparr>)"
proof -
  have "author_job E P B batch u (wmet w) = (case fst (gate E B batch u (wmet w)) of
      Inl _ \<Rightarrow> (\<lambda>c. bind_io (requeue_or_fail P (ca_id c) (b_max_attempts B) (timestamp_to_datetime E (b_now B))) (\<lambda>_. ret 0))
    | Inr vs \<Rightarrow> settle_author E P B (index_by_author vs) (timestamp_to_datetime E (b_now B)))"
    by (simp add: author_job_def fun_eq_iff split: sum.split)
  moreover obtain r m' where g: "gate E B batch u (wmet w) = (r, m')" by fastforce
  moreover have "bind_io (tally (gate E B batch u)) k w = k r (w\<lparr>wmet := m'\<rparr>)" for k :: "_ \<Rightarrow> nat io"
    using g by (simp add: bind_io_def tally_def)
  ultimately show ?thesis using assms
    unfolding process_batch_def Let_def authors_of_def [symmetric]
    by (cases r) (simp_all add: requeue_jobs settle_batch_jobs)
qed

text \<open>Every job has a script in which only the last trip can touch the author's row.\<close>

lemma late_author_job: "scripted (late I) (\<lambda>P'. author_job E P' B batch u m c) P"
proof -
  have "scripted (late I) (\<lambda>P'. bind_io (requeue_or_fail P' i mx ts) (\<lambda>_. ret 0)) P" for i mx ts
    by (rule late_before [OF late_requeue scripted_ret]) simp
  then show ?thesis unfolding author_job_def Let_def by (intro scripted_sum late_settle_author)
qed

section \<open>What a job has done when it returns\<close>

definition job_done ::
  "env \<Rightarrow> batch_args \<Rightarrow> claimed_author list \<Rightarrow> relay_error + event list \<Rightarrow> metrics \<Rightarrow> claimed_author
   \<Rightarrow> db \<Rightarrow> db \<Rightarrow> bool" where
  "job_done E B batch u m c d d' \<longleftrightarrow>
     (\<exists>r. row_by_id d (ca_id c) = Some r \<and>
        (case u of
           Inr raw \<Rightarrow> author_outcome E B (index_by_author (fst (ingest_events E raw (b_kind B) (authors_of E batch)
              (b_now B) (b_clamp B) (b_follow_cap B) m))) (timestamp_to_datetime E (b_now B)) c r d d'
         | Inl e \<Rightarrow> row_by_id d' (ca_id c) = Some (attempt_row (sint (b_max_attempts B)) (timestamp_to_datetime E (b_now B)) r)
             \<and> (\<forall>b. (ca_id c, b) \<in> set (follows d') \<longleftrightarrow> (ca_id c, b) \<in> set (follows d))))"

lemma job_done_later:
  assumes "job_done E B batch u m c d d1" and "db_ok d" and "peer {ca_id c} d1 d2"
  shows "job_done E B batch u m c d d2"
proof (cases u)
  case (Inl e)
  have "ca_id c \<in> {ca_id c}" by simp
  note p = peerD(4,5) [OF assms(3) this]
  show ?thesis using assms(1) unfolding job_done_def Inl sum.case p .
next
  case (Inr raw)
  show ?thesis using assms(1) outcome_frame [OF peer_refl [OF assms(2)] _ assms(3)]
    unfolding job_done_def Inr sum.case by blast
qed

lemma job_returns:
  assumes sp: "spares {ca_id c} P" and o: "pg_orders_ok P" and E: "keys_ok E" "orders_ok E"
    and ok: "db_ok (wdb w)" and cl: "claims_row (wdb w) c"
    and run: "author_job E P B batch u m c w = (Inr j, w')"
  shows "job_done E B batch u m c (wdb w) (wdb w')"
proof -
  obtain r where r: "row_by_id (wdb w) (ca_id c) = Some r" "row_pubkey r = ca_pubkey c"
    using cl by (auto simp: claims_row_def)
  have I: "{ca_id c} \<subseteq> ids (wdb w)" using row_by_id_ids [OF r(1)] by simp
  show ?thesis
  proof (cases u)
    case (Inl e)
    obtain x where q: "requeue_or_fail P (ca_id c) (b_max_attempts B) (timestamp_to_datetime E (b_now B)) w = (Inr x, w')"
      using run by (auto simp: author_job_def Inl acquire_validated_lists_def bind_io_Inr ret_def)
    show ?thesis using requeue_spared(2,3) [OF sp ok I _ r(1) q] r(1) by (simp add: job_done_def Inl)
  next
    case (Inr raw)
    define vs where "vs = fst (ingest_events E raw (b_kind B) (authors_of E batch) (b_now B) (b_clamp B) (b_follow_cap B) m)"
    have s: "settle_author E P B (index_by_author vs) (timestamp_to_datetime E (b_now B)) c w = (Inr j, w')"
      using run by (simp add: author_job_def Inr acquire_validated_lists_def vs_def case_prod_beta)
    have "delivers (settle_author E (calm P) B (index_by_author vs) (timestamp_to_datetime E (b_now B)) c) w (\<lambda>k w'.
        peer ({ca_id c} - {ca_id c}) (wdb w) (wdb w')
        \<and> author_outcome E B (index_by_author vs) (timestamp_to_datetime E (b_now B)) c r (wdb w) (wdb w')
        \<and> k = (if has_list (wdb w') c then 1 else 0))"
      by (rule settle_author_shared [OF shared_calm [OF sp o] E ok I _ r]) (use index_by_author_mem in blast)+
    then show ?thesis
      using agreesD [OF agrees_settle_author s] r(1) by (auto simp: delivers_def job_done_def Inr vs_def)
  qed
qed

section \<open>What its round trips do\<close>

text \<open>The lookup of the author's list is all a job sees of the index.\<close>

lemma settle_author_index:
  assumes "\<And>a. sdk_from_slice E (ca_pubkey c) = Some a \<Longrightarrow> f a = g a"
  shows "settle_author E P B f stamp c = settle_author E P B g stamp c"
  unfolding settle_author_def using assms by (cases "sdk_from_slice E (ca_pubkey c)") simp_all

lemma owned_settle_author:
  assumes E: "keys_ok E" "orders_ok E"
    and vs: "vs = fst (ingest_events E raw (b_kind B) req (b_now B) (b_clamp B) (b_follow_cap B) m)"
  shows "keeps_at (\<lambda>n d. claims P [c] d0 \<longrightarrow> owned P [c] n0 d0 n d) (settle_author E P B (index_by_author vs) stamp c)"
proof -
  let ?g = "\<lambda>a. if sdk_from_slice E (ca_pubkey c) = Some a then index_by_author vs a else None"
  have "from_batch E B [c] (Inr raw) v" if "?g a = Some v" for a v
  proof -
    have a: "sdk_from_slice E (ca_pubkey c) = Some a" "index_by_author vs a = Some v"
      using that by (simp_all split: if_splits)
    have v: "v \<in> set vs" "vfl_follower v = a" using index_by_author_mem [OF a(2)] by simp_all
    show ?thesis
      by (rule from_batch_gate [OF E v(1) [unfolded vs]]) (use a(1) v(2) in \<open>auto simp: in_authors_of answered_def\<close>)
  qed
  then have "keeps_at (\<lambda>n d. claims P [c] d0 \<longrightarrow> owned P [c] n0 d0 n d) (settle_author E P B ?g stamp c)"
    by (intro ownership.settle_author [where u = "Inr raw"] E) simp_all
  then show ?thesis using settle_author_index [of E c "index_by_author vs" ?g] by simp
qed

lemma job_trips:
  assumes "\<And>n d. good (wdb w) d \<Longrightarrow> good (wdb w) (pg_others P n d)" and E: "keys_ok E" "orders_ok E"
    and "db_ok (wdb w)" and "claims_row (wdb w) c" and run: "author_job E P B batch u m c w = (res, w')"
  shows "trips P (settled {ca_id c}) (wtick w) (wdb w) (wtick w') (wdb w')"
proof -
  let ?I = "\<lambda>n d. claims P [c] (wdb w) \<longrightarrow> owned P [c] (wtick w) (wdb w) n d"
  have rq: "keeps_at ?I (requeue_or_fail P (ca_id c) mx ts)" for mx ts
    by (rule keeps_given, rule owned_requeue) simp_all
  have "keeps_at ?I (author_job E P B batch u m c)"
  proof (cases u)
    case (Inl e)
    then show ?thesis by (simp add: author_job_def acquire_validated_lists_def) (intro keeps_bind keeps_ret rq)
  next
    case (Inr raw)
    then show ?thesis
      using owned_settle_author [OF E refl, where P = P and ?d0.0 = "wdb w" and ?n0.0 = "wtick w" and c = c and raw = raw
          and req = "authors_of E batch" and m = m and B = B and stamp = "timestamp_to_datetime E (b_now B)"]
      by (simp add: author_job_def acquire_validated_lists_def case_prod_beta)
  qed
  moreover have "?I (wtick w) (wdb w)" using assms(4) by (simp add: owned_def good_refl trips.start)
  ultimately have "?I (wtick w') (wdb w')" using run unfolding keeps_at_def by (metis snd_conv)
  then show ?thesis using assms(1,5) by (simp add: claims_def owned_def)
qed

end
