(* ===== verification/Workers.thy ===== *)
theory Workers imports Jobs begin

text \<open>
  The workers of \<open>src/crawl/mod.rs\<close> and \<open>src/daemon/loop_.rs\<close> at the grain of their round trips.
  \<open>Pool\<close> lets a batch be one step of its worker; here a worker goes through its batch author by
  author and trip by trip, any of which may fail, while the other workers, the driver and the
  timers make theirs. A row is a worker's from the claim to the trip that settles it and no
  longer: a row that a batch has requeued can be claimed by the next one while the first still
  runs. The contract of one job among well-behaved others becomes a theorem about all of them
  together: each worker is the well-behaved other of the rest.
\<close>

section \<open>Workers\<close>

text \<open>
  \<open>wk_plan\<close> has the script of each author's job, \<open>wk_todo\<close> the authors that are not settled yet,
  the current one first, and \<open>wk_script\<close> what is left of its script. \<open>wk_settled\<close> records, for
  the statements below, which authors have been settled and the tables right after.
\<close>

record worker =
  wk_batch :: "claimed_author list"
  wk_args :: batch_args
  wk_union :: "relay_error + event list"
  wk_pg :: pg
  wk_start :: world
  wk_plan :: "claimed_author \<Rightarrow> nat script"
  wk_todo :: "claimed_author list"
  wk_script :: "nat script"
  wk_applied :: nat
  wk_tick :: nat
  wk_met :: metrics
  wk_settled :: "(claimed_author \<times> db) list"

abbreviation job_of :: "env \<Rightarrow> worker \<Rightarrow> pg \<Rightarrow> claimed_author \<Rightarrow> nat io" where
  "job_of E k P \<equiv> author_job E P (wk_args k) (wk_batch k) (wk_union k) (wmet (wk_start k))"

abbreviation done_by :: "env \<Rightarrow> worker \<Rightarrow> claimed_author \<Rightarrow> db \<Rightarrow> db \<Rightarrow> bool" where
  "done_by E k \<equiv> job_done E (wk_args k) (wk_batch k) (wk_union k) (wmet (wk_start k))"

text \<open>Up to its next round trip a worker only counts: nobody can tell when.\<close>

primrec ahead :: "'a script \<Rightarrow> nat \<Rightarrow> metrics \<Rightarrow> 'a script \<times> metrics" where
  "ahead (Done r) n m = (Done r, m)"
| "ahead (Local f g) n m = ahead (g n m) n (f n m)"
| "ahead (Trip s g) n m = (Trip s g, m)"

text \<open>
  The loop over the batch, from the tables \<open>d\<close> that the last trip left: a job that has returned
  is followed by the next one, an error leaves the loop.
\<close>

fun go_on :: "db \<Rightarrow> claimed_author list \<Rightarrow> worker \<Rightarrow> worker" where
  "go_on d [] k = k\<lparr>wk_todo := [], wk_script := Done (Inr (wk_applied k))\<rparr>"
| "go_on d (c # cs) k =
     (case ahead (wk_script k) (wk_tick k) (wk_met k) of
        (Done (Inr j), m) \<Rightarrow>
          go_on d cs (k\<lparr>wk_script := wk_plan k (hd cs), wk_applied := wk_applied k + j, wk_met := m,
            wk_settled := wk_settled k @ [(c, d)]\<rparr>)
      | (T, m) \<Rightarrow> k\<lparr>wk_todo := c # cs, wk_script := T, wk_met := m\<rparr>)"

definition hired ::
  "env \<Rightarrow> pg \<Rightarrow> batch_args \<Rightarrow> claimed_author list \<Rightarrow> relay_error + event list \<Rightarrow> (claimed_author \<Rightarrow> nat script)
   \<Rightarrow> world \<Rightarrow> worker" where
  "hired E P B batch u plan w = go_on (wdb w) batch
     \<lparr>wk_batch = batch, wk_args = B, wk_union = u, wk_pg = P, wk_start = w, wk_plan = plan, wk_todo = batch,
      wk_script = plan (hd batch), wk_applied = 0, wk_tick = wtick w, wk_met = snd (gate E B batch u (wmet w)),
      wk_settled = []\<rparr>"

text \<open>The rows a worker still has to settle; one that has returned or failed has none.\<close>

definition open_rows :: "worker \<Rightarrow> int set" where
  "open_rows k = (case wk_script k of Trip s g \<Rightarrow> ca_id ` set (wk_todo k) | _ \<Rightarrow> {})"

text \<open>What one round trip leaves of the script and of the tables, by its fault.\<close>

definition turn ::
  "(nat \<Rightarrow> db \<Rightarrow> sqlx_error + db) \<Rightarrow> (nat \<Rightarrow> db \<Rightarrow> 'a script) \<Rightarrow> fault \<Rightarrow> nat \<Rightarrow> db \<Rightarrow> 'a script \<times> db" where
  "turn s g f n d =
     (case f of
        Refused e \<Rightarrow> (Done (Inl (Sqlx e)), d)
      | Lost_Ack e \<Rightarrow> (Done (Inl (Sqlx e)), case s n d of Inl _ \<Rightarrow> d | Inr d' \<Rightarrow> d')
      | Fine \<Rightarrow> (case s n d of Inl e \<Rightarrow> (Done (Inl (Sqlx e)), d) | Inr d' \<Rightarrow> (g n d, d')))"

definition work :: "worker \<Rightarrow> db \<Rightarrow> fault \<Rightarrow> (worker \<times> db) option" where
  "work k d f =
     (case wk_script k of
        Trip s g \<Rightarrow>
          (let (T, d') = turn s g f (wk_tick k) d
           in Some (go_on d' (wk_todo k) (k\<lparr>wk_script := T, wk_tick := Suc (wk_tick k)\<rparr>), d'))
      | _ \<Rightarrow> None)"

section \<open>The crew\<close>

text \<open>
  The scripts of a batch's jobs. Every job has one (\<open>plans_exist\<close>).
\<close>

definition plans ::
  "env \<Rightarrow> pg \<Rightarrow> batch_args \<Rightarrow> claimed_author list \<Rightarrow> relay_error + event list \<Rightarrow> metrics
   \<Rightarrow> (claimed_author \<Rightarrow> nat script) \<Rightarrow> bool" where
  "plans E P B batch u m plan \<longleftrightarrow>
     (\<forall>c. scripts (\<lambda>P'. author_job E P' B batch u m c) P (plan c) \<and> late {ca_id c} (plan c))"

lemma plans_exist: "\<exists>plan. plans E P B batch u m plan"
proof -
  have "\<forall>c. \<exists>T. scripts (\<lambda>P'. author_job E P' B batch u m c) P T \<and> late {ca_id c} T"
    using late_author_job unfolding scripted_def by blast
  then show ?thesis unfolding plans_def by metis
qed

record crew =
  cr_db :: db
  cr_workers :: "worker list"

definition held :: "crew \<Rightarrow> int set" where
  "held s = (\<Union>k \<in> set (cr_workers s). open_rows k)"

text \<open>
  The driver claims a batch and hires a worker for it, or the claim took effect and the driver
  never heard of it. Any worker makes a round trip with any fault, or is gone: it has returned,
  failed or panicked. The timers sweep at any time; the lease of a worker that is at work is
  assumed not to be older than the limit of the in-run reclaim.
\<close>

inductive crew_step :: "env \<Rightarrow> crew \<Rightarrow> crew \<Rightarrow> bool" for E where
  hires: "\<lbrakk>claim_stmt P limit n (cr_db s) = Inr (batch, d'); batch \<noteq> []; pg_orders_ok P;
      plans E P B batch u m plan\<rbrakk> \<Longrightarrow>
    crew_step E s (s\<lparr>cr_db := d', cr_workers := cr_workers s
      @ [hired E P B batch u plan \<lparr>wdb = d', wtick = Suc n, wmet = m\<rparr>]\<rparr>)"
| claims: "\<lbrakk>claim_stmt P limit n (cr_db s) = Inr (batch, d'); pg_orders_ok P\<rbrakk> \<Longrightarrow>
    crew_step E s (s\<lparr>cr_db := d'\<rparr>)"
| works: "\<lbrakk>cr_workers s = xs @ k # ys; work k (cr_db s) f = Some (k', d')\<rbrakk> \<Longrightarrow>
    crew_step E s (s\<lparr>cr_db := d', cr_workers := xs @ k' # ys\<rparr>)"
| rescans: "release_where (stale now ttl_secs) (cr_db s) = Inr (j, d') \<Longrightarrow>
    crew_step E s (s\<lparr>cr_db := d'\<rparr>)"
| reclaims: "\<lbrakk>release_where (expired_lease now age_secs) (cr_db s) = Inr (j, d');
      \<forall>i \<in> held s. \<forall>r. row_by_id (cr_db s) i = Some r \<longrightarrow> \<not> before (claimed_at r) (now - age_secs * 1000000)\<rbrakk> \<Longrightarrow>
    crew_step E s (s\<lparr>cr_db := d'\<rparr>)"
| leaves: "cr_workers s = xs @ k # ys \<Longrightarrow> crew_step E s (s\<lparr>cr_workers := xs @ ys\<rparr>)"

inductive crew_reach :: "env \<Rightarrow> db \<Rightarrow> crew \<Rightarrow> bool" for E d where
  begins: "crew_reach E d \<lparr>cr_db = d, cr_workers = []\<rparr>"
| goes: "crew_reach E d s \<Longrightarrow> crew_step E s s' \<Longrightarrow> crew_reach E d s'"

section \<open>Between two trips\<close>

lemma play_ahead: "ahead T (wtick w) (wmet w) = (T', m) \<Longrightarrow> play T P w = play T' P (w\<lparr>wmet := m\<rparr>)"
proof (induction T arbitrary: w)
  case (Local f g)
  show ?case using Local.IH [OF rangeI rangeI, where w = "w\<lparr>wmet := f (wtick w) (wmet w)\<rparr>"] Local.prems by simp
qed auto

lemma late_ahead: "ahead T n m = (T', m') \<Longrightarrow> late I T \<Longrightarrow> late I T'"
proof (induction T arbitrary: m)
  case (Local f g)
  then show ?case using Local.IH [OF rangeI rangeI] by simp
qed auto

lemma tripless_ahead: "ahead T n m = (T', m') \<Longrightarrow> tripless T \<Longrightarrow> \<exists>r. T' = Done r"
proof (induction T arbitrary: m)
  case (Local f g)
  then show ?case using Local.IH [OF rangeI rangeI] by simp
qed auto

lemma ahead_shape: "ahead T n m = (T', m') \<Longrightarrow> (\<exists>r. T' = Done r) \<or> (\<exists>s g. T' = Trip s g)"
proof (induction T arbitrary: m)
  case (Local f g)
  then show ?case using Local.IH [OF rangeI rangeI] by simp
qed auto

lemma play_turn:
  assumes "turn s g (pg_fault P (wtick w)) (wtick w) (pg_others P (wtick w) (wdb w)) = (T, d')"
  shows "play (Trip s g) P w = play T P (w\<lparr>wtick := Suc (wtick w), wdb := d'\<rparr>)"
  using assms by (auto simp: turn_def Let_def split: fault.splits sum.splits)

text \<open>A turn that does not end the script made its statement.\<close>

lemma turn_goes: "turn s g f n d = (T, d') \<Longrightarrow> (\<forall>r. T \<noteq> Done r) \<Longrightarrow> s n d = Inr d' \<and> T = g n d"
  by (auto simp: turn_def split: fault.splits sum.splits)

lemma turn_late:
  assumes "turn s g f n d = (T, d')" and "late I (Trip s g)"
  shows "late I T"
proof (cases "\<exists>r. T = Done r")
  case False
  then have "T = g n d" using turn_goes [OF assms(1)] by blast
  then show ?thesis using assms(2) tripless_late by auto
qed auto

lemma go_on_simps:
  "ahead (wk_script k) (wk_tick k) (wk_met k) = (Done (Inr j), m) \<Longrightarrow>
    go_on d (c # cs) k = go_on d cs (k\<lparr>wk_script := wk_plan k (hd cs), wk_applied := wk_applied k + j, wk_met := m,
      wk_settled := wk_settled k @ [(c, d)]\<rparr>)"
  "ahead (wk_script k) (wk_tick k) (wk_met k) = (Done (Inl e), m) \<Longrightarrow>
    go_on d (c # cs) k = k\<lparr>wk_todo := c # cs, wk_script := Done (Inl e), wk_met := m\<rparr>"
  "ahead (wk_script k) (wk_tick k) (wk_met k) = (Trip s g, m) \<Longrightarrow>
    go_on d (c # cs) k = k\<lparr>wk_todo := c # cs, wk_script := Trip s g, wk_met := m\<rparr>"
  by (simp_all add: go_on.simps(2))

declare go_on.simps(2) [simp del]

lemma go_on_cases:
  obtains j m where "ahead (wk_script k) (wk_tick k) (wk_met k) = (Done (Inr j), m)"
  | e m where "ahead (wk_script k) (wk_tick k) (wk_met k) = (Done (Inl e), m)"
  | s g m where "ahead (wk_script k) (wk_tick k) (wk_met k) = (Trip s g, m)"
proof -
  obtain T m where a: "ahead (wk_script k) (wk_tick k) (wk_met k) = (T, m)" by fastforce
  from ahead_shape [OF a] show thesis using a that by (metis sum.exhaust)
qed

lemma go_on_keeps:
  "wk_batch (go_on d cs k) = wk_batch k \<and> wk_args (go_on d cs k) = wk_args k \<and> wk_union (go_on d cs k) = wk_union k
    \<and> wk_pg (go_on d cs k) = wk_pg k \<and> wk_start (go_on d cs k) = wk_start k \<and> wk_plan (go_on d cs k) = wk_plan k
    \<and> set (wk_todo (go_on d cs k)) \<subseteq> set cs"
proof (induction cs arbitrary: k)
  case (Cons c cs)
  show ?case
  proof (cases k rule: go_on_cases)
    case (1 j m)
    show ?thesis unfolding go_on_simps(1) [OF 1]
      using Cons.IH [of "k\<lparr>wk_script := wk_plan k (hd cs), wk_applied := wk_applied k + j, wk_met := m,
        wk_settled := wk_settled k @ [(c, d)]\<rparr>"] by auto
  qed (simp_all add: go_on_simps)
qed simp

lemma open_go_on: "open_rows (go_on d cs k) \<subseteq> ca_id ` set cs"
  using go_on_keeps [of d cs k] by (auto simp: open_rows_def split: script.splits)

section \<open>One worker's run\<close>

text \<open>
  The turns of the others, as a worker met them during its current job, make a server on which
  the job has run to where it is now. \<open>resumes\<close> says so of every server that agrees with it on
  the round trips made.
\<close>

definition resumes :: "env \<Rightarrow> worker \<Rightarrow> claimed_author \<Rightarrow> world \<Rightarrow> (nat \<Rightarrow> db \<Rightarrow> db) \<Rightarrow> (nat \<Rightarrow> fault) \<Rightarrow> db \<Rightarrow> bool" where
  "resumes E k c w others faults e \<longleftrightarrow> (\<forall>others' faults'.
     (\<forall>j < wk_tick k. others' j = others j \<and> faults' j = faults j) \<longrightarrow>
     job_of E k (facing (wk_pg k) others' faults') c w
       = play (wk_script k) (facing (wk_pg k) others' faults') \<lparr>wdb = e, wtick = wk_tick k, wmet = wk_met k\<rparr>)"

lemma resumesD:
  assumes "resumes E k c w others faults e"
    and "\<And>j. j < wk_tick k \<Longrightarrow> others' j = others j \<and> faults' j = faults j"
  shows "job_of E k (facing (wk_pg k) others' faults') c w
    = play (wk_script k) (facing (wk_pg k) others' faults') \<lparr>wdb = e, wtick = wk_tick k, wmet = wk_met k\<rparr>"
  using assms unfolding resumes_def by blast

definition behaved :: "int set \<Rightarrow> (nat \<Rightarrow> db \<Rightarrow> db) \<Rightarrow> bool" where
  "behaved I others \<longleftrightarrow> (\<forall>n d. db_ok d \<longrightarrow> others n d = d \<or> peer I d (others n d))"

lemma behaved_spares: "behaved I others \<Longrightarrow> spares I (facing P others faults)"
  unfolding behaved_def spares_def facing_simps using peer_refl by metis

lemma behaved_good: "behaved I others \<Longrightarrow> good d0 d \<Longrightarrow> good d0 (others n d)"
  unfolding behaved_def by (metis extends_trans good_def peerD(1,2))

text \<open>The job counts as started on the tables of the claim: the row is still as it was then.\<close>

definition running :: "env \<Rightarrow> worker \<Rightarrow> claimed_author \<Rightarrow> db \<Rightarrow> bool" where
  "running E k c d \<longleftrightarrow> late {ca_id c} (wk_script k) \<and> (\<exists>n m others faults e. n \<le> wk_tick k \<and> behaved {ca_id c} others
     \<and> resumes E k c \<lparr>wdb = wdb (wk_start k), wtick = n, wmet = m\<rparr> others faults e
     \<and> good (wdb (wk_start k)) e \<and> peer {ca_id c} e d)"

definition placed :: "env \<Rightarrow> worker \<Rightarrow> bool" where
  "placed E k \<longleftrightarrow> db_ok (wdb (wk_start k)) \<and> (\<forall>c \<in> set (wk_batch k). claims_row (wdb (wk_start k)) c)
     \<and> holds_lease (ca_id ` set (wk_batch k)) (wdb (wk_start k)) \<and> distinct (map ca_id (wk_batch k))
     \<and> pg_orders_ok (wk_pg k)
     \<and> plans E (wk_pg k) (wk_args k) (wk_batch k) (wk_union k) (wmet (wk_start k)) (wk_plan k)"

definition delivered :: "env \<Rightarrow> worker \<Rightarrow> bool" where
  "delivered E k \<longleftrightarrow> (\<forall>(c, d) \<in> set (wk_settled k). done_by E k c (wdb (wk_start k)) d)"

definition on_course :: "env \<Rightarrow> db \<Rightarrow> worker \<Rightarrow> bool" where
  "on_course E d k \<longleftrightarrow> placed E k \<and> delivered E k \<and> map fst (wk_settled k) @ wk_todo k = wk_batch k
     \<and> (\<forall>n. wk_script k = Done (Inr n) \<longrightarrow> wk_todo k = [])
     \<and> (\<forall>s g. wk_script k = Trip s g \<longrightarrow> (\<exists>c cs. wk_todo k = c # cs \<and> running E k c d)
           \<and> peer (ca_id ` set (wk_todo k)) (wdb (wk_start k)) d)"

lemma resumes_ahead:
  assumes "resumes E k c w others faults e" and "ahead (wk_script k) (wk_tick k) (wk_met k) = (T, m)"
  shows "resumes E (k\<lparr>wk_script := T, wk_met := m\<rparr>) c w others faults e"
  using assms(1) play_ahead [of "wk_script k" "\<lparr>wdb = e, wtick = wk_tick k, wmet = wk_met k\<rparr>"] assms(2)
  by (simp add: resumes_def)

lemma running_ahead:
  assumes "running E k c d" and "ahead (wk_script k) (wk_tick k) (wk_met k) = (T, m)"
  shows "running E (k\<lparr>wk_script := T, wk_met := m\<rparr>) c d"
  using assms(1) resumes_ahead [OF _ assms(2)] late_ahead [OF assms(2)] unfolding running_def by fastforce

text \<open>A job that has returned has done its author's part.\<close>

lemma running_returns:
  assumes E: "keys_ok E" "orders_ok E" and p: "placed E k" "c \<in> set (wk_batch k)"
    and r: "running E k c d" and s: "wk_script k = Done (Inr j)"
  shows "done_by E k c (wdb (wk_start k)) d"
proof -
  obtain n m others faults e where b: "behaved {ca_id c} others" and pe: "peer {ca_id c} e d"
    and r: "resumes E k c \<lparr>wdb = wdb (wk_start k), wtick = n, wmet = m\<rparr> others faults e"
    using r by (auto simp: running_def)
  let ?P = "facing (wk_pg k) others faults" and ?d = "wdb (wk_start k)"
  have ok: "db_ok ?d" "claims_row ?d c" "pg_orders_ok ?P" using p by (simp_all add: placed_def)
  have run: "job_of E k ?P c \<lparr>wdb = ?d, wtick = n, wmet = m\<rparr> = (Inr j, \<lparr>wdb = e, wtick = wk_tick k, wmet = wk_met k\<rparr>)"
    using resumesD [OF r, of others faults] s by simp
  have "done_by E k c ?d e" using job_returns [OF behaved_spares [OF b] ok(3) E _ _ run] ok(1,2) by simp
  then show ?thesis by (rule job_done_later [OF _ ok(1) pe])
qed

lemma running_starts:
  assumes p: "placed E k" and d: "peer {ca_id c} (wdb (wk_start k)) d" and s: "wk_script k = wk_plan k c"
  shows "running E k c d"
  unfolding running_def
proof (intro conjI exI)
  have pl: "plans E (wk_pg k) (wk_args k) (wk_batch k) (wk_union k) (wmet (wk_start k)) (wk_plan k)"
    and ok: "db_ok (wdb (wk_start k))" using p by (simp_all add: placed_def)
  show "late {ca_id c} (wk_script k)" using pl s by (simp add: plans_def)
  show "wk_tick k \<le> wk_tick k" by simp
  show "behaved {ca_id c} (\<lambda>_ d. d)" by (simp add: behaved_def)
  show "resumes E k c \<lparr>wdb = wdb (wk_start k), wtick = wk_tick k, wmet = wk_met k\<rparr> (\<lambda>_ d. d) (\<lambda>_. Fine) (wdb (wk_start k))"
    using pl s by (simp add: resumes_def plans_def scripts_def)
  show "good (wdb (wk_start k)) (wdb (wk_start k))" by (rule good_refl [OF ok])
qed (rule d)

text \<open>
  The loop stays on course when it goes on: the row of the current author may have changed only
  if its job is over.
\<close>

lemma go_on_rests:
  assumes "placed E k" and "delivered E k" and "map fst (wk_settled k) @ c # cs = wk_batch k" and r: "running E k c d"
    and "\<And>s g m. ahead (wk_script k) (wk_tick k) (wk_met k) = (Trip s g, m) \<Longrightarrow> peer (ca_id ` set (c # cs)) (wdb (wk_start k)) d"
    and over: "\<And>j m. ahead (wk_script k) (wk_tick k) (wk_met k) \<noteq> (Done (Inr j), m)"
  shows "on_course E d (go_on d (c # cs) k)"
proof (cases k rule: go_on_cases)
  case (1 j m)
  then show ?thesis using over by simp
next
  case (2 e m)
  then show ?thesis using assms(1-3) by (simp add: go_on_simps(2) [OF 2] on_course_def placed_def delivered_def)
next
  case (3 s g m)
  let ?k = "k\<lparr>wk_todo := c # cs, wk_script := Trip s g, wk_met := m\<rparr>"
  have "running E ?k c d" using running_ahead [OF r 3] by (simp add: running_def resumes_def)
  then show ?thesis unfolding go_on_simps(3) [OF 3] using assms(1-3) assms(5) [OF 3]
    by (simp add: on_course_def placed_def delivered_def)
qed

lemma go_on_delivers:
  assumes E: "keys_ok E" "orders_ok E" and p: "placed E k" "delivered E k" and "c \<in> set (wk_batch k)"
    and r: "running E k c d" and a: "ahead (wk_script k) (wk_tick k) (wk_met k) = (Done (Inr j), m)"
  shows "delivered E (k\<lparr>wk_script := T, wk_applied := i, wk_met := m, wk_settled := wk_settled k @ [(c, d)]\<rparr>)"
proof -
  have "placed E (k\<lparr>wk_script := Done (Inr j), wk_met := m\<rparr>)" using p(1) by (simp add: placed_def)
  from running_returns [OF E this _ running_ahead [OF r a]] assms(5)
  show ?thesis using p(2) by (simp add: delivered_def)
qed

lemma go_on_course:
  assumes E: "keys_ok E" "orders_ok E"
  shows "\<lbrakk>placed E k; delivered E k; map fst (wk_settled k) @ c # cs = wk_batch k; running E k c d;
      peer (ca_id ` set cs) (wdb (wk_start k)) d;
      \<And>s g m. ahead (wk_script k) (wk_tick k) (wk_met k) = (Trip s g, m) \<Longrightarrow> peer (ca_id ` set (c # cs)) (wdb (wk_start k)) d\<rbrakk>
    \<Longrightarrow> on_course E d (go_on d (c # cs) k)"
proof (induction cs arbitrary: c k)
  case (Nil c k)
  have c: "c \<in> set (wk_batch k)" unfolding Nil.prems(3) [symmetric] by simp
  show ?case
  proof (cases "\<exists>j m. ahead (wk_script k) (wk_tick k) (wk_met k) = (Done (Inr j), m)")
    case True
    then obtain j m where a: "ahead (wk_script k) (wk_tick k) (wk_met k) = (Done (Inr j), m)" by blast
    from go_on_delivers [OF E Nil.prems(1,2) c Nil.prems(4) a] show ?thesis
      unfolding go_on_simps(1) [OF a] using Nil.prems(1,3) by (simp add: on_course_def placed_def delivered_def)
  next
    case False
    show ?thesis by (rule go_on_rests [OF Nil.prems(1-4) Nil.prems(6)]) (use False in auto)
  qed
next
  case (Cons c' cs c k)
  have c: "c \<in> set (wk_batch k)" unfolding Cons.prems(3) [symmetric] by simp
  show ?case
  proof (cases "\<exists>j m. ahead (wk_script k) (wk_tick k) (wk_met k) = (Done (Inr j), m)")
    case True
    then obtain j m where a: "ahead (wk_script k) (wk_tick k) (wk_met k) = (Done (Inr j), m)" by blast
    let ?k = "k\<lparr>wk_script := wk_plan k c', wk_applied := wk_applied k + j, wk_met := m,
      wk_settled := wk_settled k @ [(c, d)]\<rparr>"
    note dl = go_on_delivers [OF E Cons.prems(1,2) c Cons.prems(4) a]
    have pl: "placed E ?k" using Cons.prems(1) by (simp add: placed_def)
    have p: "peer (ca_id ` set (c' # cs)) (wdb (wk_start ?k)) d" using Cons.prems(5) by simp
    have "on_course E d (go_on d (c' # cs) ?k)"
    proof (rule Cons.IH [OF pl dl])
      show "running E ?k c' d" by (rule running_starts [OF pl peer_mono [OF p]]) simp_all
      show "peer (ca_id ` set cs) (wdb (wk_start ?k)) d" by (rule peer_mono [OF p]) auto
    qed (use p Cons.prems(3) in simp_all)
    then show ?thesis unfolding go_on_simps(1) [OF a] by simp
  next
    case False
    show ?thesis by (rule go_on_rests [OF Cons.prems(1-4) Cons.prems(6)]) (use False in auto)
  qed
qed

lemma peer_un: "peer I d d' \<Longrightarrow> peer J d d' \<Longrightarrow> peer (I \<union> J) d d'"
  by (auto simp: peer_def)

lemma open_trip: "wk_script k = Trip s g \<Longrightarrow> open_rows k = ca_id ` set (wk_todo k)"
  by (simp add: open_rows_def)

lemma open_rows_trip: "i \<in> open_rows k \<Longrightarrow> \<exists>s g. wk_script k = Trip s g \<and> i \<in> ca_id ` set (wk_todo k)"
  by (auto simp: open_rows_def split: script.splits)

lemma running_peer: "running E k c d \<Longrightarrow> peer {ca_id c} d d' \<Longrightarrow> running E k c d'"
  unfolding running_def using peer_trans by blast

lemma on_course_peer:
  assumes "on_course E d k" and p: "peer (open_rows k) d d'"
  shows "on_course E d' k"
proof -
  have "(\<exists>c cs. wk_todo k = c # cs \<and> running E k c d') \<and> peer (ca_id ` set (wk_todo k)) (wdb (wk_start k)) d'"
    if t: "wk_script k = Trip s g" for s g
  proof -
    obtain c cs where c: "wk_todo k = c # cs" "running E k c d" "peer (ca_id ` set (wk_todo k)) (wdb (wk_start k)) d"
      using assms(1) t unfolding on_course_def by blast
    note p = p [unfolded open_trip [OF t]]
    have "peer {ca_id c} d d'" by (rule peer_mono [OF p]) (simp add: c(1))
    then show ?thesis using c(1) running_peer [OF c(2)] peer_trans [OF c(3) p] by blast
  qed
  then show ?thesis using assms(1) unfolding on_course_def by blast
qed

lemma on_course_open: "on_course E d k \<Longrightarrow> open_rows k \<noteq> {} \<Longrightarrow> peer (open_rows k) (wdb (wk_start k)) d"
  using open_rows_trip open_trip unfolding on_course_def by (metis all_not_in_conv)

lemma on_course_leases:
  assumes "on_course E d k"
  shows "holds_lease (open_rows k) d"
proof (cases "open_rows k = {}")
  case False
  have "open_rows k \<subseteq> ca_id ` set (wk_batch k)"
    using assms open_rows_trip [of _ k] unfolding on_course_def by (metis Un_iff image_mono set_append subset_iff subsetI)
  then have "holds_lease (open_rows k) (wdb (wk_start k))"
    using assms by (auto simp: on_course_def placed_def holds_lease_def)
  then show ?thesis by (rule holds_lease_peer [OF _ on_course_open [OF assms False]])
qed (simp add: holds_lease_def)

lemma on_course_hired:
  assumes E: "keys_ok E" "orders_ok E" and "db_ok d" "\<forall>c \<in> set batch. claims_row d c" "holds_lease (ca_id ` set batch) d"
    "distinct (map ca_id batch)" "pg_orders_ok P" "plans E P B batch u m plan" "batch \<noteq> []"
  shows "on_course E d (hired E P B batch u plan \<lparr>wdb = d, wtick = n, wmet = m\<rparr>)"
proof -
  obtain c cs where b: "batch = c # cs" using assms(9) by (cases batch) auto
  let ?k = "\<lparr>wk_batch = batch, wk_args = B, wk_union = u, wk_pg = P, wk_start = \<lparr>wdb = d, wtick = n, wmet = m\<rparr>,
    wk_plan = plan, wk_todo = batch, wk_script = plan (hd batch), wk_applied = 0, wk_tick = n,
    wk_met = snd (gate E B batch u m), wk_settled = []\<rparr>"
  have p: "placed E ?k" using assms(3-8) by (simp add: placed_def)
  have "on_course E d (go_on d (c # cs) ?k)"
    by (rule go_on_course [OF E p]) (use b peer_refl [OF assms(3)] running_starts [OF p] in \<open>simp_all add: delivered_def\<close>)
  then show ?thesis by (simp add: hired_def b)
qed

section \<open>A worker's turn\<close>

text \<open>
  The others left the tables as \<open>d\<close> before round trip \<open>n\<close>: \<open>met\<close> is the server on which that is
  what a well-behaved world does then, and \<open>forced\<close> one on which it is so by force, and on which
  nothing happens later.
\<close>

definition met :: "int set \<Rightarrow> (nat \<Rightarrow> db \<Rightarrow> db) \<Rightarrow> nat \<Rightarrow> db \<Rightarrow> nat \<Rightarrow> db \<Rightarrow> db" where
  "met I others n d = others(n := \<lambda>x. if peer I x d then d else x)"

definition forced :: "(nat \<Rightarrow> db \<Rightarrow> db) \<Rightarrow> nat \<Rightarrow> db \<Rightarrow> nat \<Rightarrow> db \<Rightarrow> db" where
  "forced others n d = (\<lambda>j x. if j < n then others j x else if j = n then d else x)"

definition ending :: "(nat \<Rightarrow> fault) \<Rightarrow> nat \<Rightarrow> fault \<Rightarrow> nat \<Rightarrow> fault" where
  "ending faults n f = (\<lambda>j. if j < n then faults j else if j = n then f else Refused Sqlx_Io)"

lemma behaved_met: "behaved I others \<Longrightarrow> behaved I (met I others n d)"
  by (simp add: behaved_def met_def)

lemma trips_last:
  assumes "trips P G n d (Suc m) x" and "n \<le> m"
  obtains e where "trips P G n d m e" "G (pg_others P m e) x"
  using assms(1) by (cases rule: trips.cases) (use assms(2) in auto)

lemma resumes_trip:
  assumes "resumes E k c w others faults e" and "wk_script k = Trip s g"
    and "turn s g f (wk_tick k) d = (T, d')" and "peer I e d"
  shows "resumes E (k\<lparr>wk_script := T, wk_tick := Suc (wk_tick k)\<rparr>) c w (met I others (wk_tick k) d) (faults(wk_tick k := f)) d'"
proof -
  have "job_of E k (facing (wk_pg k) o' f') c w
      = play T (facing (wk_pg k) o' f') \<lparr>wdb = d', wtick = Suc (wk_tick k), wmet = wk_met k\<rparr>"
    if a: "\<forall>j < Suc (wk_tick k). o' j = met I others (wk_tick k) d j \<and> f' j = (faults(wk_tick k := f)) j" for o' f'
  proof -
    let ?P = "facing (wk_pg k) o' f'" and ?w = "\<lparr>wdb = e, wtick = wk_tick k, wmet = wk_met k\<rparr>"
    have "\<forall>j < wk_tick k. o' j = others j \<and> f' j = faults j" using a by (auto simp: met_def)
    then have run: "job_of E k ?P c w = play (Trip s g) ?P ?w" using resumesD [OF assms(1), of o' f'] assms(2) by simp
    have "f' (wk_tick k) = f" "o' (wk_tick k) e = d" using a assms(4) by (simp_all add: met_def)
    then have "turn s g (pg_fault ?P (wtick ?w)) (wtick ?w) (pg_others ?P (wtick ?w) (wdb ?w)) = (T, d')"
      using assms(3) by simp
    from run play_turn [OF this] show ?thesis by simp
  qed
  then show ?thesis unfolding resumes_def by simp
qed

text \<open>Each round trip of a job settles its author's row and nothing else.\<close>

lemma trip_settles:
  assumes E: "keys_ok E" "orders_ok E" and p: "placed E k" "c \<in> set (wk_batch k)" and r: "running E k c d"
    and s: "wk_script k = Trip s g" "turn s g f (wk_tick k) d = (T, d')"
  shows "settled {ca_id c} d d'"
proof -
  let ?n = "wk_tick k" and ?G = "settled {ca_id c}" and ?d = "wdb (wk_start k)"
  obtain n m others faults e where n: "n \<le> ?n" and b: "behaved {ca_id c} others" and g: "good ?d e" and pe: "peer {ca_id c} e d"
    and r: "resumes E k c \<lparr>wdb = ?d, wtick = n, wmet = m\<rparr> others faults e" using r by (auto simp: running_def)
  let ?o = "forced others ?n d" and ?f = "ending faults ?n f"
  let ?P = "facing (wk_pg k) ?o ?f" and ?start = "\<lparr>wdb = ?d, wtick = n, wmet = m\<rparr>"
  let ?w = "\<lparr>wdb = e, wtick = ?n, wmet = wk_met k\<rparr>" and ?v = "\<lparr>wdb = d', wtick = Suc ?n, wmet = wk_met k\<rparr>"
  have ok: "db_ok ?d" "claims_row ?d c" using p by (simp_all add: placed_def)
  have gd: "good ?d d" using g peerD(1,2) [OF pe] extends_trans by (auto simp: good_def)
  then have o: "good (wdb ?start) (pg_others ?P m x)" if "good (wdb ?start) x" for m x
    using that behaved_good [OF b, of ?d x] by (simp add: forced_def)
  have "job_of E k ?P c ?start = play (Trip s g) ?P ?w"
    unfolding s(1) [symmetric] by (rule resumesD [OF r]) (simp add: forced_def ending_def)
  also have "\<dots> = play T ?P ?v"
    using play_turn [of s g ?P ?w T d'] s(2) by (simp add: forced_def ending_def)
  finally have run: "job_of E k ?P c ?start = play T ?P ?v" .
  have "\<forall>j \<ge> wtick ?v. ?o j = (\<lambda>d. d) \<and> (\<exists>e. ?f j = Refused e)" by (auto simp: forced_def ending_def fun_eq_iff)
  from play_refused [OF this, of T "wk_pg k"] obtain res w' where w': "play T ?P ?v = (res, w')" "wdb w' = d'"
    "wtick w' = Suc ?n \<or> wtick w' = Suc (Suc ?n)" by auto
  have t: "trips ?P ?G n ?d (wtick w') d'"
    using job_trips [OF o E _ _ run [unfolded w'(1)]] ok w'(2) by simp
  have last: "?G d x" if "trips ?P ?G n ?d (Suc ?n) x" for x
    by (rule trips_last [OF that n]) (simp add: forced_def)
  have i: "{ca_id c} \<subseteq> ids d"
    using ok(2) ids_extends gd by (auto simp: claims_row_def good_def dest: row_by_id_ids)
  show ?thesis
  proof (cases "wtick w' = Suc ?n")
    case True
    then show ?thesis using last t by simp
  next
    case False
    then have t2: "trips ?P ?G n ?d (Suc (Suc ?n)) d'" using t w'(3) by simp
    obtain x where x: "trips ?P ?G n ?d (Suc ?n) x" "?G (pg_others ?P (Suc ?n) x) d'"
      by (rule trips_last [OF t2]) (use n in simp_all)
    show ?thesis using settled_trans [OF last [OF x(1)] _ i] x(2) by (simp add: forced_def)
  qed
qed

lemma running_trip:
  assumes E: "keys_ok E" "orders_ok E" and p: "placed E k" "c \<in> set (wk_batch k)" and r: "running E k c d"
    and s: "wk_script k = Trip s g" "turn s g f (wk_tick k) d = (T, d')"
  shows "running E (k\<lparr>wk_script := T, wk_tick := Suc (wk_tick k)\<rparr>) c d'"
proof -
  let ?d = "wdb (wk_start k)"
  obtain n m others faults e where n: "n \<le> wk_tick k" and b: "behaved {ca_id c} others" and g: "good ?d e" and pe: "peer {ca_id c} e d"
    and r': "resumes E k c \<lparr>wdb = ?d, wtick = n, wmet = m\<rparr> others faults e" and l: "late {ca_id c} (Trip s g)"
    using r s(1) by (auto simp: running_def)
  have t: "settled {ca_id c} d d'" by (rule trip_settles [OF E p r s])
  have "good ?d d'"
    using g peerD(1,2) [OF pe] settledD(1,2) [OF t] extends_trans unfolding good_def by blast
  moreover have "n \<le> Suc (wk_tick k)" using n by simp
  ultimately show ?thesis
    unfolding running_def
    using turn_late [OF s(2) l] behaved_met [OF b] resumes_trip [OF r' s pe] peer_refl [OF settledD(1) [OF t], of "{ca_id c}"]
    by (auto intro!: exI)
qed

text \<open>A trip that is not the last one of its job leaves the row alone.\<close>

lemma trip_goes_on:
  assumes "turn s g f n d = (T, d')" and "late {i} (Trip s g)" and "ahead T n' m' = (Trip s' g', m)"
    and "db_ok d" and "i \<in> ids d"
  shows "peer {i} d d'"
proof -
  have "\<forall>r. T \<noteq> Done r" using assms(3) by auto
  from turn_goes [OF assms(1) this] have t: "s n d = Inr d'" "T = g n d" by simp_all
  have "\<not> (\<forall>n d. tripless (g n d))" using tripless_ahead [OF assms(3)] t(2) by blast
  then have "spares_rows {i} s" using assms(2) by auto
  then show ?thesis using t(1) assms(4,5) by (simp add: spares_rows_def)
qed

lemma work_keeps:
  assumes E: "keys_ok E" "orders_ok E" and c: "on_course E d k" and w: "work k d f = Some (k', d')"
  shows "settled (open_rows k) d d' \<and> on_course E d' k' \<and> open_rows k' \<subseteq> open_rows k"
proof -
  obtain s g where s: "wk_script k = Trip s g" using w by (auto simp: work_def split: script.splits)
  obtain T where t: "turn s g f (wk_tick k) d = (T, d')"
    and k': "k' = go_on d' (wk_todo k) (k\<lparr>wk_script := T, wk_tick := Suc (wk_tick k)\<rparr>)"
    using w s by (auto simp: work_def split: prod.splits)
  let ?k = "k\<lparr>wk_script := T, wk_tick := Suc (wk_tick k)\<rparr>" and ?d = "wdb (wk_start k)"
  obtain a cs where a: "wk_todo k = a # cs" and r: "running E k a d" and pd: "peer (ca_id ` set (a # cs)) ?d d"
    using c s unfolding on_course_def by metis
  have p: "placed E k" "delivered E k" "map fst (wk_settled k) @ a # cs = wk_batch k"
    using c a by (simp_all add: on_course_def)
  have mem: "a \<in> set (wk_batch k)" unfolding p(3) [symmetric] by simp
  have rows: "open_rows k = ca_id ` set (a # cs)" using open_trip [OF s] a by simp
  note set = trip_settles [OF E p(1) mem r s t]
  have ok: "db_ok d" "ca_id ` set (a # cs) \<subseteq> ids d"
    using peerD(1) [OF pd] holds_lease_ids [OF on_course_leases [OF c]] rows by simp_all
  have "distinct (map ca_id (map fst (wk_settled k) @ a # cs))" unfolding p(3) using p(1) by (simp add: placed_def)
  then have "peer (ca_id ` set cs) d d'" by (intro settled_peer [OF set]) (use ok in auto)
  then have rest: "peer (ca_id ` set cs) ?d d'" using peer_trans peer_mono [OF pd, of "ca_id ` set cs"] by auto
  have "late {ca_id a} (Trip s g)" using r s by (simp add: running_def)
  then have own: "peer {ca_id a} ?d d'" if "ahead T (Suc (wk_tick k)) (wk_met k) = (Trip s' g', m)" for s' g' m
    using trip_goes_on [OF t _ that ok(1)] ok(2) peer_trans peer_mono [OF pd, of "{ca_id a}"] by auto
  have "on_course E d' (go_on d' (a # cs) ?k)"
  proof (rule go_on_course [OF E])
    show "running E ?k a d'" by (rule running_trip [OF E p(1) mem r s t])
    show "peer (ca_id ` set (a # cs)) (wdb (wk_start ?k)) d'"
      if "ahead (wk_script ?k) (wk_tick ?k) (wk_met ?k) = (Trip s g, m)" for s g m
      using peer_un [OF own rest] that by simp
  qed (use p rest in \<open>simp_all add: placed_def delivered_def\<close>)
  then have "on_course E d' k'" using k' a by simp
  moreover have "settled (open_rows k) d d'" by (rule settled_mono [OF set]) (simp add: rows)
  moreover have "open_rows k' \<subseteq> open_rows k" unfolding k' rows a by (rule open_go_on)
  ultimately show ?thesis by blast
qed

section \<open>All of them\<close>

definition crew_ok :: "env \<Rightarrow> db \<Rightarrow> crew \<Rightarrow> bool" where
  "crew_ok E d0 s \<longleftrightarrow> good d0 (cr_db s) \<and> (\<forall>k \<in> set (cr_workers s). on_course E (cr_db s) k)
     \<and> sorted_wrt disjnt (map open_rows (cr_workers s))"

lemma claim_places:
  assumes "claim_stmt P limit n d = Inr (batch, d')" and o: "pg_orders_ok P" and ok: "db_ok d"
  shows "db_ok d'" "\<forall>c \<in> set batch. claims_row d' c" "holds_lease (ca_id ` set batch) d'" "distinct (map ca_id batch)"
proof -
  let ?P = "facing P (\<lambda>_ d. d) (\<lambda>_. Fine)" and ?w = "\<lparr>wdb = d, wtick = n, wmet = \<lambda>_. 0\<rparr>"
  have "claim_stmt ?P limit n d = claim_stmt P limit n d" by (simp add: claim_stmt_def claimable_def facing_def)
  with assms(1) have r: "claim_batch ?P limit ?w = (Inr batch, ?w\<lparr>wdb := d', wtick := Suc n\<rparr>)"
    by (simp add: claim_batch_def exec_def)
  have "rely ?P" using ok by (simp add: rely_def extends_refl)
  from claim_spec [OF this _ _ r refl refl] o ok
  have "distinct (map ca_id batch) \<and> db_ok d' \<and> (\<forall>c \<in> set batch. \<exists>r. row_pubkey r = ca_pubkey c
      \<and> row_by_id d' (ca_id c) = Some (r\<lparr>row_status := In_Progress, claimed_at := Some (pg_now P n)\<rparr>))"
    by fastforce
  then show "db_ok d'" "\<forall>c \<in> set batch. claims_row d' c" "holds_lease (ca_id ` set batch) d'" "distinct (map ca_id batch)"
    by (auto simp: claims_row_def holds_lease_def)
qed

lemma crew_leases: "crew_ok E d0 s \<Longrightarrow> holds_lease (held s) (cr_db s)"
  using on_course_leases by (fastforce simp: crew_ok_def held_def holds_lease_def)

lemma open_hired: "open_rows (hired E P B batch u plan w) \<subseteq> ca_id ` set batch"
  unfolding hired_def by (rule open_go_on)

text \<open>What leaves the rows of all workers alone keeps the crew on course.\<close>

lemma crew_ok_peer:
  assumes ok: "crew_ok E d0 s" and p: "peer (held s) (cr_db s) d'"
  shows "crew_ok E d0 (s\<lparr>cr_db := d'\<rparr>)"
proof -
  have "on_course E d' k" if "k \<in> set (cr_workers s)" for k
    by (rule on_course_peer [OF _ peer_mono [OF p]]) (use ok that in \<open>auto simp: crew_ok_def held_def\<close>)
  moreover have "good d0 d'" using ok peerD(1,2) [OF p] extends_trans unfolding crew_ok_def good_def by blast
  ultimately show ?thesis using ok by (simp add: crew_ok_def)
qed

lemma crew_step_ok:
  assumes "crew_step E s s'" and E: "keys_ok E" "orders_ok E" and ok: "crew_ok E d0 s"
  shows "crew_ok E d0 s'"
  using assms(1)
proof cases
  case (hires P limit n batch d' B u m plan)
  have d: "db_ok (cr_db s)" using ok by (simp add: crew_ok_def good_def)
  note cl = claim_spares [OF d crew_leases [OF ok] hires(4,2)]
  let ?k = "hired E P B batch u plan \<lparr>wdb = d', wtick = Suc n, wmet = m\<rparr>"
  have "on_course E d' ?k"
    by (rule on_course_hired [OF E claim_places [OF hires(2,4) d] hires(4,5,3)])
  moreover have "\<forall>x \<in> set (cr_workers s). disjnt (open_rows x) (open_rows ?k)"
    using cl(2) open_hired [of E P B batch u plan "\<lparr>wdb = d', wtick = Suc n, wmet = m\<rparr>"]
    unfolding held_def disjnt_def by blast
  ultimately show ?thesis using crew_ok_peer [OF ok cl(1)]
    by (auto simp: crew_ok_def hires(1) sorted_wrt_append)
next
  case (claims P limit n batch d')
  have d: "db_ok (cr_db s)" using ok by (simp add: crew_ok_def good_def)
  show ?thesis unfolding claims(1)
    by (rule crew_ok_peer [OF ok claim_spares(1) [OF d crew_leases [OF ok] claims(3,2)]])
next
  case (works xs k ys f k' d')
  have c: "on_course E (cr_db s) k" using ok works(2) by (simp add: crew_ok_def)
  note w = work_keeps [OF E c works(3)]
  have dis: "disjnt (open_rows x) (open_rows k)" "disjnt (open_rows k) (open_rows x)" if "x \<in> set xs \<union> set ys" for x
    using ok works(2) that disjnt_sym by (auto simp: crew_ok_def sorted_wrt_append)
  have "on_course E d' x" if x: "x \<in> set xs \<union> set ys" for x
  proof -
    have x': "on_course E (cr_db s) x" using ok x works(2) by (auto simp: crew_ok_def)
    show ?thesis
      by (rule on_course_peer [OF x' settled_peer [OF conjunct1 [OF w] _ holds_lease_ids [OF on_course_leases [OF x']]]])
        (use dis(1) [OF x] in \<open>simp add: disjnt_def\<close>)
  qed
  moreover have "disjnt (open_rows x) (open_rows k')" "disjnt (open_rows k') (open_rows x)" if "x \<in> set xs \<union> set ys" for x
    using dis [OF that] w by (auto simp: disjnt_def)
  moreover have "good d0 d'"
    using ok w settledD(1,2) extends_trans unfolding crew_ok_def good_def by blast
  ultimately show ?thesis using ok w works(1,2) by (auto simp: crew_ok_def sorted_wrt_append)
next
  case (rescans now ttl_secs j d')
  have d: "db_ok (cr_db s)" using ok by (simp add: crew_ok_def good_def)
  show ?thesis unfolding rescans(1)
    by (rule crew_ok_peer [OF ok sweep_spares [OF d rescans(2)]])
      (use holds_lease_row [OF crew_leases [OF ok]] in \<open>auto simp: stale_def\<close>)
next
  case (reclaims now age_secs j d')
  have d: "db_ok (cr_db s)" using ok by (simp add: crew_ok_def good_def)
  show ?thesis unfolding reclaims(1)
    by (rule crew_ok_peer [OF ok sweep_spares [OF d reclaims(2)]]) (use reclaims(3) in \<open>auto simp: expired_lease_def\<close>)
next
  case (leaves xs k ys)
  then show ?thesis using ok by (auto simp: crew_ok_def sorted_wrt_append)
qed

lemma crew_reach_ok:
  assumes "crew_reach E d0 s" and "keys_ok E" and "orders_ok E" and "db_ok d0"
  shows "crew_ok E d0 s"
  using assms(1)
proof induction
  case begins
  show ?case using good_refl [OF assms(4)] by (simp add: crew_ok_def)
next
  case (goes s s')
  show ?case by (rule crew_step_ok [OF goes.hyps(2) assms(2,3) goes.IH])
qed

section \<open>A batch in one go\<close>

text \<open>
  When nobody else moves, the crew runs a batch as \<open>process_batch\<close> does: the step of \<open>Pool\<close> in
  which a worker does its whole batch is one of the crew's runs, for every choice of faults.
\<close>

lemma go_on_todo: "go_on d cs (k\<lparr>wk_todo := t\<rparr>) = go_on d cs k"
proof (induction cs arbitrary: k)
  case (Cons c cs)
  show ?case
  proof (cases k rule: go_on_cases)
    case (1 j m)
    let ?k = "k\<lparr>wk_script := wk_plan k (hd cs), wk_applied := wk_applied k + j, wk_met := m,
      wk_settled := wk_settled k @ [(c, d)]\<rparr>"
    let ?u = "k\<lparr>wk_todo := t, wk_script := wk_plan k (hd cs), wk_applied := wk_applied k + j, wk_met := m,
      wk_settled := wk_settled k @ [(c, d)]\<rparr>"
    have a: "go_on d (c # cs) (k\<lparr>wk_todo := t\<rparr>) = go_on d cs ?u" using 1 by (simp add: go_on_simps(1))
    have b: "?u = ?k\<lparr>wk_todo := t\<rparr>" by simp
    show ?thesis unfolding a b go_on_simps(1) [OF 1] by (rule Cons.IH)
  qed (simp_all add: go_on_simps)
qed simp

definition finishes :: "db \<Rightarrow> claimed_author \<Rightarrow> claimed_author list \<Rightarrow> worker \<Rightarrow> store_error + nat \<Rightarrow> world \<Rightarrow> worker" where
  "finishes d c cs k r w = (case r of
       Inl e \<Rightarrow> k\<lparr>wk_todo := c # cs, wk_script := Done (Inl e), wk_tick := wtick w, wk_met := wmet w\<rparr>
     | Inr j \<Rightarrow> go_on d cs (k\<lparr>wk_script := wk_plan k (hd cs), wk_applied := wk_applied k + j, wk_tick := wtick w,
         wk_met := wmet w, wk_settled := wk_settled k @ [(c, d)]\<rparr>))"

lemma go_on_done:
  assumes "wk_script k = Done r" and "w = \<lparr>wdb = d, wtick = wk_tick k, wmet = wk_met k\<rparr>"
  shows "go_on d (c # cs) k = finishes d c cs k r w"
proof (cases r)
  case (Inl e)
  have "ahead (wk_script k) (wk_tick k) (wk_met k) = (Done (Inl e), wk_met k)" using assms(1) Inl by simp
  from go_on_simps(2) [OF this] show ?thesis using assms(2) by (simp add: finishes_def Inl)
next
  case (Inr j)
  have "ahead (wk_script k) (wk_tick k) (wk_met k) = (Done (Inr j), wk_met k)" using assms(1) Inr by simp
  from go_on_simps(1) [OF this] show ?thesis using assms(2) by (simp add: finishes_def Inr)
qed

lemma go_on_local:
  assumes "wk_script k = Local f g"
  shows "go_on d (c # cs) k
    = go_on d (c # cs) (k\<lparr>wk_script := g (wk_tick k) (wk_met k), wk_met := f (wk_tick k) (wk_met k)\<rparr>)"
  using assms by (simp add: go_on.simps(2) split: prod.split script.split sum.split)

lemma finishes_cong:
  "finishes d c cs (k\<lparr>wk_script := T, wk_met := m\<rparr>) r w = finishes d c cs k r w"
  "finishes d c cs (k\<lparr>wk_todo := t, wk_script := T, wk_tick := n\<rparr>) r w = finishes d c cs k r w"
proof -
  show "finishes d c cs (k\<lparr>wk_script := T, wk_met := m\<rparr>) r w = finishes d c cs k r w"
    by (simp add: finishes_def split: sum.split)
  have "go_on d cs (k\<lparr>wk_todo := t, wk_script := T', wk_applied := a, wk_tick := n', wk_met := m', wk_settled := l\<rparr>)
    = go_on d cs (k\<lparr>wk_script := T', wk_applied := a, wk_tick := n', wk_met := m', wk_settled := l\<rparr>)" (is "_ = go_on d cs ?k")
    for T' a n' m' l
  proof -
    have "k\<lparr>wk_todo := t, wk_script := T', wk_applied := a, wk_tick := n', wk_met := m', wk_settled := l\<rparr> = ?k\<lparr>wk_todo := t\<rparr>"
      by simp
    then show ?thesis by (simp only: go_on_todo)
  qed
  then show "finishes d c cs (k\<lparr>wk_todo := t, wk_script := T, wk_tick := n\<rparr>) r w = finishes d c cs k r w"
    by (simp add: finishes_def split: sum.split)
qed

lemma job_out:
  assumes "play (wk_script k) (facing P (\<lambda>_ d. d) faults) \<lparr>wdb = d, wtick = wk_tick k, wmet = wk_met k\<rparr> = (r, w')"
    and "cr_workers s = xs @ go_on d (c # cs) k # ys" and "cr_db s = d"
  shows "(crew_step E)\<^sup>*\<^sup>* s (s\<lparr>cr_db := wdb w', cr_workers := xs @ finishes (wdb w') c cs k r w' # ys\<rparr>)"
  using assms
proof (induction "wk_script k" arbitrary: k d s)
  case (Done r')
  have w: "r' = r" "w' = \<lparr>wdb = d, wtick = wk_tick k, wmet = wk_met k\<rparr>" using Done.prems(1) by (simp_all flip: Done.hyps)
  have "go_on d (c # cs) k = finishes d c cs k r w'" by (rule go_on_done [OF _ w(2)]) (simp add: w(1) flip: Done.hyps)
  then have "s\<lparr>cr_db := wdb w', cr_workers := xs @ finishes (wdb w') c cs k r w' # ys\<rparr> = s"
    using Done.prems(2,3) w(2) by (cases s) simp
  then show ?case by simp
next
  case (Local f g)
  let ?k = "k\<lparr>wk_script := g (wk_tick k) (wk_met k), wk_met := f (wk_tick k) (wk_met k)\<rparr>"
  have "(crew_step E)\<^sup>*\<^sup>* s (s\<lparr>cr_db := wdb w', cr_workers := xs @ finishes (wdb w') c cs ?k r w' # ys\<rparr>)"
    by (rule Local.hyps(1) [OF rangeI [of g "wk_tick k"]])
      (use Local.prems go_on_local [OF Local.hyps(2) [symmetric]] in \<open>simp_all flip: Local.hyps(2)\<close>)
  then show ?case by (simp add: finishes_cong)
next
  case (Trip t g)
  let ?n = "wk_tick k" and ?q = "k\<lparr>wk_todo := c # cs, wk_script := Trip t g\<rparr>"
  have q: "go_on d (c # cs) k = ?q" using go_on_simps(3) [of k t g "wk_met k" d c cs] by (simp flip: Trip.hyps(2))
  obtain T d' where t: "turn t g (faults ?n) ?n d = (T, d')" by (metis prod.collapse)
  let ?k = "k\<lparr>wk_todo := c # cs, wk_script := T, wk_tick := Suc ?n\<rparr>"
  let ?s = "s\<lparr>cr_db := d', cr_workers := xs @ go_on d' (c # cs) ?k # ys\<rparr>"
  have "work ?q d (faults ?n) = Some (go_on d' (c # cs) ?k, d')" using t by (simp add: work_def)
  from crew_step.works [OF Trip.prems(2) [unfolded q] this [folded Trip.prems(3)], of E]
  have st: "crew_step E s ?s" .
  have run: "play T (facing P (\<lambda>_ d. d) faults) \<lparr>wdb = d', wtick = Suc ?n, wmet = wk_met k\<rparr> = (r, w')"
    using Trip.prems(1) play_turn [of t g "facing P (\<lambda>_ d. d) faults" "\<lparr>wdb = d, wtick = ?n, wmet = wk_met k\<rparr>" T d'] t
    by (simp flip: Trip.hyps(2))
  have "(crew_step E)\<^sup>*\<^sup>* ?s (?s\<lparr>cr_db := wdb w', cr_workers := xs @ finishes (wdb w') c cs ?k r w' # ys\<rparr>)"
  proof (cases "\<exists>n x. T = g n x")
    case True
    then obtain n x where T: "T = g n x" by blast
    show ?thesis by (rule Trip.hyps(1) [OF rangeI [of g n]]) (use run T in simp_all)
  next
    case False
    then obtain e where e: "T = Done e" using t by (auto simp: turn_def split: fault.splits sum.splits)
    have "go_on d' (c # cs) ?k = finishes d' c cs ?k r w'" by (rule go_on_done) (use run e in simp_all)
    then have "?s\<lparr>cr_db := wdb w', cr_workers := xs @ finishes (wdb w') c cs ?k r w' # ys\<rparr> = ?s" using run e by auto
    then show ?thesis by simp
  qed
  then show ?case using st by (simp add: finishes_cong converse_rtranclp_into_rtranclp)
qed

lemma run_out:
  assumes "\<And>c. job c = play (wk_plan k c) (facing P (\<lambda>_ d. d) faults)"
    and "bind_io (play (wk_script k) (facing P (\<lambda>_ d. d) faults)) (\<lambda>j. run_jobs job cs (wk_applied k + j))
      \<lparr>wdb = d, wtick = wk_tick k, wmet = wk_met k\<rparr> = (r, w')"
    and "cr_workers s = xs @ go_on d (c # cs) k # ys" and "cr_db s = d"
  shows "\<exists>k'. (crew_step E)\<^sup>*\<^sup>* s (s\<lparr>cr_db := wdb w', cr_workers := xs @ k' # ys\<rparr>) \<and> wk_script k' = Done r
    \<and> wk_batch k' = wk_batch k \<and> wk_args k' = wk_args k \<and> wk_union k' = wk_union k \<and> wk_start k' = wk_start k"
  using assms
proof (induction cs arbitrary: c k d s)
  case (Nil c k d s)
  obtain r1 w1 where p: "play (wk_script k) (facing P (\<lambda>_ d. d) faults) \<lparr>wdb = d, wtick = wk_tick k, wmet = wk_met k\<rparr> = (r1, w1)"
    by fastforce
  then have "w' = w1 \<and> wk_script (finishes (wdb w1) c [] k r1 w1) = Done r"
    using Nil.prems(2) by (auto simp: bind_io_def finishes_def ret_def split: sum.splits)
  then show ?case using job_out [OF p Nil.prems(3,4), of E]
    by (intro exI [of _ "finishes (wdb w1) c [] k r1 w1"]) (simp add: finishes_def split: sum.split)
next
  case (Cons c' cs c k d s)
  obtain r1 w1 where p: "play (wk_script k) (facing P (\<lambda>_ d. d) faults) \<lparr>wdb = d, wtick = wk_tick k, wmet = wk_met k\<rparr> = (r1, w1)"
    by fastforce
  note out = job_out [OF p Cons.prems(3,4), of E]
  show ?case
  proof (cases r1)
    case (Inl e)
    then have "w' = w1 \<and> r = Inl e" using Cons.prems(2) p by (simp add: bind_io_def)
    then show ?thesis using out by (intro exI [of _ "finishes (wdb w1) c (c' # cs) k r1 w1"]) (simp add: finishes_def Inl)
  next
    case (Inr j)
    let ?k = "k\<lparr>wk_script := wk_plan k c', wk_applied := wk_applied k + j, wk_tick := wtick w1, wk_met := wmet w1,
      wk_settled := wk_settled k @ [(c, wdb w1)]\<rparr>"
    let ?s = "s\<lparr>cr_db := wdb w1, cr_workers := xs @ go_on (wdb w1) (c' # cs) ?k # ys\<rparr>"
    have fin: "finishes (wdb w1) c (c' # cs) k r1 w1 = go_on (wdb w1) (c' # cs) ?k" by (simp add: finishes_def Inr)
    have w1: "\<lparr>wdb = wdb w1, wtick = wtick w1, wmet = wmet w1\<rparr> = w1" by simp
    have "run_jobs job (c' # cs) (wk_applied k + j) w1 = (r, w')" using Cons.prems(2) p Inr by (simp add: bind_io_def)
    then have "bind_io (play (wk_script ?k) (facing P (\<lambda>_ d. d) faults)) (\<lambda>j. run_jobs job cs (wk_applied ?k + j))
      \<lparr>wdb = wdb w1, wtick = wk_tick ?k, wmet = wk_met ?k\<rparr> = (r, w')"
      using Cons.prems(1) by (simp add: w1)
    from Cons.IH [OF _ this, of ?s c'] Cons.prems(1) obtain k' where
      "(crew_step E)\<^sup>*\<^sup>* ?s (?s\<lparr>cr_db := wdb w', cr_workers := xs @ k' # ys\<rparr>)" "wk_script k' = Done r"
      "wk_batch k' = wk_batch k" "wk_args k' = wk_args k" "wk_union k' = wk_union k" "wk_start k' = wk_start k" by auto
    then show ?thesis using rtranclp_trans [OF out [unfolded fin]] by auto
  qed
qed

lemma atomic_batch:
  assumes run: "process_batch E (facing P (\<lambda>_ d. d) faults) B batch u \<lparr>wdb = d', wtick = Suc n, wmet = m\<rparr> = (r, w')"
    and cl: "claim_stmt P limit n (cr_db s) = Inr (batch, d')" and o: "pg_orders_ok P" and b: "batch \<noteq> []"
  shows "\<exists>k'. (crew_step E)\<^sup>*\<^sup>* s (s\<lparr>cr_db := wdb w', cr_workers := cr_workers s @ [k']\<rparr>) \<and> wk_script k' = Done r
    \<and> wk_batch k' = batch \<and> wk_args k' = B \<and> wk_union k' = u \<and> wk_start k' = \<lparr>wdb = d', wtick = Suc n, wmet = m\<rparr>"
proof -
  let ?Q = "facing P (\<lambda>_ d. d) faults" and ?w = "\<lparr>wdb = d', wtick = Suc n, wmet = m\<rparr>"
  obtain plan where plan: "plans E P B batch u m plan" using plans_exist by blast
  then have job: "author_job E ?Q B batch u m c = play (plan c) ?Q" for c by (simp add: plans_def scripts_def)
  obtain c cs where bc: "batch = c # cs" using b by (cases batch) auto
  let ?k = "\<lparr>wk_batch = batch, wk_args = B, wk_union = u, wk_pg = P, wk_start = ?w, wk_plan = plan, wk_todo = batch,
    wk_script = plan (hd batch), wk_applied = 0, wk_tick = Suc n, wk_met = snd (gate E B batch u m), wk_settled = []\<rparr>"
  have h: "hired E P B batch u plan ?w = go_on d' (c # cs) ?k" by (simp add: hired_def bc)
  let ?s = "s\<lparr>cr_db := d', cr_workers := cr_workers s @ [go_on d' (c # cs) ?k]\<rparr>"
  have st: "crew_step E s ?s" using crew_step.hires [OF cl b o plan] unfolding h .
  have "run_jobs (author_job E ?Q B batch u m) batch 0 (?w\<lparr>wmet := snd (gate E B batch u m)\<rparr>) = (r, w')"
    using run process_batch_jobs [OF b, of E ?Q B u ?w] by simp
  then have "bind_io (play (wk_script ?k) ?Q) (\<lambda>j. run_jobs (author_job E ?Q B batch u m) cs (wk_applied ?k + j))
    \<lparr>wdb = d', wtick = wk_tick ?k, wmet = wk_met ?k\<rparr> = (r, w')" by (simp add: bc job [unfolded bc])
  from run_out [OF _ this, of ?s "cr_workers s" c "[]" E] job obtain k' where
    "(crew_step E)\<^sup>*\<^sup>* ?s (?s\<lparr>cr_db := wdb w', cr_workers := cr_workers s @ [k']\<rparr>)" "wk_script k' = Done r"
    "wk_batch k' = batch" "wk_args k' = B" "wk_union k' = u" "wk_start k' = ?w" by auto
  then show ?thesis using converse_rtranclp_into_rtranclp [of "crew_step E", OF st] by auto
qed

lemma crew_reach_trans:
  assumes "crew_reach E d s" and "(crew_step E)\<^sup>*\<^sup>* s s'"
  shows "crew_reach E d s'"
  using assms(2,1) by induction (auto intro: crew_reach.goes)

section \<open>What every worker gets done\<close>

text \<open>
  C5. The workers do not get in each other's way. Let any number of batches be claimed at any
  time, let their round trips interleave in any way with each other's, with further claims and
  with the sweeps, any of them fail and any worker vanish; the only thing asked is that the
  in-run reclaim finds no lease of a running worker older than its limit. Then the tables stay
  well-formed and lose no row, and whenever a batch has settled an author, the tables right
  after that round trip had, compared with those of the claim, the outcome of the author's own
  newest list, or the charge for the failed fetch. A batch that has reported success has
  settled each of its authors once, in order.
\<close>

theorem interleaved_batches_apply:
  assumes "keys_ok E" and "orders_ok E" and "db_ok d" and "crew_reach E d s"
  shows "good d (cr_db s)
    \<and> (\<forall>k \<in> set (cr_workers s).
         (\<forall>(c, d1) \<in> set (wk_settled k). job_done E (wk_args k) (wk_batch k) (wk_union k) (wmet (wk_start k))
             c (wdb (wk_start k)) d1)
       \<and> (\<forall>n. wk_script k = Done (Inr n) \<longrightarrow> map fst (wk_settled k) = wk_batch k))"
  using crew_reach_ok [OF assms(4,1-3)] unfolding crew_ok_def on_course_def delivered_def by fastforce

theorem interleaved_batches_apply_witness:
  "\<exists>s k n d1 r'. crew_reach demo_env (wdb demo_batch_world) s \<and> k \<in> set (cr_workers s) \<and> wk_script k = Done (Inr n)
    \<and> wk_settled k = [(demo_claim, d1)] \<and> row_by_id d1 1 = Some r' \<and> row_status r' \<in> {Fetched, Not_Found}"
proof -
  let ?d = "wdb demo_batch_world"
  obtain d' where c: "claim_stmt demo_pg 5 0 ?d = Inr ([demo_claim], d')"
    by (simp add: claim_stmt_def claimable_def demo_batch_world_def demo_pg_def new_row_def Let_def
        claimed_author_of_def demo_claim_def)
  have o: "pg_orders_ok demo_pg" using quiet_demo by (simp add: quiet_def)
  note pl = claim_places [OF c o demo_batch_ok(1)]
  let ?w = "\<lparr>wdb = d', wtick = Suc 0, wmet = \<lambda>_. 0\<rparr>"
  have f: "facing demo_pg (\<lambda>_ d. d) (\<lambda>_. Fine) = demo_pg" by (simp add: facing_def demo_pg_def)
  obtain n w' where p: "process_batch demo_env demo_pg demo_args [demo_claim] (Inr [demo_new]) ?w = (Inr n, w')"
    using process_batch_shared [OF shared_quiet [OF quiet_demo] demo_keys_ok demo_orders_ok _ _ _ refl,
        of ?w "[demo_claim]" demo_args "[demo_new]"] pl unfolding delivers_def by auto
  obtain k where k: "(crew_step demo_env)\<^sup>*\<^sup>* \<lparr>cr_db = ?d, cr_workers = []\<rparr> \<lparr>cr_db = wdb w', cr_workers = [k]\<rparr>"
    "wk_script k = Done (Inr n)" "wk_batch k = [demo_claim]" "wk_args k = demo_args" "wk_union k = Inr [demo_new]"
    "wk_start k = ?w"
    using atomic_batch [of demo_env demo_pg "\<lambda>_. Fine" demo_args "[demo_claim]" "Inr [demo_new]" d' 0 "\<lambda>_. 0" "Inr n" w' 5
        "\<lparr>cr_db = ?d, cr_workers = []\<rparr>"] p f c o by auto
  have r: "crew_reach demo_env ?d \<lparr>cr_db = wdb w', cr_workers = [k]\<rparr>" by (rule crew_reach_trans [OF crew_reach.begins k(1)])
  note t = interleaved_batches_apply [OF demo_keys_ok demo_orders_ok demo_batch_ok(1) r]
  then have "map fst (wk_settled k) = [demo_claim]" using k(2,3) by simp
  then obtain d1 where d1: "wk_settled k = [(demo_claim, d1)]" by (cases "wk_settled k") auto
  have "ca_id demo_claim = 1" by (simp add: demo_claim_def)
  then have "\<exists>r'. row_by_id d1 1 = Some r' \<and> row_status r' \<in> {Fetched, Not_Found}"
    using t d1 k(5)
    by (fastforce simp: job_done_def author_outcome_def recovered_def list_applied_def missed_def split: option.splits)
  then show ?thesis using r k(2) d1 by fastforce
qed

text \<open>
  C10. Every key is with at most one batch at a time. Under the same interleavings, failures and
  sweeps, a row that a worker has still to settle is in progress, exactly as the claim left it,
  its edges too, until the trip that settles it; no two workers have such a row in common; and
  no claim of any server takes one of them. A row that a batch has requeued or settled, while
  it goes on with others, is not among them any more, and the next claim may take it.
\<close>

theorem leases_held_once:
  assumes "keys_ok E" and "orders_ok E" and "db_ok d" and "crew_reach E d s"
  shows "(\<forall>k \<in> set (cr_workers s). holds_lease (open_rows k) (cr_db s)
       \<and> (\<forall>i \<in> open_rows k. row_by_id (cr_db s) i = row_by_id (wdb (wk_start k)) i
            \<and> (\<forall>b. (i, b) \<in> set (follows (cr_db s)) \<longleftrightarrow> (i, b) \<in> set (follows (wdb (wk_start k))))))
    \<and> sorted_wrt disjnt (map open_rows (cr_workers s))
    \<and> (\<forall>P limit n cs d'. pg_orders_ok P \<and> claim_stmt P limit n (cr_db s) = Inr (cs, d') \<longrightarrow> held s \<inter> ca_id ` set cs = {})"
proof (intro conjI ballI allI impI)
  note ok = crew_reach_ok [OF assms(4,1-3)]
  have course: "on_course E (cr_db s) k" if "k \<in> set (cr_workers s)" for k using ok that by (simp add: crew_ok_def)
  fix k assume k: "k \<in> set (cr_workers s)"
  show "holds_lease (open_rows k) (cr_db s)" by (rule on_course_leases [OF course [OF k]])
  fix i assume i: "i \<in> open_rows k"
  have p: "peer (open_rows k) (wdb (wk_start k)) (cr_db s)" by (rule on_course_open [OF course [OF k]]) (use i in blast)
  show "row_by_id (cr_db s) i = row_by_id (wdb (wk_start k)) i" by (rule peerD(4) [OF p i])
  show "(i, b) \<in> set (follows (cr_db s)) \<longleftrightarrow> (i, b) \<in> set (follows (wdb (wk_start k)))" for b by (rule peerD(5) [OF p i])
next
  note ok = crew_reach_ok [OF assms(4,1-3)]
  show "sorted_wrt disjnt (map open_rows (cr_workers s))" using ok by (simp add: crew_ok_def)
  show "held s \<inter> ca_id ` set cs = {}" if "pg_orders_ok P \<and> claim_stmt P limit n (cr_db s) = Inr (cs, d')" for P limit n cs d'
    by (rule claim_spares(2) [OF _ crew_leases [OF ok] conjunct1 [OF that] conjunct2 [OF that]])
      (use ok in \<open>simp add: crew_ok_def good_def\<close>)
qed

text \<open>
  A batch of two whose fetch has failed: its first row is requeued and claimed again by the next
  batch, while its second is still open.
\<close>

definition demo_plan :: "claimed_author \<Rightarrow> nat script" where
  "demo_plan c = bind_script (stmt_script (attempt_stmt (ca_id c) 3 (timestamp_to_datetime demo_env 150))) (\<lambda>_. Done (Inr 0))"

lemma demo_plans: "plans demo_env demo_pg demo_args batch (Inl e) m demo_plan"
  unfolding plans_def
proof
  fix c
  have "author_job demo_env P demo_args batch (Inl e) m c = play (demo_plan c) P" for P
    by (simp add: fun_eq_iff demo_plan_def play_bind play_stmt author_job_def acquire_validated_lists_def demo_args_def
        requeue_or_fail_def bind_io_def ret_def split: sum.split prod.split)
  moreover have "late {ca_id c} (demo_plan c)" by (simp add: demo_plan_def stmt_script_def split: sum.split prod.split)
  ultimately show "scripts (\<lambda>P'. author_job demo_env P' demo_args batch (Inl e) m c) demo_pg (demo_plan c)
    \<and> late {ca_id c} (demo_plan c)" by (simp add: scripts_def)
qed

lemma demo_go_on:
  assumes "wk_script k = demo_plan a"
  shows "go_on d (c # cs) k = k\<lparr>wk_todo := c # cs, wk_script := demo_plan a, wk_met := wk_met k\<rparr>"
proof -
  obtain s g where t: "demo_plan a = Trip s g" by (simp add: demo_plan_def stmt_script_def)
  then have "ahead (wk_script k) (wk_tick k) (wk_met k) = (Trip s g, wk_met k)" using assms by simp
  from go_on_simps(3) [OF this] show ?thesis by (simp add: t)
qed

lemma demo_open: "wk_script k = demo_plan a \<Longrightarrow> open_rows k = ca_id ` set (wk_todo k)"
  by (rule open_trip) (simp add: demo_plan_def stmt_script_def)

lemma demo_turn:
  assumes "wk_script k = demo_plan a" and "row_by_id d (ca_id a) = Some r" and "fetch_attempts r = 0"
  shows "work k d Fine = (let d' = update_rows (\<lambda>r. row_id r = ca_id a) (attempt_row 3 (timestamp_to_datetime demo_env 150)) d
    in Some (go_on d' (wk_todo k) (k\<lparr>wk_script := Done (Inr 0), wk_tick := Suc (wk_tick k)\<rparr>), d'))"
  using assms by (simp add: work_def demo_plan_def stmt_script_def turn_def attempt_stmt_def Let_def)

theorem leases_held_once_witness:
  "\<exists>s k1 k2. crew_reach demo_env demo_db s \<and> cr_workers s = [k1, k2]
    \<and> map ca_id (wk_batch k1) = [1, 2] \<and> open_rows k1 = {2} \<and> map ca_id (wk_batch k2) = [1] \<and> open_rows k2 = {1}
    \<and> holds_lease {2} (cr_db s) \<and> disjnt (open_rows k1) (open_rows k2)"
proof -
  let ?c1 = "\<lparr>ca_id = 1, ca_pubkey = replicate 32 1\<rparr>" and ?c2 = "\<lparr>ca_id = 2, ca_pubkey = replicate 32 2\<rparr>"
  let ?u = "Inl (FetchTimeout []) :: relay_error + event list" and ?stamp = "timestamp_to_datetime demo_env 150"
  let ?d1 = "update_rows (\<lambda>r. row_id r \<in> {1, 2}) (lease_row 0) demo_db"
  let ?d2 = "update_rows (\<lambda>r. row_id r = 1) (attempt_row 3 ?stamp) ?d1"
  let ?d3 = "update_rows (\<lambda>r. row_id r \<in> {1}) (lease_row 0) ?d2"
  let ?k = "\<lambda>batch d. hired demo_env demo_pg demo_args batch ?u demo_plan \<lparr>wdb = d, wtick = Suc 0, wmet = \<lambda>_. 0\<rparr>"
  have o: "pg_orders_ok demo_pg" using quiet_demo by (simp add: quiet_def)
  have c1: "claim_stmt demo_pg 2 0 demo_db = Inr ([?c1, ?c2], ?d1)"
    by (simp add: claim_stmt_def claimable_def demo_db_def demo_pg_def new_row_def Let_def claimed_author_of_def insert_commute)
  have c2: "claim_stmt demo_pg 1 0 ?d2 = Inr ([?c1], ?d3)"
    by (simp add: claim_stmt_def claimable_def demo_db_def demo_pg_def new_row_def Let_def claimed_author_of_def
        update_rows_def lease_row_def attempt_row_def)
  have k: "wk_script (?k (c # cs) d) = demo_plan c" "wk_todo (?k (c # cs) d) = c # cs" "wk_batch (?k (c # cs) d) = c # cs"
    "wk_plan (?k (c # cs) d) = demo_plan" for c cs d
    by (simp_all add: hired_def demo_go_on)
  have r: "row_by_id ?d1 1 = Some (lease_row 0 (new_row 1 (replicate 32 1)))" by (simp add: row_by_id_update demo_row)
  let ?k1 = "?k [?c1, ?c2] ?d1" and ?k2 = "?k [?c1] ?d3"
  define k1' where "k1' = go_on ?d2 (wk_todo ?k1) (?k1\<lparr>wk_script := Done (Inr 0), wk_tick := Suc (wk_tick ?k1)\<rparr>)"
  have w: "work ?k1 ?d1 Fine = Some (k1', ?d2)"
    using demo_turn [OF k(1) _, of ?d1 ?c1] r by (simp add: k1'_def lease_row_def new_row_def Let_def)
  have k1': "wk_script k1' = demo_plan ?c2" "wk_todo k1' = [?c2]" "wk_batch k1' = [?c1, ?c2]"
    by (simp_all add: k1'_def k go_on_simps(1) [of _ 0] demo_go_on)
  let ?s1 = "\<lparr>cr_db = ?d1, cr_workers = [?k1]\<rparr>" and ?s2 = "\<lparr>cr_db = ?d2, cr_workers = [k1']\<rparr>"
    and ?s3 = "\<lparr>cr_db = ?d3, cr_workers = [k1', ?k2]\<rparr>"
  have st1: "crew_step demo_env \<lparr>cr_db = demo_db, cr_workers = []\<rparr> ?s1"
    using crew_step.hires [of demo_pg 2 0 "\<lparr>cr_db = demo_db, cr_workers = []\<rparr>" _ _ demo_env demo_args ?u _ demo_plan, OF _ _ o demo_plans] c1
    by simp
  have st2: "crew_step demo_env ?s1 ?s2" using crew_step.works [of ?s1 "[]" ?k1 "[]" Fine k1' ?d2] w by simp
  have st3: "crew_step demo_env ?s2 ?s3"
    using crew_step.hires [of demo_pg 1 0 ?s2 _ _ demo_env demo_args ?u _ demo_plan, OF _ _ o demo_plans] c2 by simp
  note reach = crew_reach.goes [OF crew_reach.goes [OF crew_reach.goes [OF crew_reach.begins st1] st2] st3]
  have open': "open_rows k1' = {2}" "open_rows ?k2 = {1}" using demo_open [OF k1'(1)] demo_open [OF k(1)] by (simp_all add: k1' k)
  show ?thesis
    using leases_held_once [OF demo_keys_ok demo_orders_ok demo_db_ok reach] reach open' k1'(3) k(3)
    by (intro exI [of _ ?s3] exI [of _ k1'] exI [of _ ?k2]) simp
qed

end
