(* ===== verification/Spec2Isabelle.thy ===== *)
theory Spec2Isabelle imports Admission Process Workers begin

text \<open>
  Verification of the nostr web-of-trust crawler, the Rust crate under \<open>src/\<close>.

  The program. A daemon crawls the follow graph of nostr from one anchor key. The rows of the
  table \<open>pubkeys\<close> are the queue: the driver leases a batch of discovered keys, a worker fetches
  their follow lists from the curated relays, the validation gate picks each author's newest
  valid list, and the writer replaces the author's edges, which adds the followees as
  discovered rows. Beside the loop, timers put stale rows and orphaned leases back into the
  queue and sample the metrics, and a health score per relay steers whom the fan-out asks. The
  process around it boots in a fixed order, serves its metrics, and on a signal joins its
  tasks under a time limit; after a crash the next start-up recovers the queue.

  The parts, from the inside out, with the theories that model them.

  \<^item> Shared: \<open>Prelude\<close> (machine integers, strings, \<open>max_by\<close>, hash maps, counters, proof-rule
    collections), \<open>Errors\<close> (\<open>error.rs\<close>), \<open>Nostr\<close> (events, and the interface of the SDK).
  \<^item> Validation gate, \<open>ingest/\<close>: \<open>Verify\<close> (\<open>accept\<close>), \<open>Replaceable\<close> (\<open>pick_winner\<close>), \<open>Follow_List\<close>
    (\<open>followee_pubkeys\<close>), \<open>Relay_List\<close> (NIP-65 pairs, \<open>resolve_relay_list\<close>), \<open>Ingest\<close>
    (\<open>ingest_events\<close>). A batch of raw events and the counters go in; follow lists and counters
    come out.
  \<^item> Store, \<open>store/\<close>: \<open>Database\<close> and \<open>Db_Invariant\<close> are the tables and their invariant \<open>db_ok\<close>;
    \<open>Store_Pubkeys\<close>, \<open>Store_Follows\<close> and \<open>Store_Relays\<close> are the writers, statement by statement
    in a monad whose record \<open>pg\<close> decides which round trips fail, with or without the
    statement's effect, and what other connections do in between.
  \<^item> Queue, \<open>crawl/frontier.rs\<close>: \<open>Frontier\<close> (claim, the three sweeps, retries).
  \<^item> Relays, \<open>relay/\<close>: \<open>Float64\<close> and \<open>Health\<close> (\<open>health.rs\<close>, the registry), \<open>Admission\<close>
    (\<open>admit_per_relay\<close> as a step relation), \<open>Rate_Limit\<close>, \<open>Nip11\<close>, \<open>Paginate\<close> (\<open>fetch.rs\<close>),
    \<open>Relay_Seam\<close> (\<open>mod.rs\<close>: acquisition and notices).
  \<^item> One batch, \<open>crawl/apply.rs\<close>: \<open>Apply\<close> has the operations; \<open>Interference\<close> says what several
    workers on one database may rely on and shows the store's operations under it;
    \<open>Batch_Writes\<close> is the contract of everything a batch does to the tables; \<open>Batch\<close> has the
    theorems about \<open>process_batch\<close>, \<open>Faults\<close> the transfer to servers that fail. \<open>Script\<close> takes a
    computation apart into its round trips, \<open>Jobs\<close> has the contract of a batch's turn for one
    author, and \<open>Workers\<close> lets any number of batches take turns on one database, trip by trip,
    with the claims and the sweeps among them.
  \<^item> Drivers: \<open>Pool\<close> is the worker pool as a step relation; \<open>Crawl\<close> adds the moves of
    \<open>run_crawl\<close> (\<open>crawl/mod.rs\<close>), \<open>Daemon_Loop\<close> those of \<open>run_daemon_loop\<close> (\<open>daemon/loop_.rs\<close>)
    and of the rest of the daemon.
  \<^item> Daemon, \<open>daemon/\<close> and \<open>main.rs\<close>: \<open>Config\<close> (\<open>config.rs\<close>), \<open>Observe\<close> (\<open>observe.rs\<close>), \<open>Sampler\<close>
    (\<open>sampler.rs\<close>), \<open>Fanout\<close> (the closures of \<open>mod.rs\<close>), \<open>Daemon\<close> (what \<open>mod.rs\<close> derives from the
    settings, the binary), \<open>Boot\<close> (\<open>run\<close> up to the spawned tasks, with \<open>store/mod.rs\<close>, as a
    computation that leaves a trace), \<open>Process\<close> (\<open>run\<close> from the spawned tasks to its result,
    as a step relation around the loop's). This theory has the two properties that span
    the crawl, from the relays to the graph, and the daemon, from the settings to the exit.

  Conventions. A definition has the name of the function it models, or of the statement or
  loop inside it. Rust integers are words where they can wrap and unbounded numbers where the
  code cannot reach the bound; durations are nanoseconds, database times microseconds. Errors
  are \<open>Inl\<close>. \<open>HashMap\<close> iteration, queries without \<open>ORDER BY\<close>, random jitter, floating-point
  rounding, the clock and the relays' answers are arguments, and the theorems hold for all of
  them; where one is constrained, the constraint is the documented behaviour: \<open>keys_ok\<close>
  (key encoding), \<open>orders_ok\<close> and \<open>pg_orders_ok\<close> (an order is a permutation), \<open>ieee\<close> (rounding),
  \<open>client_truthful\<close> (a relay returns its newest matching events).

  How hard the environment is. \<open>quiet\<close>: every round trip succeeds and nobody else writes.
  \<open>alone\<close>: any round trip may fail or lose its acknowledgement, nobody else writes. \<open>rely\<close>: in
  addition other connections may do anything that keeps the tables well-formed and loses no
  row. \<open>spares I\<close>: \<open>rely\<close>, and what the others do leaves the rows \<open>I\<close> and their edges alone, as
  other batches do (\<open>batch_is_peer\<close>, which states it of every round trip with \<open>trips\<close>) and the
  queue does, but for the start-up sweep and an in-run reclaim that finds a lease too old
  (\<open>queue_spares_leases\<close>). Each theorem states which one it needs. In \<open>Workers\<close> the assumption is
  discharged: there the others of a batch are the other batches, the claims and the sweeps, a
  row is held only until it is settled, and all that is asked is that the in-run reclaim finds
  no lease of a running worker too old.

  What the lemmas show.

  \<^item> The gate emits exactly the newest accepted event of each author with its bounded
    followees, whatever the order of delivery.
  \<^item> The writers are atomic under any failure, keep \<open>db_ok\<close>, and what is read back is what was
    written; a key's id is found or created once.
  \<^item> A batch resolves every lease it holds, gives each author the outcome of its own list,
    charges a failed fetch to every author once, and adds only keys that a verified list
    names, with other batches at work in between; and it is such a neighbour itself. So in
    every interleaving of the round trips of several batches each author has its outcome when
    its batch has settled it, and no key is with two batches at a time.
  \<^item> The pool: permits and workers always add up to the concurrency, leases and batches in
    flight agree, no state is stuck, a success means that every worker was joined and every
    lease settled. \<open>frontier_step\<close> is the queue as it is meant, and every step of a healthy
    run refines it. After a cancellation the loop returns within \<open>rank\<close> moves.
  \<^item> The process: the boot keeps its order, never logs the database url and can only be stopped
    from outside; a shutdown can always complete, success means that the token was cancelled,
    a clean drain is one; and after a kill at any moment the start-up loses no row and releases
    exactly the orphaned leases.
  \<^item> Pagination never returns a short result as success, and returns; scores, backoff, page
    limits and permits stay in their bounds.

  Interfaces. \<open>newest_wins\<close> (a replaceable-event resolver), \<open>get_or_create\<close> (an index of ids),
  \<open>sweep\<close> (a release of leases), \<open>per_relay\<close> (an operation that touches one relay), \<open>memo\<close> (a
  cache), \<open>batch_writes\<close> (a relation kept by every write of a batch) and \<open>pool_driver\<close> (a driver
  that joins its workers before it reports success) are locales, each interpreted on the
  code's own definitions; \<open>pool_driver\<close> by both drivers, \<open>batch_writes\<close> by what a batch
  discovers and by whose rows it writes.

  Bounds and fuel. No definition has artificial fuel. The page loop of \<open>paginate_chunk\<close> has the
  code's own bound of 10000 pages as its measure. The drivers' loops do not end by themselves
  and are step relations; that the daemon's ends is a theorem with an explicit bound.

  What the modelling found: an outage of all relays marks authors not found; the NIP-65
  fallback asks the curated pool, not the write relays; an error of the claim leaves the loop
  without the drain; the age-based sweep can release the lease of a running fetch; a ttl below
  one second is a ttl of zero; the writer is last-writer-wins; the admission gate can admit
  more tasks than the health-scaled permits, and a curated relay that is also somebody's write
  relay has two semaphores and with them twice the concurrency; a dead loop does not end the process, which goes
  on serving and at last exits with success; a concurrency above the semaphore's limit passes
  the validation and panics, in the boot or, with readiness left up, in the loop; a period of
  zero passes it too, and its timer is dead from the start. Each is stated and proved where it
  arises.

  Not modelled. The database server's transactions beyond atomicity and row locks, the SDK's
  sockets, the GCRA limiter, the HTTP server and the executor's scheduling are third-party code
  behind the parameters above; the pool, the migrations and the recorder are answers of the
  record \<open>host\<close>, and what the configuration library reads from the file and the environment is
  an argument of \<open>load_config\<close>. A signal is one
  step, without the registration of its handlers, and the 30 seconds of the final join are a
  step that may come at any time of the drain. In \<open>Fanout\<close> the concurrent waiting inside
  \<open>admit_per_relay\<close> is left to \<open>Admission\<close>. All chunks of one relay's fetch read the clock
  once (\<open>fetch_chunks\<close>), and \<open>fan_out\<close> asks the relays one after the other. In \<open>Pool\<close> a worker's
  batch is one step; \<open>Workers\<close> has the steps in between.
\<close>

section \<open>From the relays to the graph\<close>

text \<open>
  C1. End to end for one batch: with every curated relay in good health and answering truthfully,
  a batch whose fan-out returned writes, for each claimed author, exactly the newest valid
  list the relays store of it: the row is fetched with that event, and its edges are the
  list's followees, whatever page limits, chunking and page boundaries the events came
  through.
\<close>

theorem crawled_list_is_newest:
  assumes "client_truthful (set stored) (fc_timeout C) (fc_client C)" and "distinct (fc_relays C)"
    and "\<forall>r \<in> set (fc_relays C). fc_threshold C \<le> score (fan_health F) r"
    and "fetch_union E C turns batch F = (Inr raw, F')"
    and "spares (ca_id ` set batch) P" and "pg_orders_ok P" and "keys_ok E" and "orders_ok E" and "db_ok (wdb w)"
    and "\<forall>c \<in> set batch. claims_row (wdb w) c" and "distinct (map ca_id batch)" and "b_kind B = WANT_KIND"
    and "process_batch E P B batch (Inr raw) w = (Inr n, w')"
    and "c \<in> set batch" and "row_by_id (wdb w) (ca_id c) = Some r"
    and "sdk_from_slice E (ca_pubkey c) = Some (ev_pubkey ev)"
    and "newest_accepted E WANT_KIND (authors_of E batch) (b_now B) (b_clamp B)
      (filter (\<lambda>e. \<exists>i < length (fc_relays C). ev_created_at e \<le> tn_clock (turns i)) stored) ev"
    and "fst (followee_pubkeys E ev (b_follow_cap B) (wmet w)) = Some fs"
  shows "list_applied E (follow_list_from_event E ev fs) (ca_id c) r (wdb w) (wdb w')"
proof -
  define vs where "vs = fst (ingest_events E raw (b_kind B) (authors_of E batch) (b_now B) (b_clamp B)
    (b_follow_cap B) (wmet w))"
  let ?v = "follow_list_from_event E ev fs"
  have raw: "set raw = {e \<in> set stored. ev_kind e = 3
      \<and> (\<exists>c \<in> set batch. sdk_from_slice E (ca_pubkey c) = Some (ev_pubkey e))
      \<and> (\<exists>i < length (fc_relays C). ev_created_at e \<le> tn_clock (turns i))}"
    by (rule fetch_union_set [OF assms(1-4)])
  have "inj_on ev_id (set stored)" using assms(1) by (simp add: client_truthful_def)
  then have "ids_unique E raw" using raw by (auto simp: ids_unique_def inj_on_def)
  moreover have "newest_accepted E (b_kind B) (authors_of E batch) (b_now B) (b_clamp B) raw ev"
    using assms(17) unfolding assms(12)
    by (subst newest_accepted_cong) (auto simp: raw acceptable_def in_authors_of WANT_KIND_def ContactList_def)
  ultimately have v: "?v \<in> set vs"
    unfolding vs_def using emitted_iff [OF assms(8)] assms(18) by blast
  have "vfl_follower ?v = ev_pubkey ev" by (simp add: follow_list_from_event_def)
  moreover have "distinct (map vfl_follower vs)" unfolding vs_def by (rule distinct_followers [OF assms(8)])
  ultimately have hit: "Option.bind (sdk_from_slice E (ca_pubkey c)) (index_by_author vs) = Some ?v"
    using index_by_author_Some v assms(16) by fastforce
  have "outcomes E B (index_by_author vs) (timestamp_to_datetime E (b_now B)) batch (wdb w) (wdb w')"
    by (rule batch_success [OF assms(5-11,13) vs_def])
  then have "author_outcome E B (index_by_author vs) (timestamp_to_datetime E (b_now B)) c r (wdb w) (wdb w')"
    using assms(14,15) by (auto simp: outcomes_def)
  then show ?thesis by (simp add: author_outcome_def hit)
qed

text \<open>The relay of the demonstration stores the second list of author 7.\<close>

definition demo_crawl_conf :: "unit fan_conf" where
  "demo_crawl_conf = demo_fan_conf\<lparr>fc_client := one_client demo_new, fc_timeout := DEFAULT_FETCH_TIMEOUT\<rparr>"

definition demo_crawl_turns :: "nat \<Rightarrow> turn" where
  "demo_crawl_turns i = \<lparr>tn_instant = i, tn_clock = 300, tn_latency = 0\<rparr>"

lemma demo_crawl_asks:
  assumes "fan_cache F = fan_cache demo_fan" and "fan_limiter F = limiter_new"
  shows "\<exists>F'. ask_relay demo_crawl_conf (demo_crawl_turns i) [7] WANT_KIND [119] F = (Inr [demo_new], F')"
proof -
  have "fst (fetch_complete 300 (one_client demo_new) [119] [7] ContactList 2 500 (limiter_new, ())) = Inr [demo_new]"
    by (rule one_fetch) (simp_all add: demo_event_def)
  then obtain R s where "fetch_complete_with_timeout 300 (one_client demo_new) [119] [7] ContactList 2 500
      DEFAULT_FETCH_TIMEOUT (limiter_new, ()) = (Inr [demo_new], R, s)"
    unfolding fetch_complete_def by (metis prod.collapse)
  then show ?thesis using assms
    by (simp add: ask_relay_def demo_crawl_conf_def demo_fan_conf_def demo_crawl_turns_def get_or_fetch_def
        demo_fan_def DEFAULT_MAX_LIMIT_def MAX_AUTHORS_PER_REQ_def WANT_KIND_def Let_def)
qed

lemma demo_crawl_fetched:
  "\<exists>F'. fetch_union demo_env demo_crawl_conf demo_crawl_turns [demo_claim] demo_fan = (Inr [demo_new], F')"
proof -
  let ?H = "mark_attempt [119] 0 (fan_health demo_fan)"
  have t: "try_mark_attempt [119] (fc_threshold demo_crawl_conf) (tn_instant (demo_crawl_turns 0)) (fan_health demo_fan)
      = (True, ?H)"
    by (simp add: try_mark_attempt_def demo_crawl_conf_def demo_fan_conf_def demo_crawl_turns_def demo_fan_def
        score_def health_new_def)
  obtain F1 where a: "ask_relay demo_crawl_conf (demo_crawl_turns 0) [7] WANT_KIND [119]
      (demo_fan\<lparr>fan_health := ?H\<rparr>) = (Inr [demo_new], F1)"
    using demo_crawl_asks [of "demo_fan\<lparr>fan_health := ?H\<rparr>" 0] by (auto simp: demo_fan_def)
  have "fetch_union demo_env demo_crawl_conf demo_crawl_turns [demo_claim] demo_fan
      = fan_out demo_crawl_conf demo_crawl_turns [7] [[119]] 0 [] demo_fan"
  proof -
    have "fc_relays demo_crawl_conf = [[119]]" by (simp add: demo_crawl_conf_def demo_fan_conf_def)
    then show ?thesis using demo_claim_author by (simp add: fetch_union_def List.map_filter_def del: fan_out.simps)
  qed
  then show ?thesis using t a by simp
qed

theorem crawled_list_is_newest_witness:
  "\<exists>n w'. process_batch demo_env busy_pg demo_args [demo_claim]
      (fst (fetch_union demo_env demo_crawl_conf demo_crawl_turns [demo_claim] demo_fan)) demo_batch_world = (Inr n, w')
    \<and> list_applied demo_env (follow_list_from_event demo_env demo_new [8, 9]) 1
        (new_row 1 (sdk_to_bytes demo_env 7)) (wdb demo_batch_world) (wdb w')"
proof -
  let ?C = demo_crawl_conf
  obtain F' where f: "fetch_union demo_env ?C demo_crawl_turns [demo_claim] demo_fan = (Inr [demo_new], F')"
    using demo_crawl_fetched by blast
  have o: "spares (ca_id ` set [demo_claim]) busy_pg" "pg_orders_ok busy_pg"
    using shared_busy by (simp_all add: shared_def)
  obtain n w' where p: "process_batch demo_env busy_pg demo_args [demo_claim] (Inr [demo_new]) demo_batch_world
      = (Inr n, w')"
    using demo_busy_returns by blast
  have t: "client_truthful (set [demo_new]) (fc_timeout ?C) (fc_client ?C)"
    using one_truthful [of DEFAULT_FETCH_TIMEOUT demo_new] by (simp add: demo_crawl_conf_def DEFAULT_FETCH_TIMEOUT_def)
  have h: "distinct (fc_relays ?C)" "\<forall>r \<in> set (fc_relays ?C). fc_threshold ?C \<le> score (fan_health demo_fan) r"
    by (simp_all add: demo_crawl_conf_def demo_fan_conf_def demo_fan_def score_def health_new_def)
  have k: "b_kind demo_args = WANT_KIND" by (simp add: demo_args_def WANT_KIND_def)
  have c: "demo_claim \<in> set [demo_claim]" by simp
  have r: "row_by_id (wdb demo_batch_world) (ca_id demo_claim) = Some (new_row 1 (sdk_to_bytes demo_env 7))"
    using demo_batch_ok(5) by (simp add: demo_claim_def)
  have a: "sdk_from_slice demo_env (ca_pubkey demo_claim) = Some (ev_pubkey demo_new)"
    using demo_claim_author by (simp add: demo_event_def)
  have "7 \<in> authors_of demo_env [demo_claim]" using demo_claim_author by (simp add: in_authors_of)
  then have n: "newest_accepted demo_env WANT_KIND (authors_of demo_env [demo_claim]) (b_now demo_args) (b_clamp demo_args)
      (filter (\<lambda>e. \<exists>i < length (fc_relays ?C). ev_created_at e \<le> tn_clock (demo_crawl_turns i)) [demo_new]) demo_new"
    by (simp add: newest_accepted_def in_clamp_def older_eq_def saturating_add_def WANT_KIND_def demo_args_def)
      (simp add: demo_event_def demo_crawl_conf_def demo_fan_conf_def demo_crawl_turns_def)
  have l: "fst (followee_pubkeys demo_env demo_new (b_follow_cap demo_args) (wmet demo_batch_world)) = Some [8, 9]"
    by (simp add: followee_pubkeys_def demo_event_def demo_env_def demo_args_def Let_def)
  show ?thesis
    using crawled_list_is_newest [OF t h f o demo_keys_ok demo_orders_ok demo_batch_ok(1-3) k p c r a n l] p f
    by (auto simp: demo_claim_def)
qed

section \<open>From the settings to the exit\<close>

text \<open>
  C15. A daemon whose settings passed the validation can always be stopped: once it has booted,
  whatever its tasks, the relays and the database have done since, one signal and the moves
  of its own tasks bring it to its end, \<open>run\<close> returns success, the task of the loop and all
  timers have been joined, and the drain did not run over its budget. If the loop ended
  without an error, then no worker is left running either and no row is leased; a loop that
  ended with one may have left its workers detached, and nobody joins those.
\<close>

theorem booted_daemon_stops:
  assumes "validate (ho_parse H) cfg = Inr ()" and "fst (boot E H cfg []) = Value parts"
    and "alone P" and "keys_ok E" and "orders_ok E" and "db_ok (wdb w)"
    and "process_reach E P (pt_loop parts) w s" and "up s"
  shows "\<exists>s' j. (process_step E P (pt_loop parts))\<^sup>*\<^sup>* s s' \<and> run_result (pr_phase s') = Some (Inr ())
    \<and> pr_timers s' = 0 \<and> task_joined (pr_task s') = Some j \<and> pr_phase s' = Exited (Inr (drain_verdict j))
    \<and> (\<forall>st. j = Joined (Inr st) \<longrightarrow> (\<exists>d. pr_task s' = Looping d \<and> (\<forall>t \<in> set (cs_tasks d). \<not> is_running t)
         \<and> leased (wdb (cs_world d)) = {}))"
proof -
  let ?s = "s\<lparr>pr_cancelled := True, pr_task := cancel_task (pr_task s)\<rparr>"
  obtain anchor where C: "pt_loop parts = loop_conf E anchor cfg" using boot_value(1) [OF assms(2)] by blast
  have st: "process_step E P (pt_loop parts) s ?s" by (rule process_step.signal [OF assms(8)])
  note r = process_reach.goes [OF assms(7) st]
  obtain s' j' where s': "(process_step E P (pt_loop parts))\<^sup>*\<^sup>* ?s s'" "pr_phase s' = Exited (Inr (drain_verdict j'))"
    using completes [OF assms(3-6) _ _ r] loop_conf_runs [OF assms(1), of E anchor] assms(8)
    by (auto simp: C up_def)
  note r' = process_reach_trans [OF r s'(1)]
  obtain j where j: "pr_timers s' = 0" "task_joined (pr_task s') = Some j" "pr_phase s' = Exited (Inr (drain_verdict j))"
    using process_reach_ok [OF r' assms(3,6)] s'(2) drain_verdict_joined [of j'] by (auto simp: process_ok_def)
  have "\<exists>d. pr_task s' = Looping d \<and> (\<forall>t \<in> set (cs_tasks d). \<not> is_running t) \<and> leased (wdb (cs_world d)) = {}"
    if "j = Joined (Inr st)" for st
  proof -
    have "pr_phase s' = Exited (Inr (Drained_Cleanly st))" using j(3) that by (simp add: drain_verdict_def)
    from clean_drain(2) [OF assms(3-6) r' this] obtain d where d: "pr_task s' = Looping d"
      "\<forall>t \<in> set (cs_tasks d). \<exists>b. t = Ended b (Finished (Inr ()))"
      "\<forall>r \<in> set (pubkeys (wdb (cs_world d))). row_status r \<noteq> In_Progress" by blast
    then have "leased (wdb (cs_world d)) = {}" using row_by_id_Some by (fastforce simp: leased_def)
    then show ?thesis using d by fastforce
  qed
  then show ?thesis using j s'(2) converse_rtranclp_into_rtranclp [of "process_step E P (pt_loop parts)", OF st s'(1)]
    by (intro exI [of _ s'] exI [of _ j]) auto
qed

theorem booted_daemon_stops_witness:
  "\<exists>parts s'. fst (boot demo_env demo_host demo_config []) = Value parts
    \<and> (process_step demo_env demo_pg (pt_loop parts))\<^sup>*\<^sup>* (process_begin demo_empty False (live_timers parts)) s'
    \<and> run_result (pr_phase s') = Some (Inr ())"
proof -
  obtain parts where p: "fst (boot demo_env demo_host demo_config []) = Value parts"
    using demo_config_boots by blast
  have "up (process_begin demo_empty False (live_timers parts))" by (simp add: process_begin_def up_def)
  from booted_daemon_stops [OF demo_host_ok(1) p demo_alone demo_keys_ok demo_orders_ok demo_empty_ok
      process_reach.begins this] p
  show ?thesis by blast
qed

end
